(* ===== verification/OS161_Prelude.thy ===== *)
theory OS161_Prelude
  imports Main "HOL-Library.Word"
begin

text \<open>
  Shared vocabulary of the development: the error codes of \<^verbatim>\<open>kern/include/kern/errno.h\<close>,
  the outcome of a kernel routine, sequencing of routines, and generic facts on lists and
  on the C integer types that more than one component uses.
\<close>

section \<open>Error codes\<close>

text \<open>The error codes, in the order and with the names of \<^verbatim>\<open>kern/errno.h\<close>.\<close>

datatype errno =
    EINVAL | EFAULT | ENAMETOOLONG | ENOMEM | EIO | ENOENT | ENOTDIR | EISDIR | EEXIST
  | EXDEV | EAGAIN | ESPIPE | EUNIMP | ENXIO | ENODEV | EBUSY | EIOCTL | ENOTEMPTY
  | ERANGE | ENOSPC | EMFILE | ENFILE | ENOSYS | ENOEXEC | E2BIG | EBADF

section \<open>Outcomes of kernel routines\<close>

text \<open>
  A kernel routine runs on a state and ends in one of five ways: it returns a value
  (\<open>Ret\<close>; for an \<^verbatim>\<open>int\<close>-returning routine this is the result 0), it returns an error
  code (\<open>Err\<close>; the state keeps whatever was changed before the error was found), it
  panics or fails an assertion (\<open>Panic\<close>), it performs an operation the C language
  leaves undefined, such as a signed overflow or an access outside an object (\<open>Undef\<close>), or it
  goes to sleep on a lock that nobody is going to release (\<open>Sleeps\<close>).
\<close>

datatype ('s, 'a) outcome = Ret 'a 's | Err errno 's | Panic | Undef | Sleeps

primrec andthen :: "('s, 'a) outcome \<Rightarrow> ('a \<Rightarrow> 's \<Rightarrow> ('s, 'b) outcome) \<Rightarrow> ('s, 'b) outcome" where
  "andthen (Ret x s) k = k x s"
| "andthen (Err e s) k = Err e s"
| "andthen Panic k = Panic"
| "andthen Undef k = Undef"
| "andthen Sleeps k = Sleeps"

definition kassert :: "bool \<Rightarrow> ('s, 'a) outcome \<Rightarrow> ('s, 'a) outcome" where
  "kassert b r = (if b then r else Panic)"

definition defined_if :: "bool \<Rightarrow> ('s, 'a) outcome \<Rightarrow> ('s, 'a) outcome" where
  "defined_if b r = (if b then r else Undef)"

text \<open>Running a routine of a component inside a larger state: \<open>upd\<close> stores the component back.\<close>

abbreviation within :: "('t \<Rightarrow> 's) \<Rightarrow> ('t, 'a) outcome \<Rightarrow> ('s, 'a) outcome" where
  "within upd \<equiv> map_outcome upd id"

primrec normal :: "('s, 'a) outcome \<Rightarrow> bool" where
  "normal (Ret x s) = True"
| "normal (Err e s) = True"
| "normal Panic = False"
| "normal Undef = False"
| "normal Sleeps = False"

lemma andthen_cong [fundef_cong]:
  "m = m' \<Longrightarrow> (\<And>x s. m' = Ret x s \<Longrightarrow> k x s = k' x s) \<Longrightarrow> andthen m k = andthen m' k'"
  by (cases m') auto

lemma andthen_Ret_iff:
  "andthen m k = Ret y t \<longleftrightarrow> (\<exists>x s. m = Ret x s \<and> k x s = Ret y t)"
  by (cases m) auto

lemma andthen_Err_iff:
  "andthen m k = Err e t \<longleftrightarrow> m = Err e t \<or> (\<exists>x s. m = Ret x s \<and> k x s = Err e t)"
  by (cases m) auto

lemma kassert_True [simp]: "kassert True r = r"
  by (simp add: kassert_def)

lemma kassert_False [simp]: "kassert False r = Panic"
  by (simp add: kassert_def)

lemma defined_if_True [simp]: "defined_if True r = r"
  by (simp add: defined_if_def)

lemma defined_if_False [simp]: "defined_if False r = Undef"
  by (simp add: defined_if_def)

lemma kassert_Ret_iff: "kassert b r = Ret x s \<longleftrightarrow> b \<and> r = Ret x s"
  by (simp add: kassert_def)

lemma kassert_Err_iff: "kassert b r = Err e s \<longleftrightarrow> b \<and> r = Err e s"
  by (simp add: kassert_def)

lemma defined_if_Ret_iff: "defined_if b r = Ret x s \<longleftrightarrow> b \<and> r = Ret x s"
  by (simp add: defined_if_def)

lemma defined_if_Err_iff: "defined_if b r = Err e s \<longleftrightarrow> b \<and> r = Err e s"
  by (simp add: defined_if_def)

lemmas outcome_iffs =
  andthen_Ret_iff andthen_Err_iff kassert_Ret_iff kassert_Err_iff
  defined_if_Ret_iff defined_if_Err_iff

lemma andthen_within [simp]:
  "andthen (within upd m) k = (case m of Ret x t \<Rightarrow> k x (upd t) | Err e t \<Rightarrow> Err e (upd t)
     | Panic \<Rightarrow> Panic | Undef \<Rightarrow> Undef | Sleeps \<Rightarrow> Sleeps)"
  by (cases m) auto

section \<open>C integers\<close>

text \<open>Signed arithmetic on \<^verbatim>\<open>int\<close> is undefined outside its range.\<close>

abbreviation INT_MAX :: int where
  "INT_MAX \<equiv> 2147483647"

abbreviation INT_MIN :: int where
  "INT_MIN \<equiv> - 2147483648"

type_synonym u8 = "8 word"
type_synonym u16 = "16 word"
type_synonym u32 = "32 word"

section \<open>Locks\<close>

text \<open>
  \<^verbatim>\<open>struct lock\<close> of \<^verbatim>\<open>kern/include/synch.h\<close>: \<^verbatim>\<open>held\<close> and the thread that \<^verbatim>\<open>pointer\<close>
  names.  \<^verbatim>\<open>lock_create\<close> sets neither, so that a new lock holds whatever was in its memory.
\<close>

record lock =
  l_held :: int
  l_pointer :: "nat option"

abbreviation free_lock :: lock where
  "free_lock \<equiv> \<lparr>l_held = 0, l_pointer = None\<rparr>"

section \<open>Lists\<close>

lemma take_list_update_Suc:
  "i < length xs \<Longrightarrow> take (Suc i) (xs[i := x]) = take i xs @ [x]"
  by (simp add: take_Suc_conv_app_nth)

lemma list_update_as_append:
  "i < length xs \<Longrightarrow> xs[i := x] = take i xs @ x # drop (Suc i) xs"
  by (simp add: upd_conv_take_nth_drop)

end
