(* ===== verification/Kern_Array.thy ===== *)
theory Kern_Array
  imports OS161_Prelude
begin

text \<open>
  The resizeable pointer array of \<^verbatim>\<open>kern/lib/array.c\<close>, its representation invariant, and
  the refinement of its operations to operations on lists.  The contract is packaged as the
  locale \<open>growable_array\<close>, which the thread, VFS and SFS components rely on.
\<close>

section \<open>The model\<close>

text \<open>
  \<^verbatim>\<open>struct array\<close>.  A buffer of \<^verbatim>\<open>void *\<close> cells is a list whose entries are \<open>None\<close> until they
  are first written (\<^verbatim>\<open>kmalloc\<close> does not initialise memory); the pointer \<^verbatim>\<open>v\<close> itself is \<open>None\<close>
  when it is \<^verbatim>\<open>NULL\<close>.  Whether a \<^verbatim>\<open>kmalloc\<close> succeeds is a parameter \<open>ok\<close> of the operations.
\<close>

type_synonym 'p cells = "'p option list"

record 'p karray =
  a_num :: int
  a_max :: int
  a_v :: "'p cells option"

definition array_create :: "bool \<Rightarrow> 'p karray option" where
  "array_create ok = (if ok then Some \<lparr>a_num = 0, a_max = 0, a_v = None\<rparr> else None)"

definition array_getnum :: "'p karray \<Rightarrow> int" where
  "array_getnum a = a_num a"

text \<open>Reading and writing \<^verbatim>\<open>v[i]\<close>: undefined through \<^verbatim>\<open>NULL\<close> or outside the buffer.\<close>

definition cell_read :: "'p cells option \<Rightarrow> int \<Rightarrow> 'p option option" where
  "cell_read v i = (case v of None \<Rightarrow> None
     | Some b \<Rightarrow> if 0 \<le> i \<and> nat i < length b then Some (b ! nat i) else None)"

definition cell_write :: "'p cells option \<Rightarrow> int \<Rightarrow> 'p option \<Rightarrow> 'p cells option" where
  "cell_write v i x = (case v of None \<Rightarrow> None
     | Some b \<Rightarrow> if 0 \<le> i \<and> nat i < length b then Some (b[nat i := x]) else None)"

definition array_getguy :: "'p karray \<Rightarrow> int \<Rightarrow> ('p karray, 'p option) outcome" where
  "array_getguy a index =
     kassert (a_num a \<le> a_max a)
      (kassert (0 \<le> index \<and> index < a_num a)
        (case cell_read (a_v a) index of None \<Rightarrow> Undef | Some x \<Rightarrow> Ret x a))"

text \<open>
  The loop that doubles \<^verbatim>\<open>newmax\<close>.  \<open>None\<close> is a signed overflow; a negative start cannot
  occur after the assertion in front of the loop.
\<close>

function grow_max :: "int \<Rightarrow> int \<Rightarrow> int option" where
  "grow_max nguys newmax =
     (if newmax < 0 then None
      else if nguys > newmax then
        (if (newmax + 1) * 2 > INT_MAX then None else grow_max nguys ((newmax + 1) * 2))
      else Some newmax)"
  by pat_completeness auto
termination
  by (relation "measure (\<lambda>(n, m). nat (n - m))") auto

declare grow_max.simps [simp del]

text \<open>\<^verbatim>\<open>kmalloc(n * sizeof(void *))\<close>: the product is a 32-bit \<^verbatim>\<open>size_t\<close> and wraps.\<close>

definition fresh_cells :: "int \<Rightarrow> 'p cells" where
  "fresh_cells n = replicate (nat ((n * 4) mod 2 ^ 32 div 4)) None"

text \<open>\<^verbatim>\<open>for (i=0; i<a->num; i++) newv[i] = a->v[i];\<close>\<close>

function copy_cells :: "'p cells option \<Rightarrow> 'p cells \<Rightarrow> int \<Rightarrow> int \<Rightarrow> 'p cells option" where
  "copy_cells old newv i n =
     (if i < n then
        (case cell_read old i of None \<Rightarrow> None
         | Some x \<Rightarrow> (case cell_write (Some newv) i x of None \<Rightarrow> None
                      | Some newv' \<Rightarrow> copy_cells old newv' (i + 1) n))
      else Some newv)"
  by pat_completeness auto
termination
  by (relation "measure (\<lambda>(old, newv, i, n). nat (n - i))") auto

declare copy_cells.simps [simp del]

definition array_preallocate :: "bool \<Rightarrow> 'p karray \<Rightarrow> int \<Rightarrow> ('p karray, unit) outcome" where
  "array_preallocate ok a nguys =
     kassert (0 \<le> a_num a \<and> a_num a \<le> a_max a)
      (case grow_max nguys (a_max a) of None \<Rightarrow> Undef
       | Some newmax \<Rightarrow>
           if \<not> ok then Err ENOMEM a
           else (case copy_cells (a_v a) (fresh_cells newmax) 0 (a_num a) of None \<Rightarrow> Undef
                 | Some newv \<Rightarrow> Ret () (a\<lparr>a_max := newmax, a_v := Some newv\<rparr>)))"

definition array_setsize :: "bool \<Rightarrow> 'p karray \<Rightarrow> int \<Rightarrow> ('p karray, unit) outcome" where
  "array_setsize ok a nguys =
     kassert (0 \<le> a_num a \<and> a_num a \<le> a_max a)
      (andthen
        (if nguys > a_max a then array_preallocate ok a nguys
         else if nguys = 0 \<and> a_max a > 16 then
           kassert (a_v a \<noteq> None) (Ret () (a\<lparr>a_v := None, a_max := 0\<rparr>))
         else Ret () a)
        (\<lambda>_ a. Ret () (a\<lparr>a_num := nguys\<rparr>)))"

definition array_setguy :: "'p karray \<Rightarrow> int \<Rightarrow> 'p \<Rightarrow> ('p karray, unit) outcome" where
  "array_setguy a index ptr =
     kassert (a_num a \<le> a_max a)
      (kassert (0 \<le> index \<and> index < a_num a)
        (case cell_write (a_v a) index (Some ptr) of None \<Rightarrow> Undef
         | Some b \<Rightarrow> Ret () (a\<lparr>a_v := Some b\<rparr>)))"

definition array_add :: "bool \<Rightarrow> 'p karray \<Rightarrow> 'p \<Rightarrow> ('p karray, unit) outcome" where
  "array_add ok a guy =
     (let ix = a_num a in
      defined_if (ix + 1 \<le> INT_MAX)
       (andthen (array_setsize ok a (ix + 1))
         (\<lambda>_ a. case cell_write (a_v a) ix (Some guy) of None \<Rightarrow> Undef
                | Some b \<Rightarrow> Ret () (a\<lparr>a_v := Some b\<rparr>))))"

text \<open>
  \<^verbatim>\<open>memmove\<close> of \<open>n\<close> cells inside one buffer, from cell \<open>src\<close> to cell \<open>dst\<close>; undefined when
  either range leaves the buffer.
\<close>

definition memmove_cells :: "'p cells option \<Rightarrow> nat \<Rightarrow> nat \<Rightarrow> nat \<Rightarrow> 'p cells option" where
  "memmove_cells v dst src n = (case v of None \<Rightarrow> None
     | Some b \<Rightarrow> if dst + n \<le> length b \<and> src + n \<le> length b
        then Some (take dst b @ take n (drop src b) @ drop (dst + n) b) else None)"

definition array_remove :: "'p karray \<Rightarrow> int \<Rightarrow> ('p karray, unit) outcome" where
  "array_remove a index =
     kassert (a_num a \<le> a_max a)
      (kassert (0 \<le> index \<and> index < a_num a)
        (let nmove = a_num a - (index + 1) in
         case memmove_cells (a_v a) (nat index) (nat (index + 1))
                (nat ((nmove * 4) mod 2 ^ 32 div 4)) of None \<Rightarrow> Undef
         | Some b \<Rightarrow> Ret () (a\<lparr>a_v := Some b, a_num := a_num a - 1\<rparr>)))"

section \<open>Invariant and abstraction\<close>

text \<open>
  The representation invariant: the counters are ordered, the buffer has \<^verbatim>\<open>max\<close> cells, and its
  byte size fits a \<^verbatim>\<open>size_t\<close>.
\<close>

definition array_inv :: "'p karray \<Rightarrow> bool" where
  "array_inv a \<longleftrightarrow> 0 \<le> a_num a \<and> a_num a \<le> a_max a \<and> a_max a < 2 ^ 30 \<and>
     (case a_v a of None \<Rightarrow> a_max a = 0 | Some b \<Rightarrow> length b = nat (a_max a))"

text \<open>The visible contents: the first \<^verbatim>\<open>num\<close> cells.\<close>

definition array_cells :: "'p karray \<Rightarrow> 'p cells" where
  "array_cells a = (case a_v a of None \<Rightarrow> [] | Some b \<Rightarrow> take (nat (a_num a)) b)"

section \<open>The helper loops\<close>

lemma grow_max_Some:
  assumes "0 \<le> m" "m < 2 ^ 30" "n < 2 ^ 29"
  shows "\<exists>m'. grow_max n m = Some m' \<and> m \<le> m' \<and> n \<le> m' \<and> m' < 2 ^ 30"
  using assms
proof (induction n m rule: grow_max.induct)
  case (1 n m)
  show ?case
  proof (cases "m < n")
    case True
    with "1.prems" have b: "(m + 1) * 2 \<le> INT_MAX" "(m + 1) * 2 < 2 ^ 30" by simp_all
    with 1 True obtain m' where "grow_max n ((m + 1) * 2) = Some m'" "(m + 1) * 2 \<le> m'"
      "n \<le> m'" "m' < 2 ^ 30" by fastforce
    with True "1.prems" b show ?thesis by (subst grow_max.simps) simp
  qed (use "1.prems" in \<open>simp add: grow_max.simps\<close>)
qed

lemma copy_cells_Some:
  assumes "0 \<le> i" "i \<le> n" "nat n \<le> length b" "nat n \<le> length w"
  shows "copy_cells (Some b) w i n =
           Some (take (nat i) w @ take (nat n - nat i) (drop (nat i) b) @ drop (nat n) w)"
  using assms
proof (induction "Some b" w i n rule: copy_cells.induct)
  case (1 w i n)
  show ?case
  proof (cases "i < n")
    case True
    have i: "nat i < length b" "nat i < length w" using 1 True by linarith+
    with 1 True have "copy_cells (Some b) w i n = copy_cells (Some b) (w[nat i := b ! nat i]) (i + 1) n"
      by (subst copy_cells.simps) (simp add: cell_read_def cell_write_def)
    also have "\<dots> = Some (take (Suc (nat i)) (w[nat i := b ! nat i]) @
                 take (nat n - Suc (nat i)) (drop (Suc (nat i)) b) @ drop (nat n) w)"
      using 1 True i by (simp add: cell_read_def cell_write_def nat_add_distrib)
    also have "\<dots> = Some (take (nat i) w @ take (nat n - nat i) (drop (nat i) b) @ drop (nat n) w)"
    proof -
      have "take (nat n - nat i) (drop (nat i) b) =
              b ! nat i # take (nat n - Suc (nat i)) (drop (Suc (nat i)) b)"
        using i True "1.prems" by (simp add: Cons_nth_drop_Suc [symmetric] take_Cons' split: nat.split)
      with i show ?thesis by (simp add: take_list_update_Suc)
    qed
    finally show ?thesis .
  qed (use 1 in \<open>simp add: copy_cells.simps\<close>)
qed

lemma copy_cells_none [simp]: "copy_cells v w 0 0 = Some w"
  by (simp add: copy_cells.simps)

lemma length_fresh_cells [simp]:
  "0 \<le> n \<Longrightarrow> n < 2 ^ 30 \<Longrightarrow> length (fresh_cells n :: 'p cells) = nat n"
  by (simp add: fresh_cells_def)

lemma nmove_bytes: "0 \<le> n \<Longrightarrow> n < 2 ^ 30 \<Longrightarrow> (n * 4) mod 2 ^ 32 div 4 = (n::int)"
  by simp

section \<open>Refinement to lists\<close>

lemma array_create_spec:
  "array_create True = Some a \<Longrightarrow> array_inv a \<and> array_cells a = []"
  by (auto simp: array_create_def array_inv_def array_cells_def)

lemma array_inv_buffer:
  assumes "array_inv a" "0 < a_max a"
  obtains b where "a_v a = Some b" "length b = nat (a_max a)"
  using assms by (auto simp: array_inv_def split: option.splits)

lemma length_array_cells: "array_inv a \<Longrightarrow> length (array_cells a) = nat (a_num a)"
  by (auto simp: array_inv_def array_cells_def split: option.splits)

lemma array_getnum_cells: "array_inv a \<Longrightarrow> array_getnum a = int (length (array_cells a))"
  by (simp add: array_getnum_def length_array_cells array_inv_def)

lemma array_getguy_cells:
  assumes "array_inv a" "i < length (array_cells a)"
  shows "array_getguy a (int i) = Ret (array_cells a ! i) a"
proof -
  have i: "int i < a_num a" "0 < a_max a"
    using assms by (auto simp: length_array_cells array_inv_def)
  obtain b where "a_v a = Some b" "length b = nat (a_max a)"
    using array_inv_buffer [OF assms(1) i(2)] .
  with assms i show ?thesis
    by (auto simp: array_getguy_def cell_read_def array_cells_def array_inv_def)
qed

lemma array_getguy_range:
  "index < 0 \<or> a_num a \<le> index \<Longrightarrow> array_getguy a index = Panic"
  by (auto simp: array_getguy_def kassert_def)

lemma array_preallocate_fail:
  assumes "array_inv a" "n < 2 ^ 29"
  shows "array_preallocate False a n = Err ENOMEM a"
  using assms grow_max_Some [of "a_max a" n]
  by (auto simp: array_preallocate_def array_inv_def)

lemma array_preallocate_ok:
  assumes inv: "array_inv a" and n: "n < 2 ^ 29"
  shows "\<exists>a'. array_preallocate True a n = Ret () a' \<and> array_inv a' \<and>
              array_cells a' = array_cells a \<and> a_num a' = a_num a \<and>
              n \<le> a_max a' \<and> a_max a \<le> a_max a'"
proof -
  have bnd: "0 \<le> a_num a" "a_num a \<le> a_max a" "a_max a < 2 ^ 30"
    using inv by (auto simp: array_inv_def)
  obtain m where m: "grow_max n (a_max a) = Some m" "a_max a \<le> m" "n \<le> m" "m < 2 ^ 30"
    using grow_max_Some [of "a_max a" n] bnd n by auto
  have len: "length (fresh_cells m :: 'a cells) = nat m" using bnd m by simp
  show ?thesis
  proof (cases "a_v a")
    case None
    with inv have "a_num a = 0" by (auto simp: array_inv_def)
    with None m bnd len show ?thesis
      by (auto simp: array_preallocate_def array_inv_def array_cells_def)
  next
    case (Some b)
    with inv have lb: "length b = nat (a_max a)" by (auto simp: array_inv_def)
    have "copy_cells (Some b) (fresh_cells m) 0 (a_num a) =
            Some (take (nat (a_num a)) b @ drop (nat (a_num a)) (fresh_cells m))"
      using copy_cells_Some [of 0 "a_num a" b "fresh_cells m"] bnd m lb len by simp
    with Some m bnd len lb show ?thesis
      by (auto simp: array_preallocate_def array_inv_def array_cells_def)
  qed
qed

lemma array_setsize_ok:
  assumes inv: "array_inv a" and n: "0 \<le> n" "n < 2 ^ 29"
  shows "\<exists>a'. array_setsize True a n = Ret () a' \<and> array_inv a' \<and> a_num a' = n \<and>
              take (nat (min n (a_num a))) (array_cells a') =
              take (nat (min n (a_num a))) (array_cells a)"
proof (cases "n > a_max a")
  case True
  obtain a' where a': "array_preallocate True a n = Ret () a'" "array_inv a'"
      "array_cells a' = array_cells a" "a_num a' = a_num a" "n \<le> a_max a'"
    using array_preallocate_ok [OF inv n(2)] by auto
  moreover have "a_num a < n" "0 \<le> a_num a" using inv True by (auto simp: array_inv_def)
  ultimately show ?thesis
    using inv n True
    by (auto simp: array_setsize_def array_inv_def array_cells_def min_def split: option.splits)
next
  case False
  with inv n show ?thesis
    by (auto simp: array_setsize_def array_inv_def array_cells_def min_def split: option.splits)
qed

lemma array_setguy_cells:
  assumes "array_inv a" "i < length (array_cells a)"
  shows "\<exists>a'. array_setguy a (int i) p = Ret () a' \<and> array_inv a' \<and>
              array_cells a' = (array_cells a)[i := Some p] \<and> a_max a' = a_max a"
proof -
  have i: "int i < a_num a" "0 < a_max a"
    using assms by (auto simp: length_array_cells array_inv_def)
  obtain b where "a_v a = Some b" "length b = nat (a_max a)"
    using array_inv_buffer [OF assms(1) i(2)] .
  with assms i show ?thesis
    by (auto simp: array_setguy_def cell_write_def array_cells_def array_inv_def
          take_update_swap)
qed

lemma array_add_room:
  assumes inv: "array_inv a" and room: "a_num a < a_max a"
  shows "\<exists>a'. array_add ok a p = Ret () a' \<and> array_inv a' \<and>
              array_cells a' = array_cells a @ [Some p] \<and> a_max a' = a_max a"
proof -
  have m: "0 < a_max a" "0 \<le> a_num a" "a_max a < 2 ^ 30"
    using inv room by (auto simp: array_inv_def)
  obtain b where b: "a_v a = Some b" "length b = nat (a_max a)"
    using array_inv_buffer [OF inv m(1)] .
  have lt: "nat (a_num a) < length b" using room m b by simp
  have "array_add ok a p = Ret () (a\<lparr>a_v := Some (b[nat (a_num a) := Some p]), a_num := a_num a + 1\<rparr>)"
    using room m b lt by (simp add: array_add_def array_setsize_def cell_write_def Let_def)
  with room m b lt show ?thesis
    by (auto simp: array_inv_def array_cells_def nat_add_distrib take_list_update_Suc)
qed

lemma array_add_full:
  assumes inv: "array_inv a" and full: "a_num a = a_max a" and n: "a_num a + 1 < 2 ^ 29"
  shows "array_add ok a p =
    (if ok then (case array_preallocate True a (a_num a + 1) of
       Ret _ a' \<Rightarrow> array_add False a' p | r \<Rightarrow> r) else Err ENOMEM a)"
proof -
  obtain a' where "array_preallocate True a (a_num a + 1) = Ret () a'" "array_inv a'"
    "a_num a' = a_num a" "a_num a + 1 \<le> a_max a'"
    using array_preallocate_ok [OF inv n] by auto
  with assms show ?thesis
    by (auto simp: array_add_def array_setsize_def array_preallocate_fail array_inv_def
          Let_def split: option.splits)
qed

lemma array_add_ok:
  assumes inv: "array_inv a" and n: "a_num a + 1 < 2 ^ 29"
  shows "\<exists>a'. array_add True a p = Ret () a' \<and> array_inv a' \<and>
              array_cells a' = array_cells a @ [Some p]"
proof (cases "a_num a < a_max a")
  case True
  then show ?thesis using array_add_room [OF inv] by blast
next
  case False
  with inv have full: "a_num a = a_max a" by (simp add: array_inv_def)
  obtain a' where a': "array_preallocate True a (a_num a + 1) = Ret () a'" "array_inv a'"
    "array_cells a' = array_cells a" "a_num a' = a_num a" "a_num a + 1 \<le> a_max a'"
    using array_preallocate_ok [OF inv n] by auto
  show ?thesis
    using array_add_room [of a' False p] a' array_add_full [OF inv full n, of True] by auto
qed

lemma array_add_nomem:
  assumes inv: "array_inv a" and n: "a_num a + 1 < 2 ^ 29"
  shows "array_add False a p = Err ENOMEM a \<longleftrightarrow> a_num a = a_max a"
  using array_add_room [OF inv, of False p] array_add_full [OF inv _ n, of False] inv
  by (fastforce simp: array_inv_def)

lemma array_remove_cells:
  assumes "array_inv a" "i < length (array_cells a)"
  shows "\<exists>a'. array_remove a (int i) = Ret () a' \<and> array_inv a' \<and>
              array_cells a' = take i (array_cells a) @ drop (Suc i) (array_cells a) \<and>
              a_max a' = a_max a"
proof -
  have i: "int i < a_num a" "0 < a_max a" "a_num a \<le> a_max a" "a_max a < 2 ^ 30"
    using assms by (auto simp: length_array_cells array_inv_def)
  obtain b where b: "a_v a = Some b" "length b = nat (a_max a)"
    using array_inv_buffer [OF assms(1) i(2)] .
  define n where "n = nat (a_num a)"
  have n: "a_num a = int n" "i < n" "n \<le> length b" using i b by (auto simp: n_def)
  have nm: "nat ((a_num a - (int i + 1)) * 4 mod 2 ^ 32 div 4) = n - Suc i"
    using nmove_bytes [of "a_num a - (int i + 1)"] i n by auto
  have "memmove_cells (a_v a) i (Suc i) (n - Suc i) =
          Some (take i b @ take (n - Suc i) (drop (Suc i) b) @ drop (n - 1) b)"
    using b n by (auto simp: memmove_cells_def)
  moreover have "take (n - 1) (take i b @ take (n - Suc i) (drop (Suc i) b) @ drop (n - 1) b) =
          take i (take n b) @ drop (Suc i) (take n b)"
  proof -
    obtain k where "n = Suc (i + k)" using n by (metis less_iff_Suc_add)
    with n show ?thesis by (simp add: drop_take)
  qed
  ultimately show ?thesis
    using i b n nm
    by (auto simp: array_remove_def array_inv_def array_cells_def nat_add_distrib Let_def
          nat_diff_distrib)
qed

lemma array_setsize_shrinks_storage:
  assumes "array_inv a" "16 < a_max a"
  shows "array_setsize ok a 0 = Ret () \<lparr>a_num = 0, a_max = 0, a_v = None\<rparr>"
  using assms by (auto simp: array_setsize_def array_inv_def split: option.splits)

lemma array_setsize_zero_keeps_storage:
  assumes "array_inv a" "a_max a \<le> 16"
  shows "array_setsize ok a 0 = Ret () (a\<lparr>a_num := 0\<rparr>)"
  using assms by (auto simp: array_setsize_def array_inv_def)

section \<open>The interface\<close>

text \<open>
  What the clients of the array rely on: the size and the elements are those of a list, an
  append succeeds without memory as long as there is preallocated room, with memory it
  always succeeds up to the size limit, and a removal closes the gap.
\<close>

locale growable_array =
  fixes inv :: "'a \<Rightarrow> bool"
    and seq :: "'a \<Rightarrow> 'p option list"
    and capacity :: "'a \<Rightarrow> nat"
    and getnum :: "'a \<Rightarrow> int"
    and getguy :: "'a \<Rightarrow> int \<Rightarrow> ('a, 'p option) outcome"
    and add :: "bool \<Rightarrow> 'a \<Rightarrow> 'p \<Rightarrow> ('a, unit) outcome"
    and remove :: "'a \<Rightarrow> int \<Rightarrow> ('a, unit) outcome"
  assumes getnum: "inv a \<Longrightarrow> getnum a = int (length (seq a))"
    and getguy: "inv a \<Longrightarrow> i < length (seq a) \<Longrightarrow> getguy a (int i) = Ret (seq a ! i) a"
    and add_room: "inv a \<Longrightarrow> length (seq a) < capacity a \<Longrightarrow>
          \<exists>a'. add ok a p = Ret () a' \<and> inv a' \<and> seq a' = seq a @ [Some p] \<and>
               capacity a' = capacity a"
    and add_mem: "inv a \<Longrightarrow> length (seq a) + 1 < 2 ^ 29 \<Longrightarrow>
          \<exists>a'. add True a p = Ret () a' \<and> inv a' \<and> seq a' = seq a @ [Some p]"
    and remove: "inv a \<Longrightarrow> i < length (seq a) \<Longrightarrow>
          \<exists>a'. remove a (int i) = Ret () a' \<and> inv a' \<and>
               seq a' = take i (seq a) @ drop (Suc i) (seq a) \<and> capacity a' = capacity a"
begin

lemma add_then_get:
  assumes "inv a" "length (seq a) + 1 < 2 ^ 29" "add True a p = Ret () a'"
  shows "getnum a' = getnum a + 1" "getguy a' (getnum a) = Ret (Some p) a'"
proof -
  have a': "inv a'" "seq a' = seq a @ [Some p]" using add_mem [OF assms(1,2), of p] assms(3) by auto
  show "getnum a' = getnum a + 1" using a' assms by (simp add: getnum)
  show "getguy a' (getnum a) = Ret (Some p) a'"
    using getguy [OF a'(1), of "length (seq a)"] a' assms by (simp add: getnum)
qed

lemma add_then_get_old:
  assumes "inv a" "length (seq a) + 1 < 2 ^ 29" "add True a p = Ret () a'" "i < length (seq a)"
  shows "getguy a' (int i) = Ret (seq a ! i) a'"
  using add_mem [OF assms(1,2), of p] assms(3,4) getguy [of a' i] by (auto simp: nth_append)

lemma remove_set:
  assumes "inv a" "i < length (seq a)" "distinct (seq a)"
  shows "\<exists>a'. remove a (int i) = Ret () a' \<and> inv a' \<and> distinct (seq a') \<and>
              set (seq a') = set (seq a) - {seq a ! i}"
proof -
  obtain a' where a': "remove a (int i) = Ret () a'" "inv a'"
    "seq a' = take i (seq a) @ drop (Suc i) (seq a)" using remove [OF assms(1,2)] by auto
  have split: "seq a = take i (seq a) @ seq a ! i # drop (Suc i) (seq a)"
    using assms(2) by (rule id_take_nth_drop)
  have d: "distinct (take i (seq a) @ seq a ! i # drop (Suc i) (seq a))"
    using assms(3) split by simp
  have "set (seq a) = insert (seq a ! i) (set (seq a'))"
    by (subst split) (simp add: a'(3))
  with d a' show ?thesis by auto
qed

lemma add_remove_last:
  assumes "inv a" "length (seq a) + 1 < 2 ^ 29" "add True a p = Ret () a'"
  shows "\<exists>a''. remove a' (getnum a) = Ret () a'' \<and> inv a'' \<and> seq a'' = seq a"
  using add_mem [OF assms(1,2), of p] assms(3) remove [of a' "length (seq a)"] assms(1)
  by (auto simp: getnum)

end

interpretation kern_array: growable_array array_inv array_cells "\<lambda>a. nat (a_max a)"
  array_getnum array_getguy array_add array_remove
proof unfold_locales
  fix a :: "'a karray" and p ok
  assume inv: "array_inv a"
  show "length (array_cells a) < nat (a_max a) \<Longrightarrow>
    \<exists>a'. array_add ok a p = Ret () a' \<and> array_inv a' \<and> array_cells a' = array_cells a @ [Some p] \<and>
      nat (a_max a') = nat (a_max a)"
    using array_add_room [OF inv, of ok p] by (auto simp: length_array_cells inv)
  show "length (array_cells a) + 1 < 2 ^ 29 \<Longrightarrow>
    \<exists>a'. array_add True a p = Ret () a' \<and> array_inv a' \<and> array_cells a' = array_cells a @ [Some p]"
    using inv by (intro array_add_ok) (auto simp: length_array_cells)
next
  fix a :: "'a karray" and i
  assume "array_inv a" "i < length (array_cells a)"
  then show "\<exists>a'. array_remove a (int i) = Ret () a' \<and> array_inv a' \<and>
    array_cells a' = take i (array_cells a) @ drop (Suc i) (array_cells a) \<and>
    nat (a_max a') = nat (a_max a)"
    using array_remove_cells by fastforce
qed (simp_all add: array_getnum_cells array_getguy_cells)

section \<open>Properties\<close>

text \<open>
  C39. \<^verbatim>\<open>array_add\<close> appends to the contents whenever there is capacity or memory, and otherwise fails
  with \<^verbatim>\<open>ENOMEM\<close> and changes nothing.
\<close>

theorem array_add_appends:
  assumes "array_inv a" "a_num a + 1 < 2 ^ 29"
  shows "if a_num a < a_max a \<or> ok
         then \<exists>a'. array_add ok a p = Ret () a' \<and> array_inv a' \<and> array_cells a' = array_cells a @ [Some p]
         else array_add ok a p = Err ENOMEM a"
proof (cases "a_num a < a_max a")
  case True
  then show ?thesis using array_add_room [OF assms(1), of ok p] by auto
next
  case False
  then have "a_num a = a_max a" using assms(1) by (auto simp: array_inv_def)
  then show ?thesis
    using array_add_ok [OF assms, of p] array_add_nomem [OF assms, of p] by (cases ok) auto
qed

theorem array_add_appends_witness:
  "\<exists>a'. array_add True \<lparr>a_num = 1, a_max = 1, a_v = Some [Some (7::nat)]\<rparr> 9 = Ret () a' \<and>
        array_cells a' = [Some 7, Some 9]"
  using array_add_appends [of "\<lparr>a_num = 1, a_max = 1, a_v = Some [Some (7::nat)]\<rparr>" True 9]
  by (auto simp: array_inv_def array_cells_def)

text \<open>
  C40. \<^verbatim>\<open>array_remove\<close> deletes the element at the given index and keeps the order of the others; the
  capacity does not change.
\<close>

theorem array_remove_deletes:
  assumes "array_inv a" "i < length (array_cells a)"
  shows "\<exists>a'. array_remove a (int i) = Ret () a' \<and> array_inv a' \<and>
              array_cells a' = take i (array_cells a) @ drop (Suc i) (array_cells a) \<and> a_max a' = a_max a"
  using assms by (rule array_remove_cells)

theorem array_remove_deletes_witness:
  "\<exists>a'. array_remove \<lparr>a_num = 3, a_max = 4, a_v = Some [Some (1::nat), Some 2, Some 3, None]\<rparr> 1 = Ret () a' \<and>
        array_cells a' = [Some 1, Some 3]"
  using array_remove_deletes [of "\<lparr>a_num = 3, a_max = 4, a_v = Some [Some (1::nat), Some 2, Some 3, None]\<rparr>" 1]
  by (auto simp: array_inv_def array_cells_def eval_nat_numeral)

end
