(* ===== verification/Kern_Queue.thy ===== *)
theory Kern_Queue
  imports Kern_Array
begin

text \<open>
  The growable ring buffer of \<^verbatim>\<open>kern/lib/queue.c\<close> and its refinement to a first-in first-out
  list.  The contract is the locale \<open>fifo_queue\<close>, which the scheduler relies on.
\<close>

section \<open>The model\<close>

text \<open>\<^verbatim>\<open>struct queue\<close>, with the cells of \<open>Kern_Array\<close>.\<close>

record 'p kqueue =
  q_size :: int
  q_nextwrite :: int
  q_nextread :: int
  q_data :: "'p cells"

text \<open>
  The loop that doubles \<^verbatim>\<open>nsize\<close>; \<^verbatim>\<open>int\<close> products wrap to 32 bits, which is what the
  assertion inside the loop tests for.  \<open>None\<close> is the failed assertion.
\<close>

definition int_wrap :: "int \<Rightarrow> int" where
  "int_wrap i = (i + 2 ^ 31) mod 2 ^ 32 - 2 ^ 31"

lemma int_wrap_double_pos:
  assumes "0 < n" "n \<le> INT_MAX" "0 < int_wrap (n * 2)"
  shows "int_wrap (n * 2) = n * 2" "n * 2 \<le> INT_MAX"
proof -
  have "n * 2 + 2 ^ 31 < 2 ^ 32"
  proof (rule ccontr)
    assume "\<not> n * 2 + 2 ^ 31 < 2 ^ 32"
    then have "(n * 2 + 2 ^ 31) mod 2 ^ 32 = n * 2 + 2 ^ 31 - 2 ^ 32"
      using assms(1,2) by (subst mod_pos_geq) (auto intro!: mod_pos_pos_trivial)
    with assms show False by (simp add: int_wrap_def)
  qed
  then show "int_wrap (n * 2) = n * 2" "n * 2 \<le> INT_MAX"
    using assms(1) by (simp_all add: int_wrap_def)
qed

lemma int_wrap_double_gt:
  "\<not> n \<le> 0 \<Longrightarrow> \<not> INT_MAX < n \<Longrightarrow> 0 < int_wrap (n * 2) \<Longrightarrow> n < int_wrap (n * 2)"
  using int_wrap_double_pos(1) [of n] by simp

function grow_size :: "int \<Rightarrow> int \<Rightarrow> int option" where
  "grow_size targetsize nsize =
     (if nsize \<le> 0 \<or> nsize > INT_MAX then None
      else if nsize < targetsize then
        (if int_wrap (nsize * 2) > 0 then grow_size targetsize (int_wrap (nsize * 2)) else None)
      else Some nsize)"
  by pat_completeness auto
termination
  by (relation "measure (\<lambda>(t, n). nat (t - n))") (auto intro: int_wrap_double_gt)

declare grow_size.simps [simp del]

text \<open>
  \<^verbatim>\<open>for (i=onr; i!=onw; i = (i+1)%osize)\<close>: the first argument is \<^verbatim>\<open>q_addtail\<close>, the \<open>nat\<close>
  bounds the number of iterations.  With both indices inside the ring the loop ends within
  \<^verbatim>\<open>osize\<close> iterations; with an index outside it never ends.
\<close>

primrec q_requeue ::
  "('p kqueue \<Rightarrow> 'p option \<Rightarrow> ('p kqueue, unit) outcome) \<Rightarrow>
   'p cells \<Rightarrow> int \<Rightarrow> int \<Rightarrow> nat \<Rightarrow> int \<Rightarrow> 'p kqueue \<Rightarrow> ('p kqueue, unit) outcome" where
  "q_requeue addtail olddata onw osize 0 i q = (if i = onw then Ret () q else Undef)"
| "q_requeue addtail olddata onw osize (Suc n) i q =
     (if i = onw then Ret () q
      else (case cell_read (Some olddata) i of None \<Rightarrow> Undef
            | Some p \<Rightarrow>
               (case addtail q p of
                  Ret _ q' \<Rightarrow> q_requeue addtail olddata onw osize n ((i + 1) mod osize) q'
                | Err e q' \<Rightarrow> Panic | Panic \<Rightarrow> Panic | Undef \<Rightarrow> Undef | Sleeps \<Rightarrow> Sleeps)))"

definition q_grow_with ::
  "('p kqueue \<Rightarrow> 'p option \<Rightarrow> ('p kqueue, unit) outcome) \<Rightarrow>
   bool \<Rightarrow> 'p kqueue \<Rightarrow> int \<Rightarrow> ('p kqueue, unit) outcome" where
  "q_grow_with addtail ok q targetsize =
     (case grow_size targetsize (q_size q) of None \<Rightarrow> Panic
      | Some nsize \<Rightarrow>
          if \<not> ok then Err ENOMEM q
          else q_requeue addtail (q_data q) (q_nextwrite q) (q_size q) (nat (q_size q))
                 (q_nextread q)
                 (q\<lparr>q_size := nsize, q_data := fresh_cells nsize,
                    q_nextread := 0, q_nextwrite := 0\<rparr>))"

text \<open>
  \<^verbatim>\<open>q_addtail\<close> and \<^verbatim>\<open>q_grow\<close> call each other.  The depth of the nesting is counted by the
  first argument; a nesting the counter does not cover is \<open>Undef\<close>.
\<close>

primrec q_addtail_depth ::
  "nat \<Rightarrow> bool \<Rightarrow> 'p kqueue \<Rightarrow> 'p option \<Rightarrow> ('p kqueue, unit) outcome" where
  "q_addtail_depth 0 ok q ptr = Undef"
| "q_addtail_depth (Suc d) ok q ptr =
     kassert (q_size q > 0)
      (defined_if (q_nextwrite q + 1 \<le> INT_MAX)
       (let nextnext = (q_nextwrite q + 1) mod q_size q;
            put = (\<lambda>q nextnext. case cell_write (Some (q_data q)) (q_nextwrite q) ptr of
                      None \<Rightarrow> Undef
                    | Some b \<Rightarrow> Ret () (q\<lparr>q_data := b, q_nextwrite := nextnext\<rparr>))
        in if nextnext = q_nextread q then
             andthen (defined_if (q_size q + 1 \<le> INT_MAX)
                       (q_grow_with (q_addtail_depth d ok) ok q (q_size q + 1)))
              (\<lambda>_ q. put q ((q_nextwrite q + 1) mod q_size q))
           else put q nextnext))"

declare q_addtail_depth.simps [simp del]

definition q_addtail :: "bool \<Rightarrow> 'p kqueue \<Rightarrow> 'p option \<Rightarrow> ('p kqueue, unit) outcome" where
  "q_addtail = q_addtail_depth 2"

definition q_grow :: "bool \<Rightarrow> 'p kqueue \<Rightarrow> int \<Rightarrow> ('p kqueue, unit) outcome" where
  "q_grow ok = q_grow_with (q_addtail ok) ok"

definition q_create :: "bool \<Rightarrow> bool \<Rightarrow> int \<Rightarrow> 'p kqueue option" where
  "q_create ok1 ok2 sz =
     (if \<not> ok1 then None
      else if \<not> ok2 then None
      else Some \<lparr>q_size = sz, q_nextwrite = 0, q_nextread = 0, q_data = fresh_cells sz\<rparr>)"

definition q_preallocate :: "bool \<Rightarrow> 'p kqueue \<Rightarrow> int \<Rightarrow> ('p kqueue, unit) outcome" where
  "q_preallocate ok q sz =
     kassert (q_size q > 0) (if sz > q_size q then q_grow ok q sz else Ret () q)"

definition q_empty :: "'p kqueue \<Rightarrow> bool" where
  "q_empty q \<longleftrightarrow> q_nextwrite q = q_nextread q"

definition q_remhead :: "'p kqueue \<Rightarrow> ('p kqueue, 'p option) outcome" where
  "q_remhead q =
     kassert (q_size q > 0)
      (kassert (\<not> q_empty q)
        (case cell_read (Some (q_data q)) (q_nextread q) of None \<Rightarrow> Undef
         | Some ret \<Rightarrow> Ret ret (q\<lparr>q_nextread := (q_nextread q + 1) mod q_size q\<rparr>)))"

definition q_destroy :: "'p kqueue \<Rightarrow> (unit, unit) outcome" where
  "q_destroy q = kassert (q_empty q) (Ret () ())"

definition q_getstart :: "'p kqueue \<Rightarrow> int" where "q_getstart q = q_nextread q"

definition q_getend :: "'p kqueue \<Rightarrow> int" where "q_getend q = q_nextwrite q"

definition q_getsize :: "'p kqueue \<Rightarrow> int" where "q_getsize q = q_size q"

definition q_getguy :: "'p kqueue \<Rightarrow> int \<Rightarrow> ('p kqueue, 'p option) outcome" where
  "q_getguy q index =
     kassert (0 \<le> index \<and> index < q_size q)
      (case cell_read (Some (q_data q)) index of None \<Rightarrow> Undef | Some p \<Rightarrow> Ret p q)"

section \<open>Invariant and abstraction\<close>

definition q_inv :: "'p kqueue \<Rightarrow> bool" where
  "q_inv q \<longleftrightarrow> 0 < q_size q \<and> q_size q < 2 ^ 30 \<and> length (q_data q) = nat (q_size q) \<and>
     0 \<le> q_nextread q \<and> q_nextread q < q_size q \<and> 0 \<le> q_nextwrite q \<and> q_nextwrite q < q_size q"

text \<open>The number of queued pointers, and the pointers from the head to the tail.\<close>

definition q_count :: "'p kqueue \<Rightarrow> nat" where
  "q_count q = nat ((q_nextwrite q - q_nextread q) mod q_size q)"

definition q_seq :: "'p kqueue \<Rightarrow> 'p option list" where
  "q_seq q = take (q_count q) (rotate (nat (q_nextread q)) (q_data q))"

lemma q_count_less: "q_inv q \<Longrightarrow> q_count q < nat (q_size q)"
  by (simp add: q_inv_def q_count_def)

lemma length_q_seq: "q_inv q \<Longrightarrow> length (q_seq q) = q_count q"
  using q_count_less [of q] by (simp add: q_seq_def q_inv_def)

lemma q_seq_nth:
  assumes "q_inv q" "k < q_count q"
  shows "q_seq q ! k = q_data q ! ((nat (q_nextread q) + k) mod nat (q_size q))"
proof -
  have "k < length (q_data q)" using q_count_less [OF assms(1)] assms by (simp add: q_inv_def)
  then show ?thesis using assms by (simp add: q_seq_def nth_rotate q_inv_def)
qed

lemma q_count_eq_0: "q_inv q \<Longrightarrow> q_count q = 0 \<longleftrightarrow> q_nextwrite q = q_nextread q"
proof -
  assume inv: "q_inv q"
  have "(q_nextwrite q - q_nextread q) mod q_size q = 0 \<longleftrightarrow>
          q_nextwrite q mod q_size q = q_nextread q mod q_size q"
    by (metis mod_eq_dvd_iff dvd_eq_mod_eq_0)
  moreover have "q_count q = 0 \<longleftrightarrow> (q_nextwrite q - q_nextread q) mod q_size q = 0"
    using inv pos_mod_sign [of "q_size q" "q_nextwrite q - q_nextread q"]
    unfolding q_inv_def q_count_def by linarith
  ultimately show ?thesis using inv by (auto simp: q_inv_def)
qed

lemma q_empty_iff: "q_inv q \<Longrightarrow> q_empty q \<longleftrightarrow> q_seq q = []"
  using q_count_eq_0 [of q] length_q_seq [of q] by (auto simp: q_empty_def)

text \<open>The write index is \<open>q_count\<close> places after the read index.\<close>

lemma q_write_index:
  assumes "q_inv q"
  shows "nat (q_nextwrite q) = (nat (q_nextread q) + q_count q) mod nat (q_size q)"
proof -
  have "int ((nat (q_nextread q) + q_count q) mod nat (q_size q)) =
          (q_nextread q + (q_nextwrite q - q_nextread q) mod q_size q) mod q_size q"
    using assms by (simp add: q_inv_def q_count_def of_nat_mod)
  also have "\<dots> = q_nextwrite q"
    using assms by (simp add: q_inv_def mod_add_right_eq)
  finally show ?thesis by simp
qed

lemma q_next_full:
  assumes "q_inv q"
  shows "(q_nextwrite q + 1) mod q_size q = q_nextread q \<longleftrightarrow> q_count q + 1 = nat (q_size q)"
proof -
  have sz: "0 < q_size q" "0 \<le> q_nextread q" "q_nextread q < q_size q"
    using assms by (auto simp: q_inv_def)
  define d where "d = (q_nextwrite q - q_nextread q) mod q_size q"
  have d: "0 \<le> d" "d < q_size q" using sz by (simp_all add: d_def)
  have "(q_nextwrite q + 1) mod q_size q = q_nextread q \<longleftrightarrow>
        (q_nextwrite q + 1) mod q_size q = q_nextread q mod q_size q"
    using sz by simp
  also have "\<dots> \<longleftrightarrow> (q_nextwrite q - q_nextread q + 1) mod q_size q = 0"
    by (simp add: mod_eq_dvd_iff dvd_eq_mod_eq_0 algebra_simps)
  also have "(q_nextwrite q - q_nextread q + 1) mod q_size q = (d + 1) mod q_size q"
    by (simp add: d_def mod_add_left_eq)
  also have "(d + 1) mod q_size q = 0 \<longleftrightarrow> d + 1 = q_size q"
    using d by (cases "d + 1 = q_size q") auto
  also have "\<dots> \<longleftrightarrow> nat d + 1 = nat (q_size q)" using d by linarith
  finally show ?thesis by (simp add: q_count_def d_def)
qed

section \<open>Refinement to lists\<close>

lemma mod_add_neq:
  fixes a b r s :: nat
  assumes "a < b" "b - a < s"
  shows "(r + a) mod s \<noteq> (r + b) mod s"
proof
  assume "(r + a) mod s = (r + b) mod s"
  then have "s dvd r + b - (r + a)" using assms by (metis mod_eq_dvd_iff_nat add_le_mono le_refl less_imp_le)
  then show False using assms by (auto dest: dvd_imp_le)
qed

lemma q_put_seq:
  assumes inv: "q_inv q" and room: "q_count q + 1 < nat (q_size q)"
    and q': "q' = q\<lparr>q_data := (q_data q)[nat (q_nextwrite q) := p],
                   q_nextwrite := (q_nextwrite q + 1) mod q_size q\<rparr>"
  shows "q_inv q'" "q_seq q' = q_seq q @ [p]" "q_count q' = q_count q + 1"
proof -
  have sz: "0 < q_size q" using inv by (simp add: q_inv_def)
  show inv': "q_inv q'" using inv by (auto simp: q_inv_def q')
  have "q_count q' = nat (((q_nextwrite q - q_nextread q) mod q_size q + 1) mod q_size q)"
    by (simp add: q_count_def q' mod_diff_left_eq mod_add_left_eq)
       (simp add: algebra_simps mod_add_right_eq)
  also have "\<dots> = q_count q + 1"
    using room sz by (simp add: q_count_def nat_add_distrib)
  finally show cnt: "q_count q' = q_count q + 1" .
  show "q_seq q' = q_seq q @ [p]"
  proof (rule nth_equalityI)
    show "length (q_seq q') = length (q_seq q @ [p])"
      using inv inv' cnt by (simp add: length_q_seq)
    fix k assume k: "k < length (q_seq q')"
    let ?s = "nat (q_size q)" and ?r = "nat (q_nextread q)"
    have k': "k < q_count q + 1" using k cnt inv' by (simp add: length_q_seq)
    have w: "nat (q_nextwrite q) = (?r + q_count q) mod ?s" using q_write_index [OF inv] .
    have len: "length (q_data q) = ?s" "0 < ?s" using inv by (auto simp: q_inv_def)
    have nth: "q_seq q' ! k = (q_data q)[nat (q_nextwrite q) := p] ! ((?r + k) mod ?s)"
      using q_seq_nth [OF inv', of k] k' cnt by (simp add: q')
    show "q_seq q' ! k = (q_seq q @ [p]) ! k"
    proof (cases "k = q_count q")
      case True
      then show ?thesis using nth w len inv by (simp add: nth_append length_q_seq)
    next
      case False
      then have kc: "k < q_count q" using k' by simp
      have "(?r + k) mod ?s \<noteq> (?r + q_count q) mod ?s"
        using kc room by (intro mod_add_neq) simp_all
      then show ?thesis
        using nth w kc inv by (simp add: nth_append length_q_seq q_seq_nth)
    qed
  qed
qed

lemma q_addtail_depth_room:
  assumes inv: "q_inv q" and room: "q_count q + 1 < nat (q_size q)"
  shows "\<exists>q'. q_addtail_depth (Suc d) ok q p = Ret () q' \<and> q_inv q' \<and>
              q_seq q' = q_seq q @ [p] \<and> q_size q' = q_size q"
proof -
  let ?q = "q\<lparr>q_data := (q_data q)[nat (q_nextwrite q) := p],
              q_nextwrite := (q_nextwrite q + 1) mod q_size q\<rparr>"
  have "(q_nextwrite q + 1) mod q_size q \<noteq> q_nextread q"
    using q_next_full [OF inv] room by simp
  then have "q_addtail_depth (Suc d) ok q p = Ret () ?q"
    using inv by (simp add: q_addtail_depth.simps q_inv_def cell_write_def Let_def)
  then show ?thesis using q_put_seq [OF inv room refl, of p] by simp
qed

lemma grow_size_Some:
  assumes "0 < n" "n < 2 ^ 30" "t < 2 ^ 29"
  shows "\<exists>m. grow_size t n = Some m \<and> n \<le> m \<and> t \<le> m \<and> m < 2 ^ 30"
  using assms
proof (induction t n rule: grow_size.induct)
  case (1 t n)
  show ?case
  proof (cases "n < t")
    case True
    with "1.prems" have w: "int_wrap (n * 2) = n * 2" by (simp add: int_wrap_def)
    obtain m where "grow_size t (n * 2) = Some m" "n * 2 \<le> m" "t \<le> m" "m < 2 ^ 30"
      using 1 True w by fastforce
    with True "1.prems" w show ?thesis by (subst grow_size.simps) auto
  qed (use "1.prems" in \<open>simp add: grow_size.simps\<close>)
qed

text \<open>One step of the copying loop of \<^verbatim>\<open>q_grow\<close> takes the head of what is left of the old ring.\<close>

lemma q_seq_Cons:
  assumes inv: "q_inv q" and ne: "q_nextread q \<noteq> q_nextwrite q"
    and q': "q' = q\<lparr>q_nextread := (q_nextread q + 1) mod q_size q\<rparr>"
  shows "q_inv q'" "q_seq q = q_data q ! nat (q_nextread q) # q_seq q'" "q_count q = Suc (q_count q')"
proof -
  have sz: "0 < q_size q" using inv by (simp add: q_inv_def)
  show inv': "q_inv q'" using inv by (auto simp: q_inv_def q')
  let ?d = "(q_nextwrite q - q_nextread q) mod q_size q"
  have pos: "0 < ?d" using q_count_eq_0 [OF inv] ne by (auto simp: q_count_def)
  have "(q_nextwrite q - (q_nextread q + 1) mod q_size q) mod q_size q = (?d - 1) mod q_size q"
    by (simp add: mod_diff_right_eq mod_diff_left_eq algebra_simps)
  also have "\<dots> = ?d - 1" using pos sz by (intro mod_pos_pos_trivial) (simp, smt (verit) pos_mod_bound)
  finally show cnt: "q_count q = Suc (q_count q')" using pos by (simp add: q_count_def q')
  show "q_seq q = q_data q ! nat (q_nextread q) # q_seq q'"
  proof (rule nth_equalityI)
    show "length (q_seq q) = length (q_data q ! nat (q_nextread q) # q_seq q')"
      using inv inv' cnt by (simp add: length_q_seq)
    fix k assume "k < length (q_seq q)"
    then have k: "k < q_count q" using inv by (simp add: length_q_seq)
    show "q_seq q ! k = (q_data q ! nat (q_nextread q) # q_seq q') ! k"
    proof (cases k)
      case 0
      then show ?thesis using q_seq_nth [OF inv k] inv by (simp add: q_inv_def)
    next
      case (Suc j)
      have r: "nat ((q_nextread q + 1) mod q_size q) = Suc (nat (q_nextread q)) mod nat (q_size q)"
        using inv by (simp add: q_inv_def nat_mod_distrib nat_add_distrib)
      have "j < q_count q'" using k Suc cnt by simp
      then have "q_seq q' ! j = q_data q ! ((nat ((q_nextread q + 1) mod q_size q) + j) mod nat (q_size q))"
        using q_seq_nth [OF inv', of j] by (simp add: q')
      then show ?thesis using q_seq_nth [OF inv k] Suc r by (simp add: mod_add_left_eq)
    qed
  qed
qed

lemma q_requeue_all:
  assumes "q_inv q" "q_inv n" "q_count q \<le> fuel" "q_count n + q_count q + 1 \<le> nat (q_size n)"
  shows "\<exists>n'. q_requeue (q_addtail_depth (Suc d) ok) (q_data q) (q_nextwrite q) (q_size q)
                fuel (q_nextread q) n = Ret () n' \<and>
              q_inv n' \<and> q_seq n' = q_seq n @ q_seq q \<and> q_size n' = q_size n"
  using assms
proof (induction fuel arbitrary: q n)
  case 0
  then show ?case using q_count_eq_0 [of q] length_q_seq [of q] by auto
next
  case (Suc fuel)
  show ?case
  proof (cases "q_nextread q = q_nextwrite q")
    case True
    then show ?thesis using Suc.prems q_count_eq_0 [of q] length_q_seq [of q] by auto
  next
    case False
    define q' where "q' = q\<lparr>q_nextread := (q_nextread q + 1) mod q_size q\<rparr>"
    note c = q_seq_Cons [OF Suc.prems(1) False q'_def]
    let ?p = "q_data q ! nat (q_nextread q)"
    obtain n1 where n1: "q_addtail_depth (Suc d) ok n ?p = Ret () n1" "q_inv n1"
      "q_seq n1 = q_seq n @ [?p]" "q_size n1 = q_size n"
      using q_addtail_depth_room [OF Suc.prems(2), of d ok ?p] Suc.prems c(3) by auto
    have n1c: "q_count n1 = q_count n + 1"
      using n1 Suc.prems length_q_seq [of n1] length_q_seq [of n] by simp
    obtain n' where "q_requeue (q_addtail_depth (Suc d) ok) (q_data q') (q_nextwrite q') (q_size q')
        fuel (q_nextread q') n1 = Ret () n'" "q_inv n'" "q_seq n' = q_seq n1 @ q_seq q'"
        "q_size n' = q_size n1"
      using Suc.IH [OF c(1) n1(2)] Suc.prems c(3) n1(4) n1c by auto
    moreover have "cell_read (Some (q_data q)) (q_nextread q) = Some ?p"
      using Suc.prems(1) by (simp add: cell_read_def q_inv_def)
    ultimately show ?thesis using False n1 c by (simp add: q'_def)
  qed
qed

lemma q_grow_depth_ok:
  assumes inv: "q_inv q" and t: "q_size q < t" "t < 2 ^ 29"
  shows "\<exists>q'. q_grow_with (q_addtail_depth (Suc d) ok) True q t = Ret () q' \<and> q_inv q' \<and>
              q_seq q' = q_seq q \<and> t \<le> q_size q'"
proof -
  obtain m where m: "grow_size t (q_size q) = Some m" "q_size q \<le> m" "t \<le> m" "m < 2 ^ 30"
    using grow_size_Some [of "q_size q" t] inv t by (auto simp: q_inv_def)
  define n where "n = q\<lparr>q_size := m, q_data := fresh_cells m, q_nextread := 0, q_nextwrite := 0\<rparr>"
  have n: "q_inv n" "q_count n = 0" "q_seq n = []" "q_size n = m"
    using inv m by (auto simp: n_def q_inv_def q_count_def q_seq_def)
  have le: "q_count q \<le> nat (q_size q)" "q_count q + 1 \<le> nat m"
    using q_count_less [OF inv] m t by linarith+
  obtain n' where "q_requeue (q_addtail_depth (Suc d) ok) (q_data q) (q_nextwrite q) (q_size q)
      (nat (q_size q)) (q_nextread q) n = Ret () n'" "q_inv n'" "q_seq n' = q_seq q" "q_size n' = m"
    using q_requeue_all [OF inv n(1) le(1), of d ok] le(2) n by auto
  then show ?thesis using m by (auto simp: q_grow_with_def n_def)
qed

lemma q_grow_nomem:
  assumes "q_inv q" "t < 2 ^ 29"
  shows "q_grow_with add False q t = Err ENOMEM q"
  using assms grow_size_Some [of "q_size q" t] by (auto simp: q_grow_with_def q_inv_def)

lemma q_put_after_grow:
  assumes "q_inv q" "q_count q + 1 < nat (q_size q)"
  shows "(case cell_write (Some (q_data q)) (q_nextwrite q) p of None \<Rightarrow> Undef
          | Some b \<Rightarrow> Ret () (q\<lparr>q_data := b, q_nextwrite := (q_nextwrite q + 1) mod q_size q\<rparr>)) =
         q_addtail_depth (Suc d) ok q p"
  using q_next_full [OF assms(1)] assms
  by (simp add: q_addtail_depth.simps q_inv_def cell_write_def Let_def)

lemma q_addtail_depth_full:
  assumes inv: "q_inv q" and full: "q_count q + 1 = nat (q_size q)" and sz: "q_size q + 1 < 2 ^ 29"
  shows "\<exists>q'. q_addtail_depth (Suc (Suc d)) True q p = Ret () q' \<and> q_inv q' \<and>
              q_seq q' = q_seq q @ [p] \<and> q_size q < q_size q'"
proof -
  obtain g where g: "q_grow_with (q_addtail_depth (Suc d) True) True q (q_size q + 1) = Ret () g"
    "q_inv g" "q_seq g = q_seq q" "q_size q + 1 \<le> q_size g"
    using q_grow_depth_ok [OF inv _ sz, of d True] by auto
  have c: "q_count g + 1 < nat (q_size g)"
    using g full length_q_seq [OF inv] length_q_seq [OF g(2)] by simp
  have "q_addtail_depth (Suc (Suc d)) True q p = q_addtail_depth (Suc d) True g p"
    using inv sz full q_next_full [OF inv] g(1) q_put_after_grow [OF g(2) c, of p d True]
    by (simp add: q_addtail_depth.simps(2) [of "Suc d"] q_inv_def Let_def)
  with q_addtail_depth_room [OF g(2) c, of d True p] g show ?thesis by auto
qed

lemma q_addtail_depth_nomem:
  assumes inv: "q_inv q" and full: "q_count q + 1 = nat (q_size q)" and sz: "q_size q + 1 < 2 ^ 29"
  shows "q_addtail_depth (Suc d) False q p = Err ENOMEM q"
  using inv sz full q_next_full [OF inv] q_grow_nomem [OF inv sz]
  by (simp add: q_addtail_depth.simps q_inv_def Let_def)

text \<open>The operations themselves.\<close>

lemma q_create_spec:
  assumes "q_create True True n = Some q" "0 < n" "n < 2 ^ 30"
  shows "q_inv q \<and> q_seq q = [] \<and> q_size q = n"
  using assms by (auto simp: q_create_def q_inv_def q_seq_def q_count_def)

lemma q_addtail_room:
  assumes "q_inv q" "length (q_seq q) + 1 < nat (q_size q)"
  shows "\<exists>q'. q_addtail ok q p = Ret () q' \<and> q_inv q' \<and> q_seq q' = q_seq q @ [p] \<and>
              q_size q' = q_size q"
  using q_addtail_depth_room [of q "Suc 0" ok p] assms
  by (simp add: q_addtail_def numeral_2_eq_2 length_q_seq)

lemma q_addtail_mem:
  assumes inv: "q_inv q" and sz: "q_size q + 1 < 2 ^ 29"
  shows "\<exists>q'. q_addtail True q p = Ret () q' \<and> q_inv q' \<and> q_seq q' = q_seq q @ [p] \<and>
              q_size q \<le> q_size q'"
proof (cases "q_count q + 1 = nat (q_size q)")
  case True
  then show ?thesis
    using q_addtail_depth_full [OF inv True sz, of 0 p]
    by (auto simp: q_addtail_def numeral_2_eq_2)
next
  case False
  then have "q_count q + 1 < nat (q_size q)" using q_count_less [OF inv] by simp
  then show ?thesis using q_addtail_room [OF inv, of True p] inv by (auto simp: length_q_seq)
qed

lemma q_addtail_nomem:
  assumes "q_inv q" "length (q_seq q) + 1 = nat (q_size q)" "q_size q + 1 < 2 ^ 29"
  shows "q_addtail False q p = Err ENOMEM q"
  using q_addtail_depth_nomem [of q "Suc 0" p] assms
  by (simp add: q_addtail_def numeral_2_eq_2 length_q_seq)

lemma q_remhead_Cons:
  assumes inv: "q_inv q" and ne: "q_seq q = p # ps"
  shows "\<exists>q'. q_remhead q = Ret p q' \<and> q_inv q' \<and> q_seq q' = ps \<and> q_size q' = q_size q"
proof -
  have "q_nextread q \<noteq> q_nextwrite q" using q_empty_iff [OF inv] ne by (auto simp: q_empty_def)
  from q_seq_Cons [OF inv this refl] this inv ne show ?thesis
    by (simp add: q_remhead_def q_empty_def cell_read_def q_inv_def)
qed

lemma q_remhead_empty: "q_inv q \<Longrightarrow> q_seq q = [] \<Longrightarrow> q_remhead q = Panic"
  using q_empty_iff [of q] by (simp add: q_remhead_def q_inv_def)

lemma q_preallocate_ok:
  assumes inv: "q_inv q" and t: "t < 2 ^ 29"
  shows "\<exists>q'. q_preallocate True q t = Ret () q' \<and> q_inv q' \<and> q_seq q' = q_seq q \<and>
              t \<le> q_size q' \<and> q_size q \<le> q_size q'"
proof (cases "q_size q < t")
  case True
  with q_grow_depth_ok [OF inv True t, of "Suc 0" True] inv show ?thesis
    by (auto simp: q_preallocate_def q_grow_def q_addtail_def numeral_2_eq_2 q_inv_def)
qed (use inv in \<open>auto simp: q_preallocate_def q_inv_def\<close>)

section \<open>The interface\<close>

text \<open>
  The contract of the queue: pointers leave in the order they came, an insertion needs no
  memory while there is room, and removing from an empty queue is a panic.
\<close>

locale fifo_queue =
  fixes inv :: "'q \<Rightarrow> bool"
    and seq :: "'q \<Rightarrow> 'p list"
    and room :: "'q \<Rightarrow> nat"
    and addtail :: "bool \<Rightarrow> 'q \<Rightarrow> 'p \<Rightarrow> ('q, unit) outcome"
    and remhead :: "'q \<Rightarrow> ('q, 'p) outcome"
  assumes addtail: "inv q \<Longrightarrow> length (seq q) < room q \<Longrightarrow>
          \<exists>q'. addtail ok q p = Ret () q' \<and> inv q' \<and> seq q' = seq q @ [p] \<and> room q' = room q"
    and remhead: "inv q \<Longrightarrow> seq q = p # ps \<Longrightarrow>
          \<exists>q'. remhead q = Ret p q' \<and> inv q' \<and> seq q' = ps \<and> room q' = room q"
    and remhead_empty: "inv q \<Longrightarrow> seq q = [] \<Longrightarrow> remhead q = Panic"
begin

lemma yield:
  assumes "inv q" "length (seq q) < room q" "seq q @ [c] = p # ps"
  shows "\<exists>q'. andthen (addtail ok q c) (\<lambda>_. remhead) = Ret p q' \<and> inv q' \<and>
              seq q' = ps \<and> room q' = room q"
  using addtail [OF assms(1,2), of ok c] remhead assms(3) by fastforce

text \<open>\<open>n\<close> consecutive yields: the runner goes to the tail, the head becomes the runner.\<close>

lemma yields:
  assumes "inv q" "length (seq q) < room q"
  shows "\<exists>q' c'. ((\<lambda>r. andthen r (\<lambda>c q. andthen (addtail ok q c) (\<lambda>_. remhead))) ^^ n) (Ret c q)
                   = Ret c' q' \<and> inv q' \<and> c' # seq q' = rotate n (c # seq q) \<and> room q' = room q"
  using assms
proof (induction n arbitrary: c q)
  case (Suc n)
  obtain p ps where ps: "seq q @ [c] = p # ps" by (cases "seq q @ [c]") auto
  obtain q1 where q1: "andthen (addtail ok q c) (\<lambda>_. remhead) = Ret p q1" "inv q1"
    "seq q1 = ps" "room q1 = room q" using yield [OF Suc.prems ps] by blast
  have "length ps = length (seq q)" using arg_cong [OF ps, of length] by simp
  then obtain q' c' where
    "((\<lambda>r. andthen r (\<lambda>c q. andthen (addtail ok q c) (\<lambda>_. remhead))) ^^ n) (Ret p q1) = Ret c' q'"
    "inv q'" "c' # seq q' = rotate n (p # ps)" "room q' = room q"
    using Suc.IH [OF q1(2), of p] q1 Suc.prems by auto
  moreover have "rotate (Suc n) (c # seq q) = rotate n (p # ps)"
    using ps by (simp add: rotate1_rotate_swap)
  ultimately show ?case using q1(1) by (simp add: funpow_Suc_right del: funpow.simps)
qed simp

end

interpretation kern_queue: fifo_queue q_inv q_seq "\<lambda>q. nat (q_size q) - 1" q_addtail q_remhead
proof unfold_locales
  fix q :: "'a kqueue" and ok p
  assume "q_inv q" "length (q_seq q) < nat (q_size q) - 1"
  then show "\<exists>q'. q_addtail ok q p = Ret () q' \<and> q_inv q' \<and> q_seq q' = q_seq q @ [p] \<and>
    nat (q_size q') - 1 = nat (q_size q) - 1"
    using q_addtail_room [of q ok p] by (auto simp: less_diff_conv)
next
  fix q :: "'a kqueue" and p ps
  assume "q_inv q" "q_seq q = p # ps"
  then show "\<exists>q'. q_remhead q = Ret p q' \<and> q_inv q' \<and> q_seq q' = ps \<and>
    nat (q_size q') - 1 = nat (q_size q) - 1"
    using q_remhead_Cons by fastforce
qed (rule q_remhead_empty)

section \<open>Properties\<close>

text \<open>
  C16. The ring buffer is a FIFO queue: \<^verbatim>\<open>q_addtail\<close> appends whenever a cell is free or memory can be
  had and otherwise fails with \<^verbatim>\<open>ENOMEM\<close> and changes nothing; \<^verbatim>\<open>q_remhead\<close> takes the oldest element, and
  panics on an empty queue.
\<close>

theorem queue_is_fifo:
  assumes "q_inv q" "q_size q + 1 < 2 ^ 29"
  shows "(if length (q_seq q) + 1 < nat (q_size q) \<or> ok
          then \<exists>q'. q_addtail ok q p = Ret () q' \<and> q_inv q' \<and> q_seq q' = q_seq q @ [p]
          else q_addtail ok q p = Err ENOMEM q) \<and>
         (case q_seq q of [] \<Rightarrow> q_remhead q = Panic
          | x # xs \<Rightarrow> \<exists>q'. q_remhead q = Ret x q' \<and> q_inv q' \<and> q_seq q' = xs)"
proof
  show "if length (q_seq q) + 1 < nat (q_size q) \<or> ok
          then \<exists>q'. q_addtail ok q p = Ret () q' \<and> q_inv q' \<and> q_seq q' = q_seq q @ [p]
          else q_addtail ok q p = Err ENOMEM q"
  proof (cases "length (q_seq q) + 1 < nat (q_size q)")
    case True
    then show ?thesis using q_addtail_room [OF assms(1) True, of ok p] by auto
  next
    case False
    then have "length (q_seq q) + 1 = nat (q_size q)"
      using q_count_less [OF assms(1)] length_q_seq [OF assms(1)] by simp
    then show ?thesis using q_addtail_mem [OF assms, of p] q_addtail_nomem [OF assms(1) _ assms(2)] by (cases ok) auto
  qed
  show "case q_seq q of [] \<Rightarrow> q_remhead q = Panic
          | x # xs \<Rightarrow> \<exists>q'. q_remhead q = Ret x q' \<and> q_inv q' \<and> q_seq q' = xs"
    using q_remhead_Cons [OF assms(1)] q_remhead_empty [OF assms(1)] by (cases "q_seq q") auto
qed

theorem queue_is_fifo_witness:
  "\<exists>q'. q_addtail False \<lparr>q_size = 4, q_nextwrite = 1, q_nextread = 3, q_data = [Some 5, None, None, Some (4::nat)]\<rparr> (Some 6) = Ret () q' \<and>
        q_seq q' = [Some 4, Some 5, Some 6]"
  using queue_is_fifo [of "\<lparr>q_size = 4, q_nextwrite = 1, q_nextread = 3, q_data = [Some 5, None, None, Some (4::nat)]\<rparr>" False "Some 6"]
  by (auto simp: q_inv_def q_seq_def q_count_def eval_nat_numeral)

end
