(* ===== verification/Threads.thy ===== *)
theory Threads
  imports Kern_Queue
begin

text \<open>
  The thread system: interrupt priority (\<^verbatim>\<open>kern/arch/mips/mips/spl.c\<close>), the round-robin
  scheduler (\<^verbatim>\<open>kern/thread/scheduler.c\<close>), context switch, sleep and wakeup
  (\<^verbatim>\<open>kern/thread/thread.c\<close>) and the clock (\<^verbatim>\<open>kern/thread/hardclock.c\<close>).

  Threads are coroutines on one processor.  A blocking call is modelled from its entry to
  the context switch; what the switched-to thread still has to do before it is back in its
  own caller (the part of \<^verbatim>\<open>mi_switch\<close>, \<^verbatim>\<open>thread_yield\<close>, \<^verbatim>\<open>thread_sleep\<close> or \<^verbatim>\<open>mi_threadstart\<close>
  behind the switch) is recorded in its \<^verbatim>\<open>t_pcb\<close> and executed when it is switched to.
\<close>

section \<open>State\<close>

type_synonym tid = nat
type_synonym addr = nat

text \<open>\<^verbatim>\<open>threadstate_t\<close>.\<close>

datatype threadstate = S_RUN | S_READY | S_SLEEP | S_ZOMB

text \<open>Where a switched-out thread resumes; \<^verbatim>\<open>R_yield\<close> carries the saved \<^verbatim>\<open>spl\<close> of the caller.\<close>

datatype resume = R_start | R_yield int | R_sleep

text \<open>
  \<^verbatim>\<open>struct thread\<close>.  Of the stack the model keeps the four bytes at its bottom, where
  \<^verbatim>\<open>thread_fork\<close> stores a magic number; the first thread has no stack of its own.
\<close>

record thread =
  t_pcb :: resume
  t_name :: string
  t_sleepaddr :: "addr option"
  t_stack :: "int list option"
  t_pid :: int
  t_vmspace :: "nat option"
  t_cwd :: "nat option"

text \<open>
  The variables of the thread system.  \<open>ts_up\<close> and \<open>rq_up\<close> say that the arrays and the run
  queue exist (the pointers are not \<^verbatim>\<open>NULL\<close>); \<open>thr\<close> is the memory of the thread structures;
  \<open>as_active\<close> is the address space last passed to \<^verbatim>\<open>as_activate\<close>.
\<close>

record tsys =
  curthread :: "tid option"
  thr :: "tid \<Rightarrow> thread option"
  sleepers :: "tid karray"
  zombies :: "tid karray"
  ts_up :: bool
  numthreads :: int
  runqueue :: "tid kqueue"
  rq_up :: bool
  curspl :: int
  ints_on :: bool
  in_interrupt :: bool
  as_active :: "nat option"
  lbolt_counter :: int

section \<open>Interrupt priority\<close>

abbreviation SPL_HIGH :: int where "SPL_HIGH \<equiv> 15"

definition splx :: "int \<Rightarrow> 'z tsys_scheme \<Rightarrow> 'z tsys_scheme" where
  "splx newspl s =
     (let s = (if newspl > 0 then s\<lparr>ints_on := False\<rparr>
               else if newspl = 0 then s\<lparr>ints_on := True\<rparr> else s)
      in s\<lparr>curspl := newspl\<rparr>)"

definition splhigh :: "'z tsys_scheme \<Rightarrow> 'z tsys_scheme" where
  "splhigh s = splx SPL_HIGH s"

definition spl0 :: "'z tsys_scheme \<Rightarrow> 'z tsys_scheme" where
  "spl0 s = splx 0 s"

section \<open>The scheduler\<close>

definition scheduler_bootstrap :: "bool \<Rightarrow> bool \<Rightarrow> 'z tsys_scheme \<Rightarrow> ('z tsys_scheme, unit) outcome" where
  "scheduler_bootstrap ok1 ok2 s =
     (case q_create ok1 ok2 32 of None \<Rightarrow> Panic
      | Some q \<Rightarrow> Ret () (s\<lparr>runqueue := q, rq_up := True\<rparr>))"

definition scheduler_preallocate :: "bool \<Rightarrow> int \<Rightarrow> 'z tsys_scheme \<Rightarrow> ('z tsys_scheme, unit) outcome" where
  "scheduler_preallocate ok nthreads s =
     kassert (curspl s > 0) (defined_if (rq_up s)
       (within (\<lambda>q. s\<lparr>runqueue := q\<rparr>) (q_preallocate ok (runqueue s) nthreads)))"

text \<open>The loop ends within \<^verbatim>\<open>size\<close> iterations, one per queued thread.\<close>

primrec killall_loop :: "nat \<Rightarrow> 'z tsys_scheme \<Rightarrow> ('z tsys_scheme, unit) outcome" where
  "killall_loop 0 s = (if q_empty (runqueue s) then Ret () s else Undef)"
| "killall_loop (Suc n) s =
     (if q_empty (runqueue s) then Ret () s
      else andthen (within (\<lambda>q. s\<lparr>runqueue := q\<rparr>) (q_remhead (runqueue s)))
             (\<lambda>t s. case t of None \<Rightarrow> Undef
                    | Some t \<Rightarrow> defined_if (thr s t \<noteq> None) (killall_loop n s)))"

definition scheduler_killall :: "'z tsys_scheme \<Rightarrow> ('z tsys_scheme, unit) outcome" where
  "scheduler_killall s =
     kassert (curspl s > 0) (defined_if (rq_up s)
       (killall_loop (nat (q_size (runqueue s))) s))"

definition scheduler_shutdown :: "'z tsys_scheme \<Rightarrow> ('z tsys_scheme, unit) outcome" where
  "scheduler_shutdown s =
     andthen (scheduler_killall s)
       (\<lambda>_ s. kassert (curspl s > 0)
          (case q_destroy (runqueue s) of Ret _ _ \<Rightarrow> Ret () (s\<lparr>rq_up := False\<rparr>) | _ \<Rightarrow> Panic))"

definition make_runnable :: "bool \<Rightarrow> tid \<Rightarrow> 'z tsys_scheme \<Rightarrow> ('z tsys_scheme, unit) outcome" where
  "make_runnable ok t s =
     kassert (curspl s > 0) (defined_if (rq_up s)
       (within (\<lambda>q. s\<lparr>runqueue := q\<rparr>) (q_addtail ok (runqueue s) (Some t))))"

section \<open>Sleep queues\<close>

text \<open>\<^verbatim>\<open>result = f(...); assert(result==0);\<close>\<close>

definition must_succeed :: "('s, 'a) outcome \<Rightarrow> ('s, 'a) outcome" where
  "must_succeed r = (case r of Err e s \<Rightarrow> Panic | _ \<Rightarrow> r)"

text \<open>The thread in cell \<^verbatim>\<open>i\<close> of \<^verbatim>\<open>sleepers\<close>, with its \<^verbatim>\<open>t_sleepaddr\<close>.\<close>

definition sleeper_at :: "int \<Rightarrow> 'z tsys_scheme \<Rightarrow> ('z tsys_scheme, tid \<times> addr option) outcome" where
  "sleeper_at i s =
     (case array_getguy (sleepers s) i of
        Ret (Some t) _ \<Rightarrow> (case thr s t of None \<Rightarrow> Undef | Some th \<Rightarrow> Ret (t, t_sleepaddr th) s)
      | Panic \<Rightarrow> Panic | _ \<Rightarrow> Undef)"

definition unsleep :: "bool \<Rightarrow> int \<Rightarrow> tid \<Rightarrow> 'z tsys_scheme \<Rightarrow> ('z tsys_scheme, unit) outcome" where
  "unsleep ok i t s =
     andthen (within (\<lambda>a. s\<lparr>sleepers := a\<rparr>) (array_remove (sleepers s) i))
       (\<lambda>_ s. must_succeed (make_runnable ok t s))"

text \<open>
  The loop of \<^verbatim>\<open>thread_wakeup\<close>.  Each iteration either advances \<^verbatim>\<open>i\<close> or shortens the array,
  so there are exactly as many as there are sleepers at the start.
\<close>

primrec wakeup_loop :: "nat \<Rightarrow> bool \<Rightarrow> addr \<Rightarrow> int \<Rightarrow> 'z tsys_scheme \<Rightarrow> ('z tsys_scheme, unit) outcome" where
  "wakeup_loop 0 ok addr i s = (if i < array_getnum (sleepers s) then Undef else Ret () s)"
| "wakeup_loop (Suc n) ok addr i s =
     (if i < array_getnum (sleepers s) then
        andthen (sleeper_at i s)
          (\<lambda>(t, a) s. if a = Some addr
             then andthen (unsleep ok i t s) (\<lambda>_ s. wakeup_loop n ok addr i s)
             else wakeup_loop n ok addr (i + 1) s)
      else Ret () s)"

definition thread_wakeup :: "bool \<Rightarrow> addr \<Rightarrow> 'z tsys_scheme \<Rightarrow> ('z tsys_scheme, unit) outcome" where
  "thread_wakeup ok addr s =
     kassert (curspl s > 0) (defined_if (ts_up s)
       (wakeup_loop (nat (array_getnum (sleepers s))) ok addr 0 s))"

primrec single_loop :: "nat \<Rightarrow> bool \<Rightarrow> addr \<Rightarrow> int \<Rightarrow> 'z tsys_scheme \<Rightarrow> ('z tsys_scheme, unit) outcome" where
  "single_loop 0 ok addr i s = (if i < array_getnum (sleepers s) then Undef else Ret () s)"
| "single_loop (Suc n) ok addr i s =
     (if i < array_getnum (sleepers s) then
        andthen (sleeper_at i s)
          (\<lambda>(t, a) s. if a = Some addr then unsleep ok i t s
                      else single_loop n ok addr (i + 1) s)
      else Ret () s)"

definition wakeup_single_thread :: "bool \<Rightarrow> addr \<Rightarrow> 'z tsys_scheme \<Rightarrow> ('z tsys_scheme, unit) outcome" where
  "wakeup_single_thread ok addr s =
     kassert (curspl s > 0) (defined_if (ts_up s)
       (single_loop (nat (array_getnum (sleepers s))) ok addr 0 s))"

definition thread_single_wakeup :: "bool \<Rightarrow> addr \<Rightarrow> 'z tsys_scheme \<Rightarrow> ('z tsys_scheme, unit) outcome" where
  "thread_single_wakeup ok addr s =
     kassert (curspl s > 0) (defined_if (ts_up s)
       (single_loop (nat (array_getnum (sleepers s))) ok addr 0 s))"

primrec hassleepers_loop :: "nat \<Rightarrow> addr \<Rightarrow> int \<Rightarrow> 'z tsys_scheme \<Rightarrow> ('z tsys_scheme, bool) outcome" where
  "hassleepers_loop 0 addr i s = (if i < array_getnum (sleepers s) then Undef else Ret False s)"
| "hassleepers_loop (Suc n) addr i s =
     (if i < array_getnum (sleepers s) then
        andthen (sleeper_at i s)
          (\<lambda>(t, a) s. if a = Some addr then Ret True s else hassleepers_loop n addr (i + 1) s)
      else Ret False s)"

definition thread_hassleepers :: "addr \<Rightarrow> 'z tsys_scheme \<Rightarrow> ('z tsys_scheme, bool) outcome" where
  "thread_hassleepers addr s =
     kassert (curspl s > 0) (defined_if (ts_up s)
       (hassleepers_loop (nat (array_getnum (sleepers s))) addr 0 s))"

section \<open>Context switch\<close>

text \<open>
  \<^verbatim>\<open>scheduler()\<close>.  While the run queue is empty the processor idles; \<open>evs\<close> lists what the
  interrupts taken in successive \<^verbatim>\<open>cpu_idle\<close> calls do to the thread system: \<open>Some a\<close> for a
  handler that calls \<^verbatim>\<open>thread_wakeup(a)\<close>, \<open>None\<close> for one that wakes nobody.  The result
  \<open>None\<close> means the processor is still idle after all of them.
\<close>

fun scheduler :: "bool \<Rightarrow> addr option list \<Rightarrow> 'z tsys_scheme \<Rightarrow> ('z tsys_scheme, tid option) outcome" where
  "scheduler ok evs s =
     kassert (curspl s > 0) (defined_if (rq_up s)
       (if q_empty (runqueue s) then
          (case evs of [] \<Rightarrow> Ret None s
           | None # evs \<Rightarrow> scheduler ok evs s
           | Some a # evs \<Rightarrow> andthen (thread_wakeup ok a s) (\<lambda>_ s. scheduler ok evs s))
        else andthen (within (\<lambda>q. s\<lparr>runqueue := q\<rparr>) (q_remhead (runqueue s)))
               (\<lambda>t s. case t of None \<Rightarrow> Undef | Some t \<Rightarrow> Ret (Some t) s)))"

declare scheduler.simps [simp del]

text \<open>\<^verbatim>\<open>thread_destroy\<close>: the stack, the name and the structure are freed.\<close>

definition thread_destroy :: "tid \<Rightarrow> 'z tsys_scheme \<Rightarrow> ('z tsys_scheme, unit) outcome" where
  "thread_destroy t s =
     kassert (Some t \<noteq> curthread s)
      (case thr s t of None \<Rightarrow> Undef
       | Some th \<Rightarrow> kassert (t_vmspace th = None) (kassert (t_cwd th = None)
           (Ret () (s\<lparr>thr := (thr s)(t := None)\<rparr>))))"

primrec exorcise_loop :: "nat \<Rightarrow> int \<Rightarrow> 'z tsys_scheme \<Rightarrow> ('z tsys_scheme, unit) outcome" where
  "exorcise_loop 0 i s = (if i < array_getnum (zombies s) then Undef else Ret () s)"
| "exorcise_loop (Suc n) i s =
     (if i < array_getnum (zombies s) then
        (case array_getguy (zombies s) i of
           Ret (Some z) _ \<Rightarrow> kassert (Some z \<noteq> curthread s)
             (andthen (thread_destroy z s) (\<lambda>_ s. exorcise_loop n (i + 1) s))
         | Panic \<Rightarrow> Panic | _ \<Rightarrow> Undef)
      else Ret () s)"

definition exorcise :: "'z tsys_scheme \<Rightarrow> ('z tsys_scheme, unit) outcome" where
  "exorcise s =
     kassert (curspl s > 0) (defined_if (ts_up s)
      (andthen (exorcise_loop (nat (array_getnum (zombies s))) 0 s)
        (\<lambda>_ s. must_succeed (within (\<lambda>a. s\<lparr>zombies := a\<rparr>) (array_setsize False (zombies s) 0)))))"

text \<open>The magic number at the bottom of a kernel stack.\<close>

definition stack_magic :: "int list" where
  "stack_magic = [0xae, 0x11, 0xda, 0x33]"

definition stack_ok :: "tid \<Rightarrow> 'z tsys_scheme \<Rightarrow> bool" where
  "stack_ok t s = (case thr s t of None \<Rightarrow> False
     | Some th \<Rightarrow> (case t_stack th of None \<Rightarrow> True | Some b \<Rightarrow> b = stack_magic))"

definition activate_cur :: "'z tsys_scheme \<Rightarrow> 'z tsys_scheme" where
  "activate_cur s = (case curthread s of None \<Rightarrow> s
     | Some c \<Rightarrow> (case thr s c of None \<Rightarrow> s
        | Some th \<Rightarrow> (case t_vmspace th of None \<Rightarrow> s | Some v \<Rightarrow> s\<lparr>as_active := Some v\<rparr>)))"

definition upd_thread :: "tid \<Rightarrow> (thread \<Rightarrow> thread) \<Rightarrow> 'z tsys_scheme \<Rightarrow> 'z tsys_scheme" where
  "upd_thread t f s = s\<lparr>thr := (thr s)(t := map_option f (thr s t))\<rparr>"

text \<open>
  What thread \<open>n\<close> does after \<^verbatim>\<open>md_switch\<close> has switched to it: a new thread runs the first part
  of \<^verbatim>\<open>mi_threadstart\<close>; any other returns from \<^verbatim>\<open>mi_switch\<close> and finishes \<^verbatim>\<open>thread_yield\<close> or
  \<^verbatim>\<open>thread_sleep\<close>.
\<close>

definition resume_thread :: "tid \<Rightarrow> 'z tsys_scheme \<Rightarrow> ('z tsys_scheme, unit) outcome" where
  "resume_thread n s =
     (case thr s n of None \<Rightarrow> Undef
      | Some th \<Rightarrow>
          (case t_pcb th of
             R_start \<Rightarrow> Ret () (spl0 (activate_cur s))
           | R_yield spl \<Rightarrow> andthen (exorcise s) (\<lambda>_ s. Ret () (splx spl (activate_cur s)))
           | R_sleep \<Rightarrow> andthen (exorcise s)
               (\<lambda>_ s. Ret () (upd_thread n (\<lambda>th. th\<lparr>t_sleepaddr := None\<rparr>) (activate_cur s)))))"

text \<open>
  \<^verbatim>\<open>mi_switch(nextstate)\<close>, up to and including what the next thread does; \<open>r\<close> is where the
  current thread will resume.
\<close>

definition mi_switch ::
  "bool \<Rightarrow> addr option list \<Rightarrow> threadstate \<Rightarrow> resume \<Rightarrow> 'z tsys_scheme \<Rightarrow> ('z tsys_scheme, unit) outcome" where
  "mi_switch ok evs nextstate r s =
     kassert (curspl s > 0)
      (case curthread s of None \<Rightarrow> Ret () s
       | Some cur \<Rightarrow> defined_if (thr s cur \<noteq> None) (kassert (stack_ok cur s)
          (let s = s\<lparr>curthread := None\<rparr> in
           andthen
            (must_succeed
              (if nextstate = S_READY then make_runnable ok cur s
               else if nextstate = S_SLEEP then
                 defined_if (ts_up s) (within (\<lambda>a. s\<lparr>sleepers := a\<rparr>) (array_add ok (sleepers s) cur))
               else kassert (nextstate = S_ZOMB)
                 (defined_if (ts_up s) (within (\<lambda>a. s\<lparr>zombies := a\<rparr>) (array_add ok (zombies s) cur)))))
            (\<lambda>_ s. andthen (scheduler ok evs (upd_thread cur (\<lambda>th. th\<lparr>t_pcb := r\<rparr>) s))
              (\<lambda>next s. case next of None \<Rightarrow> Ret () s
                | Some n \<Rightarrow> resume_thread n (s\<lparr>curthread := Some n\<rparr>))))))"

definition thread_yield :: "bool \<Rightarrow> addr option list \<Rightarrow> 'z tsys_scheme \<Rightarrow> ('z tsys_scheme, unit) outcome" where
  "thread_yield ok evs s =
     (let spl = curspl s; s = splhigh s in
      kassert (ts_up s)
       (if curthread s = None then andthen (mi_switch ok evs S_READY (R_yield spl) s) (\<lambda>_ s. Ret () (splx spl s))
        else mi_switch ok evs S_READY (R_yield spl) s))"

definition thread_sleep :: "bool \<Rightarrow> addr option list \<Rightarrow> addr \<Rightarrow> 'z tsys_scheme \<Rightarrow> ('z tsys_scheme, unit) outcome" where
  "thread_sleep ok evs addr s =
     kassert (\<not> in_interrupt s)
      (case curthread s of None \<Rightarrow> Undef
       | Some c \<Rightarrow> mi_switch ok evs S_SLEEP R_sleep
                     (upd_thread c (\<lambda>th. th\<lparr>t_sleepaddr := Some addr\<rparr>) s))"

section \<open>Panic and shutdown\<close>

primrec drop_sleepers :: "nat \<Rightarrow> int \<Rightarrow> 'z tsys_scheme \<Rightarrow> ('z tsys_scheme, unit) outcome" where
  "drop_sleepers 0 i s = (if i < array_getnum (sleepers s) then Undef else Ret () s)"
| "drop_sleepers (Suc n) i s =
     (if i < array_getnum (sleepers s) then
        andthen (sleeper_at i s) (\<lambda>_ s. drop_sleepers n (i + 1) s)
      else Ret () s)"

definition thread_killall :: "'z tsys_scheme \<Rightarrow> ('z tsys_scheme, unit) outcome" where
  "thread_killall s =
     kassert (curspl s > 0) (defined_if (ts_up s)
      (andthen (drop_sleepers (nat (array_getnum (sleepers s))) 0 s)
        (\<lambda>_ s. must_succeed (within (\<lambda>a. s\<lparr>sleepers := a\<rparr>) (array_setsize False (sleepers s) 0)))))"

definition thread_panic :: "'z tsys_scheme \<Rightarrow> ('z tsys_scheme, unit) outcome" where
  "thread_panic s =
     kassert (curspl s > 0) (andthen (thread_killall s) (\<lambda>_ s. scheduler_killall s))"

definition thread_shutdown :: "'z tsys_scheme \<Rightarrow> 'z tsys_scheme" where
  "thread_shutdown s = s\<lparr>ts_up := False\<rparr>"

section \<open>The clock\<close>

text \<open>
  \<open>hz\<close> is the configured \<^verbatim>\<open>HZ\<close>; \<open>lbolt\<close> is the address of the variable of that name.
\<close>

definition hardclock ::
  "int \<Rightarrow> addr \<Rightarrow> bool \<Rightarrow> addr option list \<Rightarrow> 'z tsys_scheme \<Rightarrow> ('z tsys_scheme, unit) outcome" where
  "hardclock hz lbolt ok evs s =
     (let s = s\<lparr>lbolt_counter := lbolt_counter s + 1\<rparr> in
      andthen (if lbolt_counter s \<ge> hz then thread_wakeup ok lbolt (s\<lparr>lbolt_counter := 0\<rparr>)
               else Ret () s)
        (\<lambda>_ s. thread_yield ok evs s))"

section \<open>Abstraction\<close>

text \<open>The three queues as lists of cells, and the threads asleep on an address.\<close>

definition ready_seq :: "'z tsys_scheme \<Rightarrow> tid option list" where
  "ready_seq s = q_seq (runqueue s)"

definition sleep_seq :: "'z tsys_scheme \<Rightarrow> tid option list" where
  "sleep_seq s = array_cells (sleepers s)"

definition zombie_seq :: "'z tsys_scheme \<Rightarrow> tid option list" where
  "zombie_seq s = array_cells (zombies s)"

definition asleep_on :: "(tid \<Rightarrow> thread option) \<Rightarrow> addr \<Rightarrow> tid option \<Rightarrow> bool" where
  "asleep_on th a c = (case c of None \<Rightarrow> False
     | Some t \<Rightarrow> (case th t of None \<Rightarrow> False | Some r \<Rightarrow> t_sleepaddr r = Some a))"

text \<open>A cell that holds an existing thread.\<close>

definition live :: "(tid \<Rightarrow> thread option) \<Rightarrow> tid option \<Rightarrow> bool" where
  "live th c = (case c of None \<Rightarrow> False | Some t \<Rightarrow> th t \<noteq> None)"

definition queues_inv :: "'z tsys_scheme \<Rightarrow> bool" where
  "queues_inv s \<longleftrightarrow> ts_up s \<and> rq_up s \<and> array_inv (sleepers s) \<and> array_inv (zombies s) \<and>
     q_inv (runqueue s) \<and> list_all (live (thr s)) (ready_seq s) \<and>
     list_all (live (thr s)) (sleep_seq s) \<and> list_all (live (thr s)) (zombie_seq s)"

section \<open>Wakeup\<close>

lemma asleep_on_Some [simp]:
  "th t = Some r \<Longrightarrow> asleep_on th a (Some t) \<longleftrightarrow> t_sleepaddr r = Some a"
  by (simp add: asleep_on_def)

lemma live_Some [simp]: "live th (Some t) \<longleftrightarrow> th t \<noteq> None"
  by (simp add: live_def)

lemma must_succeed_simps [simp]:
  "must_succeed (Ret x s) = Ret x s" "must_succeed (Err e s) = Panic"
  "must_succeed Panic = Panic" "must_succeed Undef = Undef"
  by (simp_all add: must_succeed_def)

lemma make_runnable_room:
  assumes "q_inv (runqueue s)" "rq_up s" "curspl s > 0"
    and "length (ready_seq s) + 1 < nat (q_size (runqueue s))"
  shows "\<exists>q. make_runnable ok t s = Ret () (s\<lparr>runqueue := q\<rparr>) \<and> q_inv q \<and>
             q_seq q = ready_seq s @ [Some t] \<and> q_size q = q_size (runqueue s)"
  using q_addtail_room [of "runqueue s" ok "Some t"] assms
  by (auto simp: make_runnable_def ready_seq_def)

lemma sleeper_at_live:
  assumes "array_inv (sleepers s)" "i < length (sleep_seq s)" "live (thr s) (sleep_seq s ! i)"
  obtains t th where "sleep_seq s ! i = Some t" "thr s t = Some th"
    "sleeper_at (int i) s = Ret (t, t_sleepaddr th) s"
  using assms array_getguy_cells [of "sleepers s" i]
  by (auto simp: sleep_seq_def live_def sleeper_at_def split: option.splits)

lemma unsleep_room:
  assumes "array_inv (sleepers s)" "i < length (sleep_seq s)" "q_inv (runqueue s)" "rq_up s"
    and "curspl s > 0" "length (ready_seq s) + 1 < nat (q_size (runqueue s))"
  shows "\<exists>a q. unsleep ok (int i) t s = Ret () (s\<lparr>sleepers := a, runqueue := q\<rparr>) \<and>
           array_inv a \<and> array_cells a = take i (sleep_seq s) @ drop (Suc i) (sleep_seq s) \<and>
           a_max a = a_max (sleepers s) \<and> q_inv q \<and> q_seq q = ready_seq s @ [Some t] \<and>
           q_size q = q_size (runqueue s)"
proof -
  obtain a where a: "array_remove (sleepers s) (int i) = Ret () a" "array_inv a"
    "array_cells a = take i (sleep_seq s) @ drop (Suc i) (sleep_seq s)" "a_max a = a_max (sleepers s)"
    using array_remove_cells [OF assms(1), of i] assms(2) by (auto simp: sleep_seq_def)
  obtain q where "make_runnable ok t (s\<lparr>sleepers := a\<rparr>) = Ret () (s\<lparr>sleepers := a, runqueue := q\<rparr>)"
    "q_inv q" "q_seq q = ready_seq s @ [Some t]" "q_size q = q_size (runqueue s)"
    using make_runnable_room [of "s\<lparr>sleepers := a\<rparr>" ok t] assms by (auto simp: ready_seq_def)
  with a show ?thesis by (intro exI [of _ a] exI [of _ q]) (simp add: unsleep_def)
qed

lemma wakeup_loop_spec:
  assumes "array_inv (sleepers s)" "q_inv (runqueue s)" "rq_up s" "curspl s > 0"
    and "list_all (live (thr s)) (sleep_seq s)"
    and "length (ready_seq s) + length (sleep_seq s) < nat (q_size (runqueue s)) + i"
    and "i \<le> length (sleep_seq s)" "n = length (sleep_seq s) - i"
  shows "\<exists>a q. wakeup_loop n ok addr (int i) s = Ret () (s\<lparr>sleepers := a, runqueue := q\<rparr>) \<and>
           array_inv a \<and> q_inv q \<and> a_max a = a_max (sleepers s) \<and> q_size q = q_size (runqueue s) \<and>
           array_cells a = take i (sleep_seq s) @
             filter (\<lambda>c. \<not> asleep_on (thr s) addr c) (drop i (sleep_seq s)) \<and>
           q_seq q = ready_seq s @ filter (asleep_on (thr s) addr) (drop i (sleep_seq s))"
  using assms
proof (induction n arbitrary: i s)
  case 0
  then show ?case
    by (intro exI [of _ "sleepers s"] exI [of _ "runqueue s"])
       (auto simp: array_getnum_cells sleep_seq_def ready_seq_def)
next
  case (Suc n)
  let ?xs = "sleep_seq s"
  have i: "i < length ?xs" using Suc.prems by simp
  obtain t th where t: "?xs ! i = Some t" "thr s t = Some th"
      "sleeper_at (int i) s = Ret (t, t_sleepaddr th) s"
    using sleeper_at_live [OF Suc.prems(1) i] Suc.prems(5) i by (auto simp: list_all_length)
  have num: "int i < array_getnum (sleepers s)"
    using Suc.prems(1) i by (simp add: array_getnum_cells sleep_seq_def)
  have dr: "drop i ?xs = Some t # drop (Suc i) ?xs" using i t by (simp add: Cons_nth_drop_Suc [symmetric])
  show ?case
  proof (cases "t_sleepaddr th = Some addr")
    case True
    obtain a q where aq: "unsleep ok (int i) t s = Ret () (s\<lparr>sleepers := a, runqueue := q\<rparr>)"
      "array_inv a" "array_cells a = take i ?xs @ drop (Suc i) ?xs" "a_max a = a_max (sleepers s)"
      "q_inv q" "q_seq q = ready_seq s @ [Some t]" "q_size q = q_size (runqueue s)"
      using unsleep_room [OF Suc.prems(1) i Suc.prems(2,3,4), of ok t] Suc.prems i by auto
    let ?s = "s\<lparr>sleepers := a, runqueue := q\<rparr>"
    have p: "array_inv (sleepers ?s)" "q_inv (runqueue ?s)" "rq_up ?s" "0 < curspl ?s"
      "list_all (live (thr ?s)) (sleep_seq ?s)"
      "length (ready_seq ?s) + length (sleep_seq ?s) < nat (q_size (runqueue ?s)) + i"
      "i \<le> length (sleep_seq ?s)" "n = length (sleep_seq ?s) - i"
      using Suc.prems aq i
      by (auto simp: sleep_seq_def ready_seq_def list_all_iff dest: in_set_takeD in_set_dropD)
    obtain a' q' where "wakeup_loop n ok addr (int i) ?s = Ret () (?s\<lparr>sleepers := a', runqueue := q'\<rparr>)"
        "array_inv a'" "q_inv q'" "a_max a' = a_max a" "q_size q' = q_size q"
        "array_cells a' = take i ?xs @ filter (\<lambda>c. \<not> asleep_on (thr s) addr c) (drop (Suc i) ?xs)"
        "q_seq q' = q_seq q @ filter (asleep_on (thr s) addr) (drop (Suc i) ?xs)"
      using Suc.IH [OF p] aq i by (auto simp: sleep_seq_def ready_seq_def)
    then show ?thesis using num t True aq dr
      by (intro exI [of _ a'] exI [of _ q']) simp
  next
    case False
    have "n = length ?xs - Suc i" using Suc.prems by simp
    then obtain a' q' where "wakeup_loop n ok addr (int (Suc i)) s = Ret () (s\<lparr>sleepers := a', runqueue := q'\<rparr>)"
        "array_inv a'" "q_inv q'" "a_max a' = a_max (sleepers s)" "q_size q' = q_size (runqueue s)"
        "array_cells a' = take (Suc i) ?xs @ filter (\<lambda>c. \<not> asleep_on (thr s) addr c) (drop (Suc i) ?xs)"
        "q_seq q' = ready_seq s @ filter (asleep_on (thr s) addr) (drop (Suc i) ?xs)"
      using Suc.IH [of s "Suc i", OF Suc.prems(1-5)] Suc.prems(6) i by auto
    moreover have "take (Suc i) ?xs = take i ?xs @ [Some t]"
      using i t by (simp add: take_Suc_conv_app_nth)
    ultimately show ?thesis using num t False dr
      by (intro exI [of _ a'] exI [of _ q']) (simp add: add.commute)
  qed
qed

lemma thread_wakeup_spec:
  assumes "queues_inv s" "curspl s > 0"
    and "length (ready_seq s) + length (sleep_seq s) < nat (q_size (runqueue s))"
  shows "\<exists>a q. thread_wakeup ok addr s = Ret () (s\<lparr>sleepers := a, runqueue := q\<rparr>) \<and>
           array_inv a \<and> q_inv q \<and> a_max a = a_max (sleepers s) \<and> q_size q = q_size (runqueue s) \<and>
           array_cells a = filter (\<lambda>c. \<not> asleep_on (thr s) addr c) (sleep_seq s) \<and>
           q_seq q = ready_seq s @ filter (asleep_on (thr s) addr) (sleep_seq s)"
  using wakeup_loop_spec [of s 0 "length (sleep_seq s)" ok addr] assms
  by (simp add: thread_wakeup_def queues_inv_def array_getnum_cells sleep_seq_def)

lemma single_loop_spec:
  assumes "array_inv (sleepers s)" "q_inv (runqueue s)" "rq_up s" "curspl s > 0"
    and "list_all (live (thr s)) (sleep_seq s)"
    and "length (ready_seq s) + 1 < nat (q_size (runqueue s))"
    and "i \<le> length (sleep_seq s)" "n = length (sleep_seq s) - i"
  shows "\<exists>a q. single_loop n ok addr (int i) s = Ret () (s\<lparr>sleepers := a, runqueue := q\<rparr>) \<and>
           array_inv a \<and> q_inv q \<and> a_max a = a_max (sleepers s) \<and> q_size q = q_size (runqueue s) \<and>
           (case dropWhile (\<lambda>c. \<not> asleep_on (thr s) addr c) (drop i (sleep_seq s)) of
              [] \<Rightarrow> array_cells a = sleep_seq s \<and> q_seq q = ready_seq s
            | c # cs \<Rightarrow> array_cells a = take i (sleep_seq s) @
                 takeWhile (\<lambda>c. \<not> asleep_on (thr s) addr c) (drop i (sleep_seq s)) @ cs \<and>
                 q_seq q = ready_seq s @ [c])"
  using assms
proof (induction n arbitrary: i)
  case 0
  then show ?case
    by (intro exI [of _ "sleepers s"] exI [of _ "runqueue s"])
       (auto simp: array_getnum_cells sleep_seq_def ready_seq_def)
next
  case (Suc n)
  let ?xs = "sleep_seq s"
  have i: "i < length ?xs" using Suc.prems by simp
  obtain t th where t: "?xs ! i = Some t" "thr s t = Some th"
      "sleeper_at (int i) s = Ret (t, t_sleepaddr th) s"
    using sleeper_at_live [OF Suc.prems(1) i] Suc.prems(5) i by (auto simp: list_all_length)
  have num: "int i < array_getnum (sleepers s)"
    using Suc.prems(1) i by (simp add: array_getnum_cells sleep_seq_def)
  have dr: "drop i ?xs = Some t # drop (Suc i) ?xs" using i t by (simp add: Cons_nth_drop_Suc [symmetric])
  show ?case
  proof (cases "t_sleepaddr th = Some addr")
    case True
    obtain a q where "unsleep ok (int i) t s = Ret () (s\<lparr>sleepers := a, runqueue := q\<rparr>)"
      "array_inv a" "array_cells a = take i ?xs @ drop (Suc i) ?xs" "a_max a = a_max (sleepers s)"
      "q_inv q" "q_seq q = ready_seq s @ [Some t]" "q_size q = q_size (runqueue s)"
      using unsleep_room [OF Suc.prems(1) i Suc.prems(2,3,4,6), of ok t] by auto
    then show ?thesis using True num t dr by (intro exI [of _ a] exI [of _ q]) simp
  next
    case False
    have n: "Suc i \<le> length ?xs" "n = length ?xs - Suc i" using Suc.prems i by simp_all
    have tk: "take (Suc i) ?xs = take i ?xs @ [Some t]"
      using i t by (simp add: take_Suc_conv_app_nth)
    show ?thesis using Suc.IH [OF Suc.prems(1-6) n] num t False dr tk
      by (simp add: add.commute cong: list.case_cong)
  qed
qed

lemma wakeup_single_spec:
  assumes "queues_inv s" "curspl s > 0"
    and "length (ready_seq s) + 1 < nat (q_size (runqueue s))"
  shows "\<exists>a q. wakeup_single_thread ok addr s = Ret () (s\<lparr>sleepers := a, runqueue := q\<rparr>) \<and>
           array_inv a \<and> q_inv q \<and> a_max a = a_max (sleepers s) \<and> q_size q = q_size (runqueue s) \<and>
           (case dropWhile (\<lambda>c. \<not> asleep_on (thr s) addr c) (sleep_seq s) of
              [] \<Rightarrow> array_cells a = sleep_seq s \<and> q_seq q = ready_seq s
            | c # cs \<Rightarrow> array_cells a =
                 takeWhile (\<lambda>c. \<not> asleep_on (thr s) addr c) (sleep_seq s) @ cs \<and>
                 q_seq q = ready_seq s @ [c])"
  using single_loop_spec [of s 0 "length (sleep_seq s)" ok addr] assms
  by (simp add: wakeup_single_thread_def queues_inv_def array_getnum_cells sleep_seq_def
        cong: list.case_cong)

lemma wakeup_single_split:
  assumes "queues_inv s" "curspl s > 0"
    and "length (ready_seq s) + 1 < nat (q_size (runqueue s))"
  shows "\<exists>a q xs ys zs. wakeup_single_thread ok addr s = Ret () (s\<lparr>sleepers := a, runqueue := q\<rparr>) \<and>
           array_inv a \<and> q_inv q \<and> a_max a = a_max (sleepers s) \<and> q_size q = q_size (runqueue s) \<and>
           sleep_seq s = xs @ ys @ zs \<and> array_cells a = xs @ zs \<and> q_seq q = ready_seq s @ ys \<and>
           length ys \<le> 1 \<and> list_all (asleep_on (thr s) addr) ys \<and>
           (ys = [] \<longrightarrow> \<not> list_ex (asleep_on (thr s) addr) (sleep_seq s))"
proof -
  let ?P = "\<lambda>c. \<not> asleep_on (thr s) addr c"
  obtain a q where w: "wakeup_single_thread ok addr s = Ret () (s\<lparr>sleepers := a, runqueue := q\<rparr>)"
      "array_inv a" "q_inv q" "a_max a = a_max (sleepers s)" "q_size q = q_size (runqueue s)"
      "case dropWhile ?P (sleep_seq s) of
         [] \<Rightarrow> array_cells a = sleep_seq s \<and> q_seq q = ready_seq s
       | c # cs \<Rightarrow> array_cells a = takeWhile ?P (sleep_seq s) @ cs \<and> q_seq q = ready_seq s @ [c]"
    using wakeup_single_spec [OF assms, of ok addr] by blast
  show ?thesis
  proof (cases "dropWhile ?P (sleep_seq s)")
    case Nil
    then have "\<not> list_ex (asleep_on (thr s) addr) (sleep_seq s)"
      by (auto simp: list_ex_iff dropWhile_eq_Nil_conv)
    with w Nil show ?thesis
      by (intro exI [of _ a] exI [of _ q] exI [of _ "sleep_seq s"] exI [of _ "[]"]) simp
  next
    case (Cons c cs)
    have "sleep_seq s = takeWhile ?P (sleep_seq s) @ c # cs"
      using Cons by (metis takeWhile_dropWhile_id)
    moreover have "asleep_on (thr s) addr c" using Cons hd_dropWhile [of ?P "sleep_seq s"] by simp
    ultimately show ?thesis
      using w Cons
      by (intro exI [of _ a] exI [of _ q] exI [of _ "takeWhile ?P (sleep_seq s)"]
            exI [of _ "[c]"] exI [of _ cs]) simp
  qed
qed

lemma single_wakeups_agree: "thread_single_wakeup ok a s = wakeup_single_thread ok a s"
  by (simp add: thread_single_wakeup_def wakeup_single_thread_def)

lemma hassleepers_loop_spec:
  assumes "array_inv (sleepers s)" "list_all (live (thr s)) (sleep_seq s)"
    and "i \<le> length (sleep_seq s)" "n = length (sleep_seq s) - i"
  shows "hassleepers_loop n addr (int i) s =
           Ret (\<exists>c\<in>set (drop i (sleep_seq s)). asleep_on (thr s) addr c) s"
  using assms
proof (induction n arbitrary: i)
  case 0
  then show ?case by (auto simp: array_getnum_cells sleep_seq_def)
next
  case (Suc n)
  let ?xs = "sleep_seq s"
  have i: "i < length ?xs" using Suc.prems by simp
  obtain t th where t: "?xs ! i = Some t" "thr s t = Some th"
      "sleeper_at (int i) s = Ret (t, t_sleepaddr th) s"
    using sleeper_at_live [OF Suc.prems(1) i] Suc.prems(2) i by (auto simp: list_all_length)
  have num: "int i < array_getnum (sleepers s)"
    using Suc.prems(1) i by (simp add: array_getnum_cells sleep_seq_def)
  have dr: "drop i ?xs = Some t # drop (Suc i) ?xs" using i t by (simp add: Cons_nth_drop_Suc [symmetric])
  have n: "Suc i \<le> length ?xs" "n = length ?xs - Suc i" using Suc.prems i by simp_all
  show ?case using Suc.IH [OF Suc.prems(1,2) n] num t dr by (auto simp: add.commute)
qed

lemma thread_hassleepers_spec:
  assumes "queues_inv s" "curspl s > 0"
  shows "thread_hassleepers addr s = Ret (\<exists>c\<in>set (sleep_seq s). asleep_on (thr s) addr c) s"
  using hassleepers_loop_spec [of s 0 "length (sleep_seq s)" addr] assms
  by (simp add: thread_hassleepers_def queues_inv_def array_getnum_cells sleep_seq_def)

section \<open>Exorcism\<close>

definition kill_threads :: "tid option set \<Rightarrow> (tid \<Rightarrow> thread option) \<Rightarrow> tid \<Rightarrow> thread option" where
  "kill_threads Z th t = (if Some t \<in> Z then None else th t)"

text \<open>A thread that can be destroyed: it has given up its address space and its directory.\<close>

definition disposable :: "(tid \<Rightarrow> thread option) \<Rightarrow> tid option \<Rightarrow> bool" where
  "disposable th c = (case c of None \<Rightarrow> False | Some t \<Rightarrow>
     (case th t of None \<Rightarrow> False | Some r \<Rightarrow> t_vmspace r = None \<and> t_cwd r = None))"

lemma exorcise_loop_spec:
  assumes "array_inv (zombies s)" "list_all (disposable (thr s)) (drop i (zombie_seq s))"
    and "distinct (zombie_seq s)" "curthread s \<notin> set (zombie_seq s)"
    and "i \<le> length (zombie_seq s)" "n = length (zombie_seq s) - i"
  shows "exorcise_loop n (int i) s =
           Ret () (s\<lparr>thr := kill_threads (set (drop i (zombie_seq s))) (thr s)\<rparr>)"
  using assms
proof (induction n arbitrary: i s)
  case 0
  then show ?case by (auto simp: array_getnum_cells zombie_seq_def kill_threads_def)
next
  case (Suc n)
  let ?xs = "zombie_seq s"
  have i: "i < length ?xs" using Suc.prems by simp
  have dr: "drop i ?xs = ?xs ! i # drop (Suc i) ?xs" using i by (simp add: Cons_nth_drop_Suc)
  then obtain z r where z: "?xs ! i = Some z" "thr s z = Some r" "t_vmspace r = None" "t_cwd r = None"
    using Suc.prems(2) by (auto simp: disposable_def split: option.splits)
  have num: "int i < array_getnum (zombies s)" "array_getguy (zombies s) (int i) = Ret (Some z) (zombies s)"
    using Suc.prems(1) i z array_getguy_cells [of "zombies s" i]
    by (simp_all add: array_getnum_cells zombie_seq_def)
  have nc: "Some z \<noteq> curthread s" using Suc.prems(4) i z(1) by (metis nth_mem)
  let ?s = "s\<lparr>thr := (thr s)(z := None)\<rparr>"
  have notin: "Some z \<notin> set (drop (Suc i) ?xs)"
    using Suc.prems(3) i z(1) by (metis distinct.simps(2) distinct_drop dr)
  have p: "array_inv (zombies ?s)" "list_all (disposable (thr ?s)) (drop (Suc i) (zombie_seq ?s))"
    "distinct (zombie_seq ?s)" "curthread ?s \<notin> set (zombie_seq ?s)"
    "Suc i \<le> length (zombie_seq ?s)" "n = length (zombie_seq ?s) - Suc i"
    using Suc.prems dr i notin
    by (auto simp: zombie_seq_def list_all_iff disposable_def split: option.splits)
  have "exorcise_loop n (int (Suc i)) ?s =
      Ret () (?s\<lparr>thr := kill_threads (set (drop (Suc i) ?xs)) (thr ?s)\<rparr>)"
    using Suc.IH [OF p] by (simp add: zombie_seq_def fun_upd_def)
  moreover have "kill_threads (set (drop (Suc i) ?xs)) ((thr s)(z := None)) =
      kill_threads (set (drop i ?xs)) (thr s)"
    using dr z(1) by (auto simp: kill_threads_def fun_eq_iff)
  ultimately show ?case using num nc z by (simp add: thread_destroy_def add.commute)
qed

lemma exorcise_spec:
  assumes "array_inv (zombies s)" "ts_up s" "curspl s > 0"
    and "list_all (disposable (thr s)) (zombie_seq s)"
    and "distinct (zombie_seq s)" "curthread s \<notin> set (zombie_seq s)"
  shows "\<exists>a. exorcise s = Ret () (s\<lparr>thr := kill_threads (set (zombie_seq s)) (thr s), zombies := a\<rparr>) \<and>
             array_inv a \<and> array_cells a = [] \<and>
             a_max a = (if a_max (zombies s) > 16 then 0 else a_max (zombies s))"
proof -
  have loop: "exorcise_loop (nat (array_getnum (zombies s))) 0 s =
      Ret () (s\<lparr>thr := kill_threads (set (zombie_seq s)) (thr s)\<rparr>)"
    using exorcise_loop_spec [of s 0 "length (zombie_seq s)"] assms
    by (simp add: array_getnum_cells zombie_seq_def)
  obtain a where "array_setsize False (zombies s) 0 = Ret () a" "array_inv a" "array_cells a = []"
    "a_max a = (if a_max (zombies s) > 16 then 0 else a_max (zombies s))"
    using array_setsize_shrinks_storage [OF assms(1), of False]
      array_setsize_zero_keeps_storage [OF assms(1), of False] assms(1)
    by (cases "16 < a_max (zombies s)")
       (auto simp: array_inv_def array_cells_def split: option.splits)
  with loop assms show ?thesis by (auto simp: exorcise_def)
qed

section \<open>Well-formed thread systems\<close>

text \<open>
  Every thread is in exactly one place (running, ready, asleep or a zombie), exists, and has
  an intact stack; zombies are disposable.
\<close>

definition cur_cells :: "'z tsys_scheme \<Rightarrow> tid option list" where
  "cur_cells s = (case curthread s of None \<Rightarrow> [] | Some c \<Rightarrow> [Some c])"

definition all_cells :: "'z tsys_scheme \<Rightarrow> tid option list" where
  "all_cells s = cur_cells s @ ready_seq s @ sleep_seq s @ zombie_seq s"

definition sound :: "(tid \<Rightarrow> thread option) \<Rightarrow> tid option \<Rightarrow> bool" where
  "sound th c = (case c of None \<Rightarrow> False | Some t \<Rightarrow> (case th t of None \<Rightarrow> False
     | Some r \<Rightarrow> (case t_stack r of None \<Rightarrow> True | Some b \<Rightarrow> b = stack_magic)))"

definition thread_wf :: "'z tsys_scheme \<Rightarrow> bool" where
  "thread_wf s \<longleftrightarrow> ts_up s \<and> rq_up s \<and> array_inv (sleepers s) \<and> array_inv (zombies s) \<and>
     q_inv (runqueue s) \<and> distinct (all_cells s) \<and> list_all (sound (thr s)) (all_cells s) \<and>
     list_all (disposable (thr s)) (zombie_seq s)"

lemma sound_live: "sound th c \<Longrightarrow> live th c"
  by (auto simp: sound_def live_def split: option.splits)

lemma thread_wf_queues: "thread_wf s \<Longrightarrow> queues_inv s"
  by (auto simp: thread_wf_def queues_inv_def all_cells_def list_all_iff sound_live)

lemma sound_stack_ok: "sound (thr s) (Some t) \<longleftrightarrow> thr s t \<noteq> None \<and> stack_ok t s"
  by (auto simp: sound_def stack_ok_def split: option.splits)

lemma curthread_sound:
  assumes "thread_wf s" "curthread s = Some c"
  shows "thr s c \<noteq> None" "stack_ok c s"
  using assms by (simp_all add: thread_wf_def all_cells_def cur_cells_def sound_stack_ok)

text \<open>Updates of a thread structure that keep the stack, the address space and the directory.\<close>

lemma sound_upd_thread [simp]:
  "(\<And>r. t_stack (f r) = t_stack r) \<Longrightarrow> sound (thr (upd_thread t f s)) c = sound (thr s) c"
  by (auto simp: sound_def upd_thread_def split: option.splits)

lemma disposable_upd_thread [simp]:
  "(\<And>r. t_vmspace (f r) = t_vmspace r) \<Longrightarrow> (\<And>r. t_cwd (f r) = t_cwd r) \<Longrightarrow>
   disposable (thr (upd_thread t f s)) c = disposable (thr s) c"
  by (auto simp: disposable_def upd_thread_def split: option.splits)

lemma seq_upd_thread [simp]:
  "ready_seq (upd_thread t f s) = ready_seq s" "sleep_seq (upd_thread t f s) = sleep_seq s"
  "zombie_seq (upd_thread t f s) = zombie_seq s" "curthread (upd_thread t f s) = curthread s"
  "sleepers (upd_thread t f s) = sleepers s" "zombies (upd_thread t f s) = zombies s"
  "runqueue (upd_thread t f s) = runqueue s" "ts_up (upd_thread t f s) = ts_up s"
  "rq_up (upd_thread t f s) = rq_up s" "curspl (upd_thread t f s) = curspl s"
  "in_interrupt (upd_thread t f s) = in_interrupt s" "numthreads (upd_thread t f s) = numthreads s"
  by (simp_all add: upd_thread_def ready_seq_def sleep_seq_def zombie_seq_def)

lemma all_cells_upd_thread [simp]: "all_cells (upd_thread t f s) = all_cells s"
  by (simp add: all_cells_def cur_cells_def)

lemma wf_upd_thread:
  assumes "thread_wf s" "\<And>r. t_stack (f r) = t_stack r" "\<And>r. t_vmspace (f r) = t_vmspace r"
    "\<And>r. t_cwd (f r) = t_cwd r"
  shows "thread_wf (upd_thread t f s)"
  using assms by (simp add: thread_wf_def list_all_iff)

lemma activate_cur_simps [simp]:
  "curthread (activate_cur s) = curthread s" "thr (activate_cur s) = thr s"
  "sleepers (activate_cur s) = sleepers s" "zombies (activate_cur s) = zombies s"
  "runqueue (activate_cur s) = runqueue s" "ts_up (activate_cur s) = ts_up s"
  "rq_up (activate_cur s) = rq_up s" "numthreads (activate_cur s) = numthreads s"
  "curspl (activate_cur s) = curspl s" "in_interrupt (activate_cur s) = in_interrupt s"
  by (simp_all add: activate_cur_def split: option.split)

lemma splx_simps [simp]:
  "curthread (splx n s) = curthread s" "thr (splx n s) = thr s"
  "sleepers (splx n s) = sleepers s" "zombies (splx n s) = zombies s"
  "runqueue (splx n s) = runqueue s" "ts_up (splx n s) = ts_up s"
  "rq_up (splx n s) = rq_up s" "numthreads (splx n s) = numthreads s" "curspl (splx n s) = n"
  "in_interrupt (splx n s) = in_interrupt s"
  by (simp_all add: splx_def)

text \<open>Nothing of the well-formedness of the threads depends on the rest of the state.\<close>

lemma thread_wf_cong:
  assumes "curthread s = curthread s'" "thr s = thr s'" "sleepers s = sleepers s'"
    "zombies s = zombies s'" "runqueue s = runqueue s'" "ts_up s = ts_up s'" "rq_up s = rq_up s'"
  shows "thread_wf s = thread_wf s'"
  using assms by (simp add: thread_wf_def all_cells_def cur_cells_def ready_seq_def sleep_seq_def zombie_seq_def)

lemma wf_exorcised:
  assumes wf: "thread_wf s" and a: "array_inv a" "array_cells a = []"
  shows "thread_wf (s\<lparr>thr := kill_threads (set (zombie_seq s)) (thr s), zombies := a\<rparr>)"
proof -
  let ?s = "s\<lparr>thr := kill_threads (set (zombie_seq s)) (thr s), zombies := a\<rparr>"
  have cells: "all_cells ?s = cur_cells s @ ready_seq s @ sleep_seq s"
    using a by (simp add: all_cells_def cur_cells_def ready_seq_def sleep_seq_def zombie_seq_def)
  have "sound (thr ?s) c" if "c \<in> set (all_cells ?s)" for c
  proof -
    have "c \<in> set (all_cells s)" "c \<notin> set (zombie_seq s)"
      using that wf unfolding cells by (auto simp: thread_wf_def all_cells_def)
    moreover from this(1) wf have "sound (thr s) c" by (simp add: thread_wf_def list_all_iff)
    ultimately show ?thesis by (auto simp: sound_def kill_threads_def split: option.splits)
  qed
  moreover have "distinct (all_cells ?s)"
    using wf cells by (auto simp: thread_wf_def all_cells_def)
  ultimately show ?thesis
    using wf a by (simp add: thread_wf_def list_all_iff zombie_seq_def)
qed

text \<open>
  What a context switch does not change: the sizes of the queues, the thread count, the state
  of the other components, and the sleep addresses of the threads in the cells \<open>L\<close>.
\<close>

definition switch_keeps :: "tid option list \<Rightarrow> 'z tsys_scheme \<Rightarrow> 'z tsys_scheme \<Rightarrow> bool" where
  "switch_keeps L s s' \<longleftrightarrow> tsys.more s' = tsys.more s \<and> numthreads s' = numthreads s \<and>
     in_interrupt s' = in_interrupt s \<and>
     q_size (runqueue s') = q_size (runqueue s) \<and> a_max (sleepers s') = a_max (sleepers s) \<and>
     (\<forall>t. Some t \<in> set L \<longrightarrow> map_option t_sleepaddr (thr s' t) = map_option t_sleepaddr (thr s t))"

lemma switch_keeps_asleep:
  "switch_keeps L s s' \<Longrightarrow> c \<in> set L \<Longrightarrow> asleep_on (thr s') a c = asleep_on (thr s) a c"
  by (cases c) (auto simp: switch_keeps_def asleep_on_def split: option.splits)

lemma more_simps [simp]:
  "tsys.more (splx n s) = tsys.more s" "tsys.more (activate_cur s) = tsys.more s"
  "tsys.more (upd_thread t f s) = tsys.more s"
  by (simp_all add: splx_def Let_def activate_cur_def upd_thread_def split: option.split)

text \<open>Coming back from a context switch.\<close>

lemma resume_thread_spec:
  assumes wf: "thread_wf s" and cur: "curthread s = Some n" and spl: "curspl s > 0"
  shows "\<exists>s'. resume_thread n s = Ret () s' \<and> thread_wf s' \<and> curthread s' = Some n \<and>
           runqueue s' = runqueue s \<and> sleepers s' = sleepers s \<and>
           switch_keeps (sleep_seq s) s s' \<and>
           curspl s' = (case t_pcb (the (thr s n)) of R_start \<Rightarrow> 0 | R_yield p \<Rightarrow> p | R_sleep \<Rightarrow> curspl s) \<and>
           zombie_seq s' = (if t_pcb (the (thr s n)) = R_start then zombie_seq s else [])"
proof -
  obtain r where r: "thr s n = Some r" using curthread_sound [OF wf cur] by auto
  have z: "array_inv (zombies s)" "ts_up s" "list_all (disposable (thr s)) (zombie_seq s)"
      "distinct (zombie_seq s)" "curthread s \<notin> set (zombie_seq s)"
    using wf cur by (auto simp: thread_wf_def all_cells_def cur_cells_def)
  obtain a where a: "exorcise s = Ret () (s\<lparr>thr := kill_threads (set (zombie_seq s)) (thr s), zombies := a\<rparr>)"
      "array_inv a" "array_cells a = []"
    using exorcise_spec [OF z(1,2) spl z(3,4,5)] by auto
  let ?s = "s\<lparr>thr := kill_threads (set (zombie_seq s)) (thr s), zombies := a\<rparr>"
  have wf': "thread_wf ?s" using wf_exorcised [OF wf a(2,3)] .
  have sl: "Some t \<notin> set (zombie_seq s)" "t \<noteq> n" if "Some t \<in> set (sleep_seq s)" for t
    using wf cur that by (auto simp: thread_wf_def all_cells_def cur_cells_def)
  have act: "thread_wf (activate_cur ?s)" using wf' by (simp add: thread_wf_cong [of "activate_cur ?s" ?s])
  show ?thesis
  proof (cases "t_pcb r")
    case R_start
    have "thread_wf (splx 0 (activate_cur s))"
      using wf by (simp add: thread_wf_cong [of "splx 0 (activate_cur s)" s])
    with r R_start cur show ?thesis by (simp add: resume_thread_def spl0_def zombie_seq_def switch_keeps_def)
  next
    case (R_yield p)
    have "thread_wf (splx p (activate_cur ?s))"
      using wf' by (simp add: thread_wf_cong [of "splx p (activate_cur ?s)" ?s])
    with r R_yield cur a sl show ?thesis
      by (simp add: resume_thread_def zombie_seq_def switch_keeps_def kill_threads_def)
  next
    case R_sleep
    have "thread_wf (upd_thread n (\<lambda>th. th\<lparr>t_sleepaddr := None\<rparr>) (activate_cur ?s))"
      using act by (rule wf_upd_thread) simp_all
    moreover have "switch_keeps (sleep_seq s) s
        (upd_thread n (\<lambda>th. th\<lparr>t_sleepaddr := None\<rparr>) (activate_cur ?s))"
      using sl by (auto simp: switch_keeps_def) (simp add: upd_thread_def kill_threads_def)
    ultimately show ?thesis
      using r R_sleep cur a by (simp add: resume_thread_def) (simp add: zombie_seq_def)
  qed
qed

lemma scheduler_ready:
  assumes "q_inv (runqueue s)" "rq_up s" "curspl s > 0" "ready_seq s = Some n # rest"
  shows "\<exists>q. scheduler ok evs s = Ret (Some n) (s\<lparr>runqueue := q\<rparr>) \<and> q_inv q \<and> q_seq q = rest \<and>
             q_size q = q_size (runqueue s)"
  using q_remhead_Cons [of "runqueue s" "Some n" rest] q_empty_iff [of "runqueue s"] assms
  by (auto simp: scheduler.simps ready_seq_def)

lemma scheduler_idle:
  "q_inv (runqueue s) \<Longrightarrow> rq_up s \<Longrightarrow> curspl s > 0 \<Longrightarrow> ready_seq s = [] \<Longrightarrow>
   scheduler ok [] s = Ret None s"
  using q_empty_iff [of "runqueue s"] by (simp add: scheduler.simps ready_seq_def)

text \<open>From the scheduler to the resumed thread, with the previous thread already stashed away.\<close>

lemma dispatch_ready:
  assumes wf: "thread_wf s" and idle: "curthread s = None" and spl: "curspl s > 0"
    and rd: "ready_seq s = Some n # rest"
  shows "\<exists>s'. andthen (scheduler ok evs s) (\<lambda>next s. case next of None \<Rightarrow> Ret () s
                 | Some n \<Rightarrow> resume_thread n (s\<lparr>curthread := Some n\<rparr>)) = Ret () s' \<and>
           thread_wf s' \<and> curthread s' = Some n \<and> ready_seq s' = rest \<and>
           sleepers s' = sleepers s \<and> switch_keeps (sleep_seq s) s s' \<and>
           zombie_seq s' = (if t_pcb (the (thr s n)) = R_start then zombie_seq s else [])"
proof -
  obtain q where q: "scheduler ok evs s = Ret (Some n) (s\<lparr>runqueue := q\<rparr>)" "q_inv q" "q_seq q = rest"
      "q_size q = q_size (runqueue s)"
    using scheduler_ready [OF _ _ spl rd, of ok evs] wf by (auto simp: thread_wf_def)
  let ?s = "s\<lparr>runqueue := q, curthread := Some n\<rparr>"
  have "all_cells ?s = all_cells s"
    using rd idle q by (simp add: all_cells_def cur_cells_def ready_seq_def sleep_seq_def zombie_seq_def)
  then have "thread_wf ?s" using wf q by (simp add: thread_wf_def zombie_seq_def)
  from resume_thread_spec [OF this, of n] spl q show ?thesis
    by (auto simp: ready_seq_def zombie_seq_def sleep_seq_def switch_keeps_def)
qed

lemma wf_stash_ready:
  assumes "thread_wf s" "curthread s = Some c" "q_inv q" "q_seq q = ready_seq s @ [Some c]"
  shows "thread_wf (s\<lparr>curthread := None, runqueue := q\<rparr>)"
  using assms
  by (auto simp: thread_wf_def all_cells_def cur_cells_def ready_seq_def sleep_seq_def zombie_seq_def)

lemma wf_stash_sleep:
  assumes "thread_wf s" "curthread s = Some c" "array_inv a" "array_cells a = sleep_seq s @ [Some c]"
  shows "thread_wf (s\<lparr>curthread := None, sleepers := a\<rparr>)"
  using assms
  by (auto simp: thread_wf_def all_cells_def cur_cells_def ready_seq_def sleep_seq_def zombie_seq_def)

lemma wf_stash_zombie:
  assumes "thread_wf s" "curthread s = Some c" "array_inv a" "array_cells a = zombie_seq s @ [Some c]"
    and "disposable (thr s) (Some c)"
  shows "thread_wf (s\<lparr>curthread := None, zombies := a\<rparr>)"
  using assms
  by (auto simp: thread_wf_def all_cells_def cur_cells_def ready_seq_def sleep_seq_def zombie_seq_def)

text \<open>What a context switch leaves behind, in terms of the queues.\<close>

definition switched_to :: "tid \<Rightarrow> tid option list \<Rightarrow> tid option list \<Rightarrow> 'z tsys_scheme \<Rightarrow> bool" where
  "switched_to n rd sl s \<longleftrightarrow>
     thread_wf s \<and> curthread s = Some n \<and> ready_seq s = rd \<and> sleep_seq s = sl"

lemma mi_switch_ready:
  assumes wf: "thread_wf s" and cur: "curthread s = Some c" and spl: "curspl s > 0"
    and room: "length (ready_seq s) + 1 < nat (q_size (runqueue s))"
    and nxt: "ready_seq s @ [Some c] = Some n # rest"
  shows "\<exists>s'. mi_switch ok evs S_READY r s = Ret () s' \<and> switched_to n rest (sleep_seq s) s' \<and>
              switch_keeps (sleep_seq s) s s'"
proof -
  let ?s = "s\<lparr>curthread := None\<rparr>"
  obtain q where q: "make_runnable ok c ?s = Ret () (?s\<lparr>runqueue := q\<rparr>)" "q_inv q"
      "q_seq q = ready_seq s @ [Some c]" "q_size q = q_size (runqueue s)"
    using make_runnable_room [of ?s ok c] wf spl room by (auto simp: thread_wf_def ready_seq_def)
  define s1 where "s1 = upd_thread c (\<lambda>th. th\<lparr>t_pcb := r\<rparr>) (s\<lparr>curthread := None, runqueue := q\<rparr>)"
  have wf1: "thread_wf s1"
    unfolding s1_def using wf_stash_ready [OF wf cur q(2,3)] by (rule wf_upd_thread) simp_all
  obtain s' where "andthen (scheduler ok evs s1) (\<lambda>next s. case next of None \<Rightarrow> Ret () s
                 | Some n \<Rightarrow> resume_thread n (s\<lparr>curthread := Some n\<rparr>)) = Ret () s'"
      "thread_wf s'" "curthread s' = Some n" "ready_seq s' = rest" "sleepers s' = sleepers s1"
      "switch_keeps (sleep_seq s1) s1 s'"
    using dispatch_ready [OF wf1, of n rest ok evs] q nxt spl
    by (auto simp: s1_def) (auto simp: ready_seq_def)
  then show ?thesis
    using curthread_sound [OF wf cur] cur spl q
    by (auto simp: mi_switch_def Let_def s1_def switched_to_def sleep_seq_def switch_keeps_def
          upd_thread_def option.map_comp o_def split: if_splits)
qed

lemma mi_switch_sleep:
  assumes wf: "thread_wf s" and cur: "curthread s = Some c" and spl: "curspl s > 0"
    and room: "a_num (sleepers s) < a_max (sleepers s)"
    and nxt: "ready_seq s = Some n # rest"
  shows "\<exists>s'. mi_switch ok evs S_SLEEP r s = Ret () s' \<and>
              switched_to n rest (sleep_seq s @ [Some c]) s' \<and>
              switch_keeps (sleep_seq s @ [Some c]) s s'"
proof -
  obtain a where a: "array_add ok (sleepers s) c = Ret () a" "array_inv a"
      "array_cells a = sleep_seq s @ [Some c]" "a_max a = a_max (sleepers s)"
    using array_add_room [OF _ room, of ok c] wf by (auto simp: thread_wf_def sleep_seq_def)
  define s1 where "s1 = upd_thread c (\<lambda>th. th\<lparr>t_pcb := r\<rparr>) (s\<lparr>curthread := None, sleepers := a\<rparr>)"
  have wf1: "thread_wf s1"
    unfolding s1_def using wf_stash_sleep [OF wf cur a(2,3)] by (rule wf_upd_thread) simp_all
  obtain s' where "andthen (scheduler ok evs s1) (\<lambda>next s. case next of None \<Rightarrow> Ret () s
                 | Some n \<Rightarrow> resume_thread n (s\<lparr>curthread := Some n\<rparr>)) = Ret () s'"
      "thread_wf s'" "curthread s' = Some n" "ready_seq s' = rest" "sleepers s' = a"
      "switch_keeps (sleep_seq s1) s1 s'"
    using dispatch_ready [OF wf1, of n rest ok evs] a nxt spl
    by (auto simp: s1_def) (auto simp: ready_seq_def)
  then show ?thesis
    using curthread_sound [OF wf cur] cur spl a wf
    by (auto simp: mi_switch_def Let_def s1_def switched_to_def sleep_seq_def thread_wf_def
          switch_keeps_def upd_thread_def option.map_comp o_def split: if_splits)
qed

lemma mi_switch_sleep_idle:
  assumes wf: "thread_wf s" and cur: "curthread s = Some c" and spl: "curspl s > 0"
    and room: "a_num (sleepers s) < a_max (sleepers s)" and nxt: "ready_seq s = []"
  shows "\<exists>s'. mi_switch ok [] S_SLEEP r s = Ret () s' \<and> thread_wf s' \<and> curthread s' = None \<and>
              ready_seq s' = [] \<and> sleep_seq s' = sleep_seq s @ [Some c] \<and>
              switch_keeps (sleep_seq s @ [Some c]) s s'"
proof -
  obtain a where a: "array_add ok (sleepers s) c = Ret () a" "array_inv a"
      "array_cells a = sleep_seq s @ [Some c]" "a_max a = a_max (sleepers s)"
    using array_add_room [OF _ room, of ok c] wf by (auto simp: thread_wf_def sleep_seq_def)
  define s1 where "s1 = upd_thread c (\<lambda>th. th\<lparr>t_pcb := r\<rparr>) (s\<lparr>curthread := None, sleepers := a\<rparr>)"
  have wf1: "thread_wf s1"
    unfolding s1_def using wf_stash_sleep [OF wf cur a(2,3)] by (rule wf_upd_thread) simp_all
  have "scheduler ok [] s1 = Ret None s1"
    using scheduler_idle [of s1 ok] wf1 spl nxt
    by (auto simp: s1_def thread_wf_def) (simp add: ready_seq_def)
  then show ?thesis
    using curthread_sound [OF wf cur] cur spl a wf wf1 nxt
    by (auto simp: mi_switch_def Let_def s1_def thread_wf_def)
       (auto simp: ready_seq_def sleep_seq_def switch_keeps_def upd_thread_def option.map_comp o_def
          split: if_splits)
qed

text \<open>The two ways a thread gives up the processor, from its own point of view.\<close>

lemma thread_yield_spec:
  assumes wf: "thread_wf s" and cur: "curthread s = Some c"
    and room: "length (ready_seq s) + 1 < nat (q_size (runqueue s))"
    and nxt: "ready_seq s @ [Some c] = Some n # rest"
  shows "\<exists>s'. thread_yield ok evs s = Ret () s' \<and> switched_to n rest (sleep_seq s) s' \<and>
              switch_keeps (sleep_seq s) s s'"
proof -
  have "thread_wf (splhigh s)" using wf by (simp add: splhigh_def thread_wf_cong [of "splx 15 s" s])
  from mi_switch_ready [OF this, of c n rest ok evs "R_yield (curspl s)"] assms show ?thesis
    by (simp add: thread_yield_def Let_def splhigh_def ready_seq_def sleep_seq_def thread_wf_def
          switch_keeps_def)
qed

text \<open>The state in which the caller of \<^verbatim>\<open>thread_sleep\<close> has been put to sleep.\<close>

definition slept :: "tid \<Rightarrow> addr \<Rightarrow> 'z tsys_scheme \<Rightarrow> 'z tsys_scheme \<Rightarrow> bool" where
  "slept c a s s' \<longleftrightarrow> thread_wf s' \<and> sleep_seq s' = sleep_seq s @ [Some c] \<and>
     cur_cells s' @ ready_seq s' = ready_seq s \<and>
     switch_keeps (sleep_seq s @ [Some c]) (upd_thread c (\<lambda>th. th\<lparr>t_sleepaddr := Some a\<rparr>) s) s'"

lemma thread_sleep_spec:
  assumes wf: "thread_wf s" and cur: "curthread s = Some c" and spl: "curspl s > 0"
    and ni: "\<not> in_interrupt s" and room: "a_num (sleepers s) < a_max (sleepers s)"
  shows "\<exists>s'. thread_sleep ok [] addr s = Ret () s' \<and> slept c addr s s'"
proof -
  let ?s = "upd_thread c (\<lambda>th. th\<lparr>t_sleepaddr := Some addr\<rparr>) s"
  have wf': "thread_wf ?s" using wf by (rule wf_upd_thread) simp_all
  have sn: "list_all (sound (thr s)) (ready_seq s)"
    using wf by (simp add: thread_wf_def all_cells_def)
  show ?thesis
  proof (cases "ready_seq s")
    case Nil
    then show ?thesis
      using mi_switch_sleep_idle [OF wf', of c ok R_sleep] cur spl ni room
      by (auto simp: thread_sleep_def slept_def cur_cells_def)
  next
    case (Cons x rest)
    then obtain n where n: "ready_seq s = Some n # rest"
      using sn by (auto simp: sound_def split: option.splits)
    then show ?thesis
      using mi_switch_sleep [OF wf', of c n rest ok "[]" R_sleep] cur spl ni room
      by (auto simp: thread_sleep_def slept_def cur_cells_def switched_to_def)
  qed
qed

lemma thread_wakeup_wf:
  assumes wf: "thread_wf s" and spl: "curspl s > 0"
    and room: "length (ready_seq s) + length (sleep_seq s) < nat (q_size (runqueue s))"
    and "thread_wakeup ok addr s = Ret () s'"
  shows "thread_wf s'"
proof -
  obtain a q where aq: "thread_wakeup ok addr s = Ret () (s\<lparr>sleepers := a, runqueue := q\<rparr>)"
      "array_inv a" "q_inv q"
      "array_cells a = filter (\<lambda>c. \<not> asleep_on (thr s) addr c) (sleep_seq s)"
      "q_seq q = ready_seq s @ filter (asleep_on (thr s) addr) (sleep_seq s)"
    using thread_wakeup_spec [OF thread_wf_queues [OF wf] spl room] by blast
  have eq: "s' = s\<lparr>sleepers := a, runqueue := q\<rparr>" using aq(1) assms(4) by simp
  show ?thesis using wf aq(2-) unfolding eq
    by (auto simp: thread_wf_def all_cells_def cur_cells_def ready_seq_def sleep_seq_def
          zombie_seq_def list_all_iff)
qed

section \<open>Running out of preallocated room\<close>

lemma mi_switch_ready_full:
  assumes wf: "thread_wf s" and cur: "curthread s = Some c" and spl: "curspl s > 0"
    and full: "length (ready_seq s) + 1 = nat (q_size (runqueue s))" "q_size (runqueue s) + 1 < 2 ^ 29"
  shows "mi_switch False evs S_READY r s = Panic"
proof -
  have "make_runnable False c (s\<lparr>curthread := None\<rparr>) = Err ENOMEM (s\<lparr>curthread := None\<rparr>)"
    using q_addtail_nomem [of "runqueue s" "Some c"] full wf spl
    by (simp add: make_runnable_def thread_wf_def ready_seq_def)
  then show ?thesis
    using curthread_sound [OF wf cur] cur spl by (simp add: mi_switch_def Let_def)
qed

lemma mi_switch_zombie_full:
  assumes wf: "thread_wf s" and cur: "curthread s = Some c" and spl: "curspl s > 0"
    and full: "a_num (zombies s) = a_max (zombies s)" "a_num (zombies s) + 1 < 2 ^ 29"
  shows "mi_switch False evs S_ZOMB r s = Panic"
proof -
  have "array_add False (zombies s) c = Err ENOMEM (zombies s)"
    using array_add_nomem [of "zombies s" c] full wf by (simp add: thread_wf_def)
  then show ?thesis
    using curthread_sound [OF wf cur] cur spl wf by (simp add: mi_switch_def Let_def thread_wf_def)
qed

section \<open>Fairness\<close>

lemma thread_yields:
  assumes "thread_wf s" "curthread s = Some c"
    and "length (ready_seq s) + 1 < nat (q_size (runqueue s))"
  shows "\<exists>s' c'. ((\<lambda>r. andthen r (\<lambda>_. thread_yield ok evs)) ^^ k) (Ret () s) = Ret () s' \<and>
           thread_wf s' \<and> curthread s' = Some c' \<and>
           Some c' # ready_seq s' = rotate k (Some c # ready_seq s) \<and> sleep_seq s' = sleep_seq s"
  using assms
proof (induction k arbitrary: s c)
  case (Suc k)
  have "list_all (sound (thr s)) (ready_seq s @ [Some c])"
    using Suc.prems by (auto simp: thread_wf_def all_cells_def cur_cells_def)
  then obtain n rest where n: "ready_seq s @ [Some c] = Some n # rest"
    by (cases "ready_seq s @ [Some c]") (auto simp: sound_def split: option.splits)
  obtain s1 where s1: "thread_yield ok evs s = Ret () s1" "switched_to n rest (sleep_seq s) s1"
      "q_size (runqueue s1) = q_size (runqueue s)"
    using thread_yield_spec [OF Suc.prems n, of ok evs] by (auto simp: switch_keeps_def)
  have "length rest = length (ready_seq s)" using arg_cong [OF n, of length] by simp
  then obtain s' c' where
    "((\<lambda>r. andthen r (\<lambda>_. thread_yield ok evs)) ^^ k) (Ret () s1) = Ret () s'" "thread_wf s'"
    "curthread s' = Some c'" "Some c' # ready_seq s' = rotate k (Some n # rest)"
    "sleep_seq s' = sleep_seq s"
    using Suc.IH [of s1 n] s1 Suc.prems by (auto simp: switched_to_def)
  moreover have "rotate (Suc k) (Some c # ready_seq s) = rotate k (Some n # rest)"
    using n by (simp add: rotate1_rotate_swap)
  ultimately show ?case using s1(1) by (simp add: funpow_Suc_right del: funpow.simps)
qed simp

section \<open>Properties\<close>

text \<open>
  A sample system for the witnesses: thread 0 runs, the next \<open>r\<close> threads are ready, and \<open>k\<close> more
  sleep on address 7; the ring and the array of sleepers have \<open>sz\<close> cells.
\<close>

definition sample_thread :: "addr option \<Rightarrow> thread" where
  "sample_thread a = \<lparr>t_pcb = R_yield 0, t_name = ''sample'', t_sleepaddr = a, t_stack = None, t_pid = 0,
     t_vmspace = None, t_cwd = None\<rparr>"

definition sample_sys :: "nat \<Rightarrow> nat \<Rightarrow> nat \<Rightarrow> 'z \<Rightarrow> 'z tsys_scheme" where
  "sample_sys r k sz z = \<lparr>curthread = Some 0,
     thr = (\<lambda>t. if t \<le> r then Some (sample_thread None) else if t \<le> r + k then Some (sample_thread (Some 7)) else None),
     sleepers = \<lparr>a_num = int k, a_max = int sz, a_v = Some (map Some [r + 1..<r + 1 + k] @ replicate (sz - k) None)\<rparr>,
     zombies = \<lparr>a_num = 0, a_max = 0, a_v = None\<rparr>, ts_up = True, numthreads = int (1 + r + k),
     runqueue = \<lparr>q_size = int sz, q_nextwrite = int r, q_nextread = 0,
                 q_data = map Some [1..<1 + r] @ replicate (sz - r) None\<rparr>,
     rq_up = True, curspl = 0, ints_on = True, in_interrupt = False, as_active = None, lbolt_counter = 0, \<dots> = z\<rparr>"

lemma sample_seqs:
  assumes "r < sz" "k \<le> sz"
  shows "ready_seq (sample_sys r k sz z) = map Some [1..<1 + r]"
    "sleep_seq (sample_sys r k sz z) = map Some [r + 1..<r + 1 + k]" "zombie_seq (sample_sys r k sz z) = []"
  using assms by (simp_all add: sample_sys_def ready_seq_def sleep_seq_def zombie_seq_def q_seq_def q_count_def array_cells_def)

lemma sample_wf:
  assumes "r < sz" "k \<le> sz" "sz < 2 ^ 30"
  shows "thread_wf (sample_sys r k sz z)"
proof -
  let ?s = "sample_sys r k sz z"
  have "all_cells ?s = map Some ([0] @ [1..<1 + r] @ [r + 1..<r + 1 + k])"
    using sample_seqs [OF assms(1,2), of z] by (simp add: all_cells_def cur_cells_def sample_sys_def)
  also have "[0] @ [1..<1 + r] @ [r + 1..<r + 1 + k] = [0..<r + 1 + k]"
    using upt_add_eq_append [of 0 "r + 1" k] upt_conv_Cons [of 0 "r + 1"] by simp
  finally have cells: "all_cells ?s = map Some [0..<r + 1 + k]" .
  have "list_all (sound (thr ?s)) (all_cells ?s)"
    unfolding cells by (auto simp: list_all_iff sound_def sample_sys_def sample_thread_def)
  moreover have "distinct (all_cells ?s)" unfolding cells by (simp add: distinct_map del: upt_Suc)
  ultimately show ?thesis
    using assms sample_seqs [OF assms(1,2), of z]
    by (simp add: thread_wf_def) (simp add: sample_sys_def array_inv_def q_inv_def del: upt_Suc)
qed

lemma sample_fields [simp]:
  "curthread (sample_sys r k sz z) = Some 0" "q_size (runqueue (sample_sys r k sz z)) = int sz"
  "a_max (sleepers (sample_sys r k sz z)) = int sz" "numthreads (sample_sys r k sz z) = int (1 + r + k)"
  "curspl (sample_sys r k sz z) = 0"
  by (simp_all add: sample_sys_def)

text \<open>
  C19. \<^verbatim>\<open>thread_wakeup\<close> moves exactly the threads asleep on the address to the run queue, in the order
  in which they went to sleep, and leaves the other sleepers in their order, if the run queue has room for
  all sleepers.
\<close>

theorem thread_wakeup_exact:
  assumes "thread_wf s" "curspl s > 0"
    and "length (ready_seq s) + length (sleep_seq s) < nat (q_size (runqueue s))"
  shows "\<exists>s'. thread_wakeup ok addr s = Ret () s' \<and> thread_wf s' \<and> curthread s' = curthread s \<and>
           sleep_seq s' = filter (\<lambda>c. \<not> asleep_on (thr s) addr c) (sleep_seq s) \<and>
           ready_seq s' = ready_seq s @ filter (asleep_on (thr s) addr) (sleep_seq s)"
proof -
  obtain a q where w: "thread_wakeup ok addr s = Ret () (s\<lparr>sleepers := a, runqueue := q\<rparr>)"
      "array_cells a = filter (\<lambda>c. \<not> asleep_on (thr s) addr c) (sleep_seq s)"
      "q_seq q = ready_seq s @ filter (asleep_on (thr s) addr) (sleep_seq s)"
    using thread_wakeup_spec [OF thread_wf_queues [OF assms(1)] assms(2,3)] by blast
  then show ?thesis
    using thread_wakeup_wf [OF assms w(1)] by (simp add: ready_seq_def sleep_seq_def)
qed

theorem thread_wakeup_exact_witness:
  "\<exists>s'. thread_wakeup False 7 (splhigh (sample_sys 1 2 8 ())) = Ret () s' \<and>
        ready_seq s' = map Some [1, 2, 3] \<and> sleep_seq s' = []"
proof -
  let ?s = "splhigh (sample_sys 1 2 8 ())"
  have wf: "thread_wf ?s" using sample_wf [of 1 8 2 "()"] thread_wf_cong [of ?s "sample_sys 1 2 8 ()"]
    by (simp add: splhigh_def)
  have sq: "ready_seq ?s = map Some [1]" "sleep_seq ?s = map Some [2, 3]"
    using sample_seqs [of 1 8 2 "()"] by (simp_all add: splhigh_def ready_seq_def sleep_seq_def upt_rec)
  have "asleep_on (thr ?s) 7 (Some 2)" "asleep_on (thr ?s) 7 (Some 3)"
    by (simp_all add: splhigh_def asleep_on_def sample_sys_def sample_thread_def)
  with thread_wakeup_exact [OF wf, where ok = False and addr = 7] sq show ?thesis by (auto simp: splhigh_def)
qed

text \<open>
  C18. Round robin: after \<open>k\<close> calls of \<^verbatim>\<open>thread_yield\<close> the running thread and the run queue are the
  initial ones rotated by \<open>k\<close>, so that every ready thread runs once within as many yields as there
  are threads; no yield panics as long as the ring has a spare cell.
\<close>

theorem thread_yield_round_robin:
  assumes "thread_wf s" "curthread s = Some c" "length (ready_seq s) + 1 < nat (q_size (runqueue s))"
  shows "\<exists>s' c'. ((\<lambda>r. andthen r (\<lambda>_. thread_yield ok evs)) ^^ k) (Ret () s) = Ret () s' \<and>
           thread_wf s' \<and> curthread s' = Some c' \<and>
           Some c' # ready_seq s' = rotate k (Some c # ready_seq s) \<and> sleep_seq s' = sleep_seq s"
  using assms by (rule thread_yields)

theorem thread_yield_round_robin_witness:
  "\<exists>s'. ((\<lambda>r. andthen r (\<lambda>_. thread_yield False [])) ^^ 2) (Ret () (sample_sys 2 0 8 ())) = Ret () s' \<and>
        curthread s' = Some 2 \<and> ready_seq s' = [Some 0, Some 1]"
  using thread_yield_round_robin [OF sample_wf [of 2 8 0 "()"] sample_fields(1), where ok = False and evs = "[]" and k = 2]
    sample_seqs [of 2 8 0 "()"] by (auto simp: upt_rec rotate_drop_take)

text \<open>
  C31. A ring with as many cells as there are threads is not enough: when all of them are ready or
  running and no memory can be had, \<^verbatim>\<open>thread_yield\<close> panics.
\<close>

theorem yield_needs_spare_cell:
  assumes "thread_wf s" "curthread s = Some c"
    and "length (ready_seq s) + 1 = nat (q_size (runqueue s))" "q_size (runqueue s) + 1 < 2 ^ 29"
  shows "thread_yield False evs s = Panic"
proof -
  have "thread_wf (splhigh s)" using assms(1) thread_wf_cong [of "splhigh s" s] by (simp add: splhigh_def)
  then have "mi_switch False evs S_READY (R_yield (curspl s)) (splhigh s) = Panic"
    using assms by (intro mi_switch_ready_full) (simp_all add: splhigh_def ready_seq_def)
  then show ?thesis using assms by (simp add: thread_yield_def Let_def splhigh_def thread_wf_def)
qed

theorem yield_needs_spare_cell_witness:
  "numthreads (sample_sys 31 0 32 ()) = q_size (runqueue (sample_sys 31 0 32 ())) \<and>
   thread_yield False [] (sample_sys 31 0 32 ()) = Panic"
  using yield_needs_spare_cell [OF sample_wf [of 31 32 0 "()"] sample_fields(1), where evs = "[]"]
    sample_seqs [of 31 32 0 "()"] by (simp del: upt_Suc)

text \<open>
  C32. Destroying the zombies drops the cells that were preallocated for later ones when there were
  more than 16: the next thread that exits then needs memory, and panics without it.
\<close>

theorem exorcise_drops_preallocation:
  assumes "thread_wf s" "curthread s = Some c" "curspl s > 0" "a_max (zombies s) > 16"
  shows "\<exists>s'. exorcise s = Ret () s' \<and> thread_wf s' \<and> mi_switch False evs S_ZOMB r s' = Panic"
proof -
  obtain a where a: "exorcise s = Ret () (s\<lparr>thr := kill_threads (set (zombie_seq s)) (thr s), zombies := a\<rparr>)"
      "array_inv a" "array_cells a = []" "a_max a = 0"
    using exorcise_spec [of s] assms by (auto simp: thread_wf_def all_cells_def cur_cells_def)
  let ?s = "s\<lparr>thr := kill_threads (set (zombie_seq s)) (thr s), zombies := a\<rparr>"
  have wf: "thread_wf ?s" using wf_exorcised [OF assms(1) a(2,3)] .
  have "a_num a = 0" using a(2,4) by (simp add: array_inv_def)
  then have "mi_switch False evs S_ZOMB r ?s = Panic"
    using assms a by (intro mi_switch_zombie_full [OF wf]) simp_all
  with a(1) wf show ?thesis by blast
qed

theorem exorcise_drops_preallocation_witness:
  "\<exists>s'. exorcise ((splhigh (sample_sys 0 0 32 ()))\<lparr>zombies := \<lparr>a_num = 0, a_max = 32, a_v = Some (replicate 32 None)\<rparr>\<rparr>) = Ret () s' \<and>
        mi_switch False [] S_ZOMB R_sleep s' = Panic"
proof -
  let ?z = "\<lparr>a_num = 0, a_max = 32, a_v = Some (replicate 32 None)\<rparr> :: tid karray"
  let ?s = "(splhigh (sample_sys 0 0 32 ()))\<lparr>zombies := ?z\<rparr>"
  have "thread_wf (sample_sys 0 0 32 ())" by (rule sample_wf) simp_all
  then have "thread_wf ?s"
    by (auto simp: thread_wf_def all_cells_def cur_cells_def splhigh_def ready_seq_def sleep_seq_def
          zombie_seq_def array_inv_def array_cells_def)
  from exorcise_drops_preallocation [OF this, where c = 0 and evs = "[]" and r = R_sleep] show ?thesis by (auto simp: splhigh_def)
qed

end
