(* ===== verification/Synch.thy ===== *)
theory Synch
  imports Threads
begin

text \<open>
  The synchronization primitives of \<^verbatim>\<open>kern/thread/synch.c\<close> on top of the thread system:
  semaphores, locks and condition variables.  A blocking primitive is modelled up to the
  point where it either finishes (\<open>True\<close>) or has put its caller to sleep and switched away
  (\<open>False\<close>); a sleeping caller re-enters the waiting loop when it runs again.
\<close>

section \<open>State\<close>

record semaphore =
  s_count :: int

text \<open>The objects by address; a sleep address is the address of one of these objects.\<close>

record ksys = tsys +
  sems :: "addr \<Rightarrow> semaphore option"
  locks :: "addr \<Rightarrow> lock option"
  cvs :: "addr set"

section \<open>Semaphores\<close>

text \<open>\<open>a\<close> is the address returned by \<^verbatim>\<open>kmalloc\<close>; \<open>ok1\<close>, \<open>ok2\<close> whether the two allocations succeed.\<close>

definition sem_create ::
  "bool \<Rightarrow> bool \<Rightarrow> addr \<Rightarrow> int \<Rightarrow> 'z ksys_scheme \<Rightarrow> ('z ksys_scheme, addr option) outcome" where
  "sem_create ok1 ok2 a initial_count s =
     kassert (initial_count \<ge> 0)
      (if \<not> ok1 then Ret None s
       else if \<not> ok2 then Ret None s
       else Ret (Some a) (s\<lparr>sems := (sems s)(a \<mapsto> \<lparr>s_count = initial_count\<rparr>)\<rparr>))"

definition sem_destroy :: "addr \<Rightarrow> 'z ksys_scheme \<Rightarrow> ('z ksys_scheme, unit) outcome" where
  "sem_destroy a s =
     (let spl = curspl s in
      andthen (thread_hassleepers a (splhigh s))
       (\<lambda>b s. kassert (\<not> b) (Ret () ((splx spl s)\<lparr>sems := (sems s)(a := None)\<rparr>))))"

text \<open>The loop of \<^verbatim>\<open>P\<close>, entered with interrupts off; \<open>spl\<close> is the level to restore.\<close>

definition P_loop ::
  "bool \<Rightarrow> addr option list \<Rightarrow> addr \<Rightarrow> int \<Rightarrow> 'z ksys_scheme \<Rightarrow> ('z ksys_scheme, bool) outcome" where
  "P_loop ok evs a spl s =
     (case sems s a of None \<Rightarrow> Undef
      | Some sem \<Rightarrow>
          if s_count sem = 0 then andthen (thread_sleep ok evs a s) (\<lambda>_ s. Ret False s)
          else kassert (s_count sem > 0)
            (Ret True (splx spl (s\<lparr>sems := (sems s)(a \<mapsto> sem\<lparr>s_count := s_count sem - 1\<rparr>)\<rparr>))))"

definition P_sem :: "bool \<Rightarrow> addr option list \<Rightarrow> addr \<Rightarrow> 'z ksys_scheme \<Rightarrow> ('z ksys_scheme, bool) outcome" where
  "P_sem ok evs a s =
     kassert (\<not> in_interrupt s) (P_loop ok evs a (curspl s) (splhigh s))"

definition V_sem :: "bool \<Rightarrow> addr \<Rightarrow> 'z ksys_scheme \<Rightarrow> ('z ksys_scheme, unit) outcome" where
  "V_sem ok a s =
     (let spl = curspl s; s = splhigh s in
      case sems s a of None \<Rightarrow> Undef
      | Some sem \<Rightarrow>
          (let count = int_wrap (s_count sem + 1);
               s = s\<lparr>sems := (sems s)(a \<mapsto> sem\<lparr>s_count := count\<rparr>)\<rparr>
           in kassert (count > 0)
                (andthen (thread_wakeup ok a s) (\<lambda>_ s. Ret () (splx spl s)))))"

section \<open>Locks\<close>

text \<open>
  \<^verbatim>\<open>lock_create\<close> stores nothing in \<^verbatim>\<open>held\<close> and \<^verbatim>\<open>pointer\<close>: they keep what the fresh memory
  contains (\<open>junk\<close>).
\<close>

definition lock_create ::
  "bool \<Rightarrow> bool \<Rightarrow> addr \<Rightarrow> lock \<Rightarrow> 'z ksys_scheme \<Rightarrow> ('z ksys_scheme, addr option) outcome" where
  "lock_create ok1 ok2 a junk s =
     (if \<not> ok1 then Ret None s
      else if \<not> ok2 then Ret None s
      else Ret (Some a) (s\<lparr>locks := (locks s)(a \<mapsto> junk)\<rparr>))"

definition lock_destroy :: "addr \<Rightarrow> 'z ksys_scheme \<Rightarrow> ('z ksys_scheme, unit) outcome" where
  "lock_destroy a s = defined_if (locks s a \<noteq> None) (Ret () (s\<lparr>locks := (locks s)(a := None)\<rparr>))"

definition lock_do_i_hold :: "addr \<Rightarrow> 'z ksys_scheme \<Rightarrow> ('z ksys_scheme, bool) outcome" where
  "lock_do_i_hold a s =
     (case locks s a of None \<Rightarrow> Undef | Some l \<Rightarrow> Ret (l_pointer l = curthread s) s)"

definition lock_loop ::
  "bool \<Rightarrow> addr option list \<Rightarrow> addr \<Rightarrow> int \<Rightarrow> 'z ksys_scheme \<Rightarrow> ('z ksys_scheme, bool) outcome" where
  "lock_loop ok evs a spl s =
     (case locks s a of None \<Rightarrow> Undef
      | Some l \<Rightarrow>
          if l_held l \<noteq> 0 then andthen (thread_sleep ok evs a s) (\<lambda>_ s. Ret False s)
          else Ret True (splx spl
                 (s\<lparr>locks := (locks s)(a \<mapsto> l\<lparr>l_held := 1, l_pointer := curthread s\<rparr>)\<rparr>)))"

definition lock_acquire ::
  "bool \<Rightarrow> addr option list \<Rightarrow> addr \<Rightarrow> 'z ksys_scheme \<Rightarrow> ('z ksys_scheme, bool) outcome" where
  "lock_acquire ok evs a s =
     andthen (lock_do_i_hold a s)
       (\<lambda>h s. kassert (\<not> h) (lock_loop ok evs a (curspl s) (splhigh s)))"

definition lock_release :: "bool \<Rightarrow> addr \<Rightarrow> 'z ksys_scheme \<Rightarrow> ('z ksys_scheme, unit) outcome" where
  "lock_release ok a s =
     (let spl = curspl s; s = splhigh s in
      case locks s a of None \<Rightarrow> Undef
      | Some l \<Rightarrow>
          andthen (thread_wakeup ok a (s\<lparr>locks := (locks s)(a \<mapsto> l\<lparr>l_held := 0\<rparr>)\<rparr>))
            (\<lambda>_ s. Ret () (splx spl
               (s\<lparr>locks := (locks s)(a \<mapsto> l\<lparr>l_held := 0, l_pointer := None\<rparr>)\<rparr>))))"

section \<open>Condition variables\<close>

definition cv_create :: "bool \<Rightarrow> bool \<Rightarrow> addr \<Rightarrow> 'z ksys_scheme \<Rightarrow> ('z ksys_scheme, addr option) outcome" where
  "cv_create ok1 ok2 a s =
     (if \<not> ok1 then Ret None s
      else if \<not> ok2 then Ret None s
      else Ret (Some a) (s\<lparr>cvs := insert a (cvs s)\<rparr>))"

definition cv_destroy :: "addr \<Rightarrow> 'z ksys_scheme \<Rightarrow> ('z ksys_scheme, unit) outcome" where
  "cv_destroy a s = defined_if (a \<in> cvs s) (Ret () (s\<lparr>cvs := cvs s - {a}\<rparr>))"

text \<open>
  \<^verbatim>\<open>cv_wait\<close> up to \<^verbatim>\<open>thread_sleep(cv)\<close>; when the caller runs again it continues with
  \<open>cv_wait_rest\<close>, which re-acquires the lock and restores the level saved at the start.
\<close>

definition cv_wait ::
  "bool \<Rightarrow> addr option list \<Rightarrow> addr \<Rightarrow> addr \<Rightarrow> 'z ksys_scheme \<Rightarrow> ('z ksys_scheme, unit) outcome" where
  "cv_wait ok evs cv lk s =
     andthen (lock_do_i_hold lk s)
       (\<lambda>h s. kassert h
          (andthen (lock_release ok lk (splhigh s)) (\<lambda>_ s. thread_sleep ok evs cv s)))"

definition cv_wait_rest ::
  "bool \<Rightarrow> addr option list \<Rightarrow> addr \<Rightarrow> int \<Rightarrow> 'z ksys_scheme \<Rightarrow> ('z ksys_scheme, bool) outcome" where
  "cv_wait_rest ok evs lk spl s =
     andthen (lock_acquire ok evs lk s) (\<lambda>got s. Ret got (if got then splx spl s else s))"

definition cv_signal :: "bool \<Rightarrow> addr \<Rightarrow> addr \<Rightarrow> 'z ksys_scheme \<Rightarrow> ('z ksys_scheme, unit) outcome" where
  "cv_signal ok cv lk s =
     (let spl = curspl s in
      andthen (wakeup_single_thread ok cv (splhigh s)) (\<lambda>_ s. Ret () (splx spl s)))"

definition cv_broadcast :: "bool \<Rightarrow> addr \<Rightarrow> addr \<Rightarrow> 'z ksys_scheme \<Rightarrow> ('z ksys_scheme, unit) outcome" where
  "cv_broadcast ok cv lk s =
     (let spl = curspl s in
      andthen (thread_wakeup ok cv (splhigh s)) (\<lambda>_ s. Ret () (splx spl s)))"

text \<open>\<^verbatim>\<open>clocksleep\<close>: one iteration of the loop; the caller continues with \<open>num_secs - 1\<close>.\<close>

definition clocksleep_iter ::
  "bool \<Rightarrow> addr option list \<Rightarrow> addr \<Rightarrow> int \<Rightarrow> int \<Rightarrow> 'z ksys_scheme \<Rightarrow> ('z ksys_scheme, bool) outcome" where
  "clocksleep_iter ok evs lbolt num_secs spl s =
     (if num_secs > 0 then andthen (thread_sleep ok evs lbolt s) (\<lambda>_ s. Ret False s)
      else Ret True (splx spl s))"

section \<open>Invariant\<close>

text \<open>Nobody sleeps on an address.\<close>

definition nobody :: "'z tsys_scheme \<Rightarrow> addr \<Rightarrow> bool" where
  "nobody s a \<longleftrightarrow> (\<forall>c\<in>set (sleep_seq s). \<not> asleep_on (thr s) a c)"

text \<open>There is preallocated room for every thread in the run queue and in the sleepers.\<close>

definition capacity_ok :: "'z tsys_scheme \<Rightarrow> bool" where
  "capacity_ok s \<longleftrightarrow>
     length (cur_cells s) + length (ready_seq s) + length (sleep_seq s) < nat (q_size (runqueue s)) \<and>
     length (cur_cells s) + length (ready_seq s) + length (sleep_seq s) \<le> nat (a_max (sleepers s))"

text \<open>
  The state of the objects, given who sleeps and \<open>g\<close>, the threads that have acquired each lock
  and not released it: a semaphore with a positive count and a free lock have no sleepers, a
  held lock has exactly one owner, which is the one \<^verbatim>\<open>pointer\<close> names.
\<close>

definition sem_ok :: "bool \<Rightarrow> semaphore \<Rightarrow> bool" where
  "sem_ok nobd sem \<longleftrightarrow> 0 \<le> s_count sem \<and> s_count sem \<le> INT_MAX \<and> (0 < s_count sem \<longrightarrow> nobd)"

definition lock_ok :: "bool \<Rightarrow> lock \<Rightarrow> tid set \<Rightarrow> bool" where
  "lock_ok nobd l G \<longleftrightarrow> (if l_held l = 0 then l_pointer l = None \<and> nobd \<and> G = {}
     else \<exists>t. l_pointer l = Some t \<and> G = {t})"

definition objs_inv ::
  "(addr \<Rightarrow> bool) \<Rightarrow> (addr \<Rightarrow> semaphore option) \<Rightarrow> (addr \<Rightarrow> lock option) \<Rightarrow> addr set \<Rightarrow>
   (addr \<Rightarrow> tid set) \<Rightarrow> bool" where
  "objs_inv nobd sm lk cv g \<longleftrightarrow>
     dom sm \<inter> dom lk = {} \<and> dom sm \<inter> cv = {} \<and> dom lk \<inter> cv = {} \<and>
     (\<forall>a sem. sm a = Some sem \<longrightarrow> sem_ok (nobd a) sem) \<and>
     (\<forall>a l. lk a = Some l \<longrightarrow> lock_ok (nobd a) l (g a))"

lemma sem_ok_mono: "sem_ok b sem \<Longrightarrow> (b \<Longrightarrow> b') \<Longrightarrow> sem_ok b' sem"
  by (simp add: sem_ok_def)

lemma lock_ok_mono: "lock_ok b l G \<Longrightarrow> (b \<Longrightarrow> b') \<Longrightarrow> lock_ok b' l G"
  by (simp add: lock_ok_def split: if_splits)

definition sync_inv :: "'z ksys_scheme \<Rightarrow> (addr \<Rightarrow> tid set) \<Rightarrow> bool" where
  "sync_inv s g \<longleftrightarrow> thread_wf s \<and> capacity_ok s \<and> objs_inv (nobody s) (sems s) (locks s) (cvs s) g"

section \<open>The effect of sleeping and waking on the objects\<close>

lemma more_objs:
  "tsys.more s = tsys.more s' \<Longrightarrow> sems s = sems s' \<and> locks s = locks s' \<and> cvs s = cvs s'"
  by (cases s; cases s') simp

lemma sync_simps [simp]:
  "sems (splx n s) = sems s" "locks (splx n s) = locks s" "cvs (splx n s) = cvs s"
  by (simp_all add: splx_def Let_def)

lemma nobody_splx [simp]: "nobody (splx n s) = nobody s"
  by (simp add: nobody_def sleep_seq_def fun_eq_iff)

lemma capacity_ok_splx [simp]: "capacity_ok (splx n s) = capacity_ok s"
  by (simp add: capacity_ok_def cur_cells_def ready_seq_def sleep_seq_def)

lemma thread_wf_splx [simp]: "thread_wf (splx n s) = thread_wf s"
  by (rule thread_wf_cong) simp_all

lemma sync_inv_splx [simp]: "sync_inv (splx n s) g = sync_inv s g"
  by (simp add: sync_inv_def)

lemma nobody_objs [simp]:
  "nobody (s\<lparr>sems := x\<rparr>) = nobody s" "nobody (s\<lparr>locks := y\<rparr>) = nobody s"
  by (simp_all add: nobody_def sleep_seq_def fun_eq_iff)

lemma capacity_objs [simp]:
  "capacity_ok (s\<lparr>sems := x\<rparr>) = capacity_ok s" "capacity_ok (s\<lparr>locks := y\<rparr>) = capacity_ok s"
  by (simp_all add: capacity_ok_def cur_cells_def ready_seq_def sleep_seq_def)

lemma thread_wf_objs [simp]:
  "thread_wf (s\<lparr>sems := x\<rparr>) = thread_wf s" "thread_wf (s\<lparr>locks := y\<rparr>) = thread_wf s"
  by (rule thread_wf_cong; simp)+

lemma slept_nobody:
  assumes "slept c a s s'" "b \<noteq> a" "nobody s b"
  shows "nobody s' b"
proof -
  let ?u = "upd_thread c (\<lambda>th. th\<lparr>t_sleepaddr := Some a\<rparr>) s"
  have "asleep_on (thr s') b x = asleep_on (thr ?u) b x" if "x \<in> set (sleep_seq s')" for x
    using assms(1) that by (intro switch_keeps_asleep) (auto simp: slept_def)
  moreover have "\<not> asleep_on (thr ?u) b x" if "x \<in> set (sleep_seq s')" for x
    using assms that
    by (auto simp: slept_def nobody_def asleep_on_def upd_thread_def split: option.splits)
  ultimately show ?thesis by (simp add: nobody_def)
qed

lemma slept_keeps:
  assumes "slept c a s s'" "curthread s = Some c"
  shows "sems s' = sems s" "locks s' = locks s" "cvs s' = cvs s" "capacity_ok s' = capacity_ok s"
    "thread_wf s'"
proof -
  have m: "tsys.more s' = tsys.more s" using assms(1) by (simp add: slept_def switch_keeps_def)
  show "sems s' = sems s" "locks s' = locks s" "cvs s' = cvs s" using more_objs [OF m] by simp_all
  have l: "length (cur_cells s') + length (ready_seq s') = length (ready_seq s)"
    using assms(1) unfolding slept_def by (metis length_append)
  show "capacity_ok s' = capacity_ok s"
    using assms l by (simp add: capacity_ok_def slept_def switch_keeps_def cur_cells_def [of s])
  show "thread_wf s'" using assms(1) by (simp add: slept_def)
qed

text \<open>Thread \<open>c\<close> is in the list of sleepers, with \<open>a\<close> as the address it sleeps on.\<close>

definition sleeps_on :: "'z tsys_scheme \<Rightarrow> addr \<Rightarrow> tid \<Rightarrow> bool" where
  "sleeps_on s a c \<longleftrightarrow> Some c \<in> set (sleep_seq s) \<and> asleep_on (thr s) a (Some c)"

lemma slept_sleeps_on:
  assumes "slept c a s s'" "thread_wf s" "curthread s = Some c"
  shows "sleeps_on s' a c"
proof -
  let ?u = "upd_thread c (\<lambda>th. th\<lparr>t_sleepaddr := Some a\<rparr>) s"
  have "thr s c \<noteq> None" using assms(2,3) by (auto simp: thread_wf_def all_cells_def cur_cells_def sound_def split: option.splits)
  then have "asleep_on (thr ?u) a (Some c)" by (auto simp: asleep_on_def upd_thread_def)
  then have "asleep_on (thr s') a (Some c)"
    using assms(1) switch_keeps_asleep [of "sleep_seq s @ [Some c]" ?u s' "Some c" a] by (simp add: slept_def)
  then show ?thesis using assms(1) by (simp add: sleeps_on_def slept_def)
qed

text \<open>All sleepers of \<open>a\<close>, and no others, have become ready, in order.\<close>

definition woken :: "addr \<Rightarrow> 'z tsys_scheme \<Rightarrow> 'z tsys_scheme \<Rightarrow> bool" where
  "woken a s s' \<longleftrightarrow> sleep_seq s' = filter (\<lambda>c. \<not> asleep_on (thr s) a c) (sleep_seq s) \<and>
     ready_seq s' = ready_seq s @ filter (asleep_on (thr s) a) (sleep_seq s) \<and> curthread s' = curthread s"

lemma woken_cong:
  "woken a s t \<Longrightarrow> sleep_seq s' = sleep_seq s \<Longrightarrow> ready_seq s' = ready_seq s \<Longrightarrow> thr s' = thr s \<Longrightarrow> curthread s' = curthread s \<Longrightarrow>
   sleep_seq t' = sleep_seq t \<Longrightarrow> ready_seq t' = ready_seq t \<Longrightarrow> curthread t' = curthread t \<Longrightarrow> woken a s' t'"
  by (simp add: woken_def)

lemma seqs_objs [simp]:
  "sleep_seq (splx n s) = sleep_seq s" "ready_seq (splx n s) = ready_seq s"
  "sleep_seq (s\<lparr>sems := x\<rparr>) = sleep_seq s" "ready_seq (s\<lparr>sems := x\<rparr>) = ready_seq s"
  "sleep_seq (s\<lparr>locks := y\<rparr>) = sleep_seq s" "ready_seq (s\<lparr>locks := y\<rparr>) = ready_seq s"
  by (simp_all add: sleep_seq_def ready_seq_def)

lemma capacity_sleep_room:
  assumes "thread_wf s" "capacity_ok s" "curthread s = Some c"
  shows "a_num (sleepers s) < a_max (sleepers s)"
proof -
  have "Suc (length (sleep_seq s)) \<le> nat (a_max (sleepers s))"
    using assms by (simp add: capacity_ok_def cur_cells_def)
  then show ?thesis
    using assms length_array_cells [of "sleepers s"] by (simp add: thread_wf_def sleep_seq_def)
qed

lemma sleep_ok:
  assumes "sync_inv s g" "curthread s = Some c" "curspl s > 0" "\<not> in_interrupt s"
  shows "\<exists>s'. thread_sleep ok [] a s = Ret () s' \<and> slept c a s s'"
  using assms by (intro thread_sleep_spec capacity_sleep_room) (auto simp: sync_inv_def)

lemma wakeup_ok:
  assumes wf: "thread_wf s" and cap: "capacity_ok s" and spl: "curspl s > 0"
  shows "\<exists>sl q. thread_wakeup ok a s = Ret () (s\<lparr>sleepers := sl, runqueue := q\<rparr>) \<and>
           thread_wf (s\<lparr>sleepers := sl, runqueue := q\<rparr>) \<and>
           capacity_ok (s\<lparr>sleepers := sl, runqueue := q\<rparr>) \<and>
           nobody (s\<lparr>sleepers := sl, runqueue := q\<rparr>) a \<and> woken a s (s\<lparr>sleepers := sl, runqueue := q\<rparr>) \<and>
           (\<forall>b. nobody s b \<longrightarrow> nobody (s\<lparr>sleepers := sl, runqueue := q\<rparr>) b)"
proof -
  have room: "length (ready_seq s) + length (sleep_seq s) < nat (q_size (runqueue s))"
    using cap by (simp add: capacity_ok_def)
  obtain sl q where w: "thread_wakeup ok a s = Ret () (s\<lparr>sleepers := sl, runqueue := q\<rparr>)"
      "a_max sl = a_max (sleepers s)" "q_size q = q_size (runqueue s)"
      "array_cells sl = filter (\<lambda>c. \<not> asleep_on (thr s) a c) (sleep_seq s)"
      "q_seq q = ready_seq s @ filter (asleep_on (thr s) a) (sleep_seq s)"
    using thread_wakeup_spec [OF thread_wf_queues [OF wf] spl room] by blast
  have len: "length (filter (asleep_on (thr s) a) (sleep_seq s)) +
      length (filter (\<lambda>c. \<not> asleep_on (thr s) a c) (sleep_seq s)) = length (sleep_seq s)"
    by (rule sum_length_filter_compl)
  show ?thesis
    using w thread_wakeup_wf [OF wf spl room w(1)] cap len
    by (intro exI [of _ sl] exI [of _ q])
       (auto simp: capacity_ok_def cur_cells_def ready_seq_def sleep_seq_def nobody_def woken_def)
qed

text \<open>Fewer sleepers never break the invariant.\<close>

lemma objs_inv_mono:
  "objs_inv nb sm lk cv g \<Longrightarrow> (\<And>b. nb b \<Longrightarrow> nb' b) \<Longrightarrow> objs_inv nb' sm lk cv g"
  unfolding objs_inv_def sem_ok_def lock_ok_def by (simp split: if_splits)

lemma sync_inv_less:
  assumes "sync_inv s g" "thread_wf s'" "capacity_ok s'" "\<And>b. nobody s b \<Longrightarrow> nobody s' b"
    and "sems s' = sems s" "locks s' = locks s" "cvs s' = cvs s"
  shows "sync_inv s' g"
  using assms objs_inv_mono [of "nobody s" _ _ _ g "nobody s'"] by (simp add: sync_inv_def)

lemma switch_nobody:
  assumes "switch_keeps (sleep_seq s) s s'" "sleep_seq s' = sleep_seq s"
  shows "nobody s' = nobody s"
  using switch_keeps_asleep [OF assms(1)] assms(2) by (auto simp: nobody_def fun_eq_iff)

lemma sync_inv_sem: "sync_inv s g \<Longrightarrow> sems s a = Some sem \<Longrightarrow> sem_ok (nobody s a) sem"
  by (simp add: sync_inv_def objs_inv_def)

lemma sync_inv_lock: "sync_inv s g \<Longrightarrow> locks s a = Some l \<Longrightarrow> lock_ok (nobody s a) l (g a)"
  by (simp add: sync_inv_def objs_inv_def)

lemma sync_inv_not_lock: "sync_inv s g \<Longrightarrow> sems s a = Some sem \<Longrightarrow> locks s a = None"
  by (auto simp: sync_inv_def objs_inv_def disjoint_iff dom_def)

lemma sync_inv_upd_sem:
  assumes "sync_inv s g" "sems s a = Some old" "sem_ok (nobody s a) sem"
  shows "sync_inv (s\<lparr>sems := (sems s)(a \<mapsto> sem)\<rparr>) g"
proof -
  have "dom ((sems s)(a \<mapsto> sem)) = dom (sems s)" using assms(2) by auto
  with assms show ?thesis by (simp add: sync_inv_def objs_inv_def)
qed

lemma sync_inv_upd_lock:
  assumes "sync_inv s g" "locks s a = Some old" "lock_ok (nobody s a) l G"
  shows "sync_inv (s\<lparr>locks := (locks s)(a \<mapsto> l)\<rparr>) (g(a := G))"
proof -
  have "dom ((locks s)(a \<mapsto> l)) = dom (locks s)" using assms(2) by auto
  with assms show ?thesis by (simp add: sync_inv_def objs_inv_def)
qed

section \<open>The operations keep the invariant\<close>

lemma slept_sync_inv:
  assumes inv: "sync_inv s g" and sl: "slept c a s s'" and cur: "curthread s = Some c"
    and sm: "\<And>sem. sems s a = Some sem \<Longrightarrow> s_count sem = 0"
    and lk: "\<And>l. locks s a = Some l \<Longrightarrow> l_held l \<noteq> 0"
  shows "sync_inv s' g"
proof -
  note k = slept_keeps [OF sl cur]
  have nb: "nobody s b \<Longrightarrow> b \<noteq> a \<Longrightarrow> nobody s' b" for b using slept_nobody [OF sl] by blast
  have "objs_inv (nobody s') (sems s) (locks s) (cvs s) g"
    unfolding objs_inv_def
  proof (intro conjI allI impI)
    fix b sem assume b: "sems s b = Some sem"
    show "sem_ok (nobody s' b) sem"
    proof (cases "b = a")
      case True
      then show ?thesis using sync_inv_sem [OF inv b] sm b by (simp add: sem_ok_def)
    qed (use sync_inv_sem [OF inv b] nb [of b] in \<open>auto intro: sem_ok_mono\<close>)
  next
    fix b l assume b: "locks s b = Some l"
    show "lock_ok (nobody s' b) l (g b)"
    proof (cases "b = a")
      case True
      then show ?thesis using sync_inv_lock [OF inv b] lk b by (simp add: lock_ok_def)
    qed (use sync_inv_lock [OF inv b] nb [of b] in \<open>auto intro: lock_ok_mono\<close>)
  qed (use inv in \<open>simp_all add: sync_inv_def objs_inv_def\<close>)
  then show ?thesis using inv k by (simp add: sync_inv_def)
qed

lemma P_loop_inv:
  assumes inv: "sync_inv s g" and cur: "curthread s = Some c" and spl: "curspl s > 0"
    and ni: "\<not> in_interrupt s" and sem: "sems s a = Some sem"
  shows "\<exists>b s'. P_loop ok [] a spl s = Ret b s' \<and> sync_inv s' g \<and> (b \<longleftrightarrow> 0 < s_count sem) \<and>
           (if b then s' = splx spl (s\<lparr>sems := (sems s)(a \<mapsto> sem\<lparr>s_count := s_count sem - 1\<rparr>)\<rparr>) else slept c a s s')"
proof (cases "s_count sem = 0")
  case True
  obtain s' where s': "thread_sleep ok [] a s = Ret () s'" "slept c a s s'"
    using sleep_ok [OF inv cur spl ni] by blast
  have "sync_inv s' g"
    using True sem sync_inv_not_lock [OF inv sem] by (intro slept_sync_inv [OF inv s'(2) cur]) auto
  then show ?thesis
    using True s' sem by (intro exI [of _ False] exI [of _ s']) (simp add: P_loop_def)
next
  case False
  then have pos: "0 < s_count sem" "s_count sem \<le> INT_MAX" "nobody s a"
    using sync_inv_sem [OF inv sem] by (auto simp: sem_ok_def)
  then have "sync_inv (s\<lparr>sems := (sems s)(a \<mapsto> sem\<lparr>s_count := s_count sem - 1\<rparr>)\<rparr>) g"
    by (intro sync_inv_upd_sem [OF inv sem]) (simp add: sem_ok_def)
  then show ?thesis
    using pos sem
    by (intro exI [of _ True] exI [of _ "splx spl (s\<lparr>sems := (sems s)(a \<mapsto> sem\<lparr>s_count := s_count sem - 1\<rparr>)\<rparr>)"])
       (simp add: P_loop_def)
qed

text \<open>Waking the sleepers of \<open>a\<close> in a state where the object at \<open>a\<close> is about to change.\<close>

lemma woken_sync_inv:
  assumes "sync_inv s g" "curspl s > 0"
  shows "\<exists>sl q. thread_wakeup ok a s = Ret () (s\<lparr>sleepers := sl, runqueue := q\<rparr>) \<and>
           sync_inv (s\<lparr>sleepers := sl, runqueue := q\<rparr>) g \<and> nobody (s\<lparr>sleepers := sl, runqueue := q\<rparr>) a \<and>
           woken a s (s\<lparr>sleepers := sl, runqueue := q\<rparr>)"
proof -
  obtain sl q where "thread_wakeup ok a s = Ret () (s\<lparr>sleepers := sl, runqueue := q\<rparr>)"
      "thread_wf (s\<lparr>sleepers := sl, runqueue := q\<rparr>)" "capacity_ok (s\<lparr>sleepers := sl, runqueue := q\<rparr>)"
      "nobody (s\<lparr>sleepers := sl, runqueue := q\<rparr>) a" "woken a s (s\<lparr>sleepers := sl, runqueue := q\<rparr>)"
      "\<And>b. nobody s b \<Longrightarrow> nobody (s\<lparr>sleepers := sl, runqueue := q\<rparr>) b"
    using wakeup_ok [of s ok a] assms by (auto simp: sync_inv_def)
  moreover from this have "sync_inv (s\<lparr>sleepers := sl, runqueue := q\<rparr>) g"
    by (intro sync_inv_less [OF assms(1)]) simp_all
  ultimately show ?thesis by blast
qed

lemma V_sem_inv:
  assumes inv: "sync_inv s g" and sem: "sems s a = Some sem" and mx: "s_count sem < INT_MAX"
  shows "\<exists>s'. V_sem ok a s = Ret () s' \<and> sync_inv s' g \<and> nobody s' a \<and>
              sems s' = (sems s)(a \<mapsto> sem\<lparr>s_count := s_count sem + 1\<rparr>) \<and> locks s' = locks s \<and> woken a s s' \<and> curspl s' = curspl s"
proof -
  let ?sem = "sem\<lparr>s_count := s_count sem + 1\<rparr>"
  have pos: "0 \<le> s_count sem" using sync_inv_sem [OF inv sem] by (simp add: sem_ok_def)
  then have w: "int_wrap (s_count sem + 1) = s_count sem + 1" using mx by (simp add: int_wrap_def)
  let ?s = "(splhigh s)\<lparr>sems := (sems s)(a \<mapsto> ?sem)\<rparr>"
  obtain sl q where k: "thread_wakeup ok a ?s = Ret () (?s\<lparr>sleepers := sl, runqueue := q\<rparr>)"
      "thread_wf (?s\<lparr>sleepers := sl, runqueue := q\<rparr>)" "capacity_ok (?s\<lparr>sleepers := sl, runqueue := q\<rparr>)"
      "nobody (?s\<lparr>sleepers := sl, runqueue := q\<rparr>) a" "woken a ?s (?s\<lparr>sleepers := sl, runqueue := q\<rparr>)"
      "\<And>b. nobody s b \<Longrightarrow> nobody (?s\<lparr>sleepers := sl, runqueue := q\<rparr>) b"
    using wakeup_ok [of ?s ok a] inv by (auto simp: sync_inv_def splhigh_def)
  define t where "t = (splhigh s)\<lparr>sleepers := sl, runqueue := q\<rparr>"
  have eq: "?s\<lparr>sleepers := sl, runqueue := q\<rparr> = t\<lparr>sems := (sems t)(a \<mapsto> ?sem)\<rparr>"
    by (simp add: t_def splhigh_def)
  have "sync_inv t g"
    using k(2-4,6) unfolding eq by (intro sync_inv_less [OF inv]) (simp_all add: t_def splhigh_def)
  then have "sync_inv (t\<lparr>sems := (sems t)(a \<mapsto> ?sem)\<rparr>) g"
    using k(4) pos sem mx unfolding eq
    by (intro sync_inv_upd_sem [of t g a sem]) (simp_all add: sem_ok_def t_def splhigh_def)
  moreover have "woken a s (splx (curspl s) (t\<lparr>sems := (sems t)(a \<mapsto> ?sem)\<rparr>))"
    by (rule woken_cong [OF k(5)]) (simp_all add: t_def splhigh_def sleep_seq_def ready_seq_def)
  ultimately show ?thesis
    using k sem pos w unfolding eq
    by (intro exI [of _ "splx (curspl s) (t\<lparr>sems := (sems t)(a \<mapsto> ?sem)\<rparr>)"])
       (simp add: V_sem_def Let_def splhigh_def t_def)
qed

lemma lock_loop_inv:
  assumes inv: "sync_inv s g" and cur: "curthread s = Some c" and spl: "curspl s > 0"
    and ni: "\<not> in_interrupt s" and lk: "locks s a = Some l"
  shows "\<exists>b s'. lock_loop ok [] a spl s = Ret b s' \<and> (b \<longleftrightarrow> l_held l = 0) \<and>
           (b \<longrightarrow> sync_inv s' (g(a := {c})) \<and> g a = {} \<and>
              s' = splx spl (s\<lparr>locks := (locks s)(a \<mapsto> l\<lparr>l_held := 1, l_pointer := Some c\<rparr>)\<rparr>)) \<and>
           (\<not> b \<longrightarrow> sync_inv s' g \<and> slept c a s s')"
proof (cases "l_held l = 0")
  case True
  then have fr: "l_pointer l = None" "nobody s a" "g a = {}"
    using sync_inv_lock [OF inv lk] by (auto simp: lock_ok_def)
  let ?s = "s\<lparr>locks := (locks s)(a \<mapsto> l\<lparr>l_held := 1, l_pointer := Some c\<rparr>)\<rparr>"
  have "sync_inv ?s (g(a := {c}))"
    using fr by (intro sync_inv_upd_lock [OF inv lk]) (simp add: lock_ok_def)
  then show ?thesis
    using True lk cur fr
    by (intro exI [of _ True] exI [of _ "splx spl ?s"]) (simp add: lock_loop_def)
next
  case False
  obtain s' where s': "thread_sleep ok [] a s = Ret () s'" "slept c a s s'"
    using sleep_ok [OF inv cur spl ni] by blast
  have "sync_inv s' g"
    using False lk sync_inv_not_lock [OF inv, of a] by (intro slept_sync_inv [OF inv s'(2) cur]) fastforce+
  then show ?thesis
    using False s' lk by (intro exI [of _ False] exI [of _ s']) (simp add: lock_loop_def)
qed

lemma lock_release_inv:
  assumes inv: "sync_inv s g" and lk: "locks s a = Some l"
  shows "\<exists>s'. lock_release ok a s = Ret () s' \<and> sync_inv s' (g(a := {})) \<and> nobody s' a \<and>
              curspl s' = curspl s \<and> curthread s' = curthread s \<and> in_interrupt s' = in_interrupt s \<and>
              locks s' = (locks s)(a \<mapsto> l\<lparr>l_held := 0, l_pointer := None\<rparr>) \<and> sems s' = sems s \<and> cvs s' = cvs s \<and>
              woken a s s' \<and> thr s' = thr s"
proof -
  let ?l = "l\<lparr>l_held := 0, l_pointer := None\<rparr>"
  let ?s = "(splhigh s)\<lparr>locks := (locks s)(a \<mapsto> l\<lparr>l_held := 0\<rparr>)\<rparr>"
  obtain sl q where k: "thread_wakeup ok a ?s = Ret () (?s\<lparr>sleepers := sl, runqueue := q\<rparr>)"
      "thread_wf (?s\<lparr>sleepers := sl, runqueue := q\<rparr>)" "capacity_ok (?s\<lparr>sleepers := sl, runqueue := q\<rparr>)"
      "nobody (?s\<lparr>sleepers := sl, runqueue := q\<rparr>) a" "woken a ?s (?s\<lparr>sleepers := sl, runqueue := q\<rparr>)"
      "\<And>b. nobody s b \<Longrightarrow> nobody (?s\<lparr>sleepers := sl, runqueue := q\<rparr>) b"
    using wakeup_ok [of ?s ok a] inv by (auto simp: sync_inv_def splhigh_def)
  define t where "t = (splhigh s)\<lparr>sleepers := sl, runqueue := q\<rparr>"
  have eq: "?s\<lparr>sleepers := sl, runqueue := q\<rparr> = t\<lparr>locks := (locks t)(a \<mapsto> l\<lparr>l_held := 0\<rparr>)\<rparr>"
    by (simp add: t_def splhigh_def)
  have "sync_inv t g"
    using k(2-4,6) unfolding eq by (intro sync_inv_less [OF inv]) (simp_all add: t_def splhigh_def)
  then have "sync_inv (t\<lparr>locks := (locks t)(a \<mapsto> ?l)\<rparr>) (g(a := {}))"
    using k(4) lk unfolding eq
    by (intro sync_inv_upd_lock [of t g a l]) (simp_all add: lock_ok_def t_def splhigh_def)
  moreover have "woken a s (splx (curspl s) (t\<lparr>locks := (locks t)(a \<mapsto> ?l)\<rparr>))"
    by (rule woken_cong [OF k(5)]) (simp_all add: t_def splhigh_def sleep_seq_def ready_seq_def)
  ultimately show ?thesis
    using k lk unfolding eq
    by (intro exI [of _ "splx (curspl s) (t\<lparr>locks := (locks t)(a \<mapsto> ?l)\<rparr>)"])
       (simp add: lock_release_def Let_def splhigh_def t_def)
qed

lemma yield_inv:
  assumes inv: "sync_inv s g" and cur: "curthread s = Some c"
  shows "\<exists>s'. thread_yield ok evs s = Ret () s' \<and> sync_inv s' g"
proof -
  have wf: "thread_wf s" and cap: "capacity_ok s" using inv by (auto simp: sync_inv_def)
  have "list_all (sound (thr s)) (ready_seq s @ [Some c])"
    using wf cur by (auto simp: thread_wf_def all_cells_def cur_cells_def)
  then obtain n rest where n: "ready_seq s @ [Some c] = Some n # rest"
    by (cases "ready_seq s @ [Some c]") (auto simp: sound_def split: option.splits)
  have room: "length (ready_seq s) + 1 < nat (q_size (runqueue s))"
    using cap cur by (simp add: capacity_ok_def cur_cells_def)
  obtain s' where s': "thread_yield ok evs s = Ret () s'" "switched_to n rest (sleep_seq s) s'"
      "switch_keeps (sleep_seq s) s s'"
    using thread_yield_spec [OF wf cur room n] by blast
  have "length (ready_seq s) = length rest" using arg_cong [OF n, of length] by simp
  then have "capacity_ok s'"
    using s' cap cur by (simp add: capacity_ok_def switched_to_def switch_keeps_def cur_cells_def)
  moreover have "tsys.more s' = tsys.more s" using s'(3) by (simp add: switch_keeps_def)
  moreover have "nobody s' = nobody s" using s' by (intro switch_nobody) (simp_all add: switched_to_def)
  ultimately have "sync_inv s' g"
    using s'(2) more_objs [of s' s] by (intro sync_inv_less [OF inv]) (simp_all add: switched_to_def)
  with s'(1) show ?thesis by blast
qed

lemma cv_wait_inv:
  assumes inv: "sync_inv s g" and cur: "curthread s = Some c" and ni: "\<not> in_interrupt s"
    and lk: "locks s lk = Some l" "l_pointer l = Some c" and cv: "cv \<in> cvs s"
  shows "\<exists>s'. cv_wait ok [] cv lk s = Ret () s' \<and> sync_inv s' (g(lk := {})) \<and>
              sleeps_on s' cv c \<and> locks s' = (locks s)(lk \<mapsto> l\<lparr>l_held := 0, l_pointer := None\<rparr>) \<and> sems s' = sems s"
proof -
  have "sync_inv (splhigh s) g" "locks (splhigh s) lk = Some l" using inv lk by (simp_all add: splhigh_def)
  then obtain s1 where s1: "lock_release ok lk (splhigh s) = Ret () s1" "sync_inv s1 (g(lk := {}))"
      "curspl s1 = 15" "curthread s1 = Some c" "\<not> in_interrupt s1" "cvs s1 = cvs s"
      "locks s1 = (locks s)(lk \<mapsto> l\<lparr>l_held := 0, l_pointer := None\<rparr>)" "sems s1 = sems s"
    using lock_release_inv [of "splhigh s" g lk l ok] cur ni by (auto simp: splhigh_def)
  obtain s' where s': "thread_sleep ok [] cv s1 = Ret () s'" "slept c cv s1 s'"
    using sleep_ok [OF s1(2,4) _ s1(5)] s1(3) by fastforce
  have "sems s1 cv = None" "locks s1 cv = None"
    using s1(2,6) cv by (auto simp: sync_inv_def objs_inv_def disjoint_iff dom_def)
  then have "sync_inv s' (g(lk := {}))" by (intro slept_sync_inv [OF s1(2) s'(2) s1(4)]) simp_all
  moreover have "cv_wait ok [] cv lk s = Ret () s'"
    using lk cur s1(1) s'(1) by (simp add: cv_wait_def lock_do_i_hold_def)
  moreover have "sleeps_on s' cv c" by (rule slept_sleeps_on [OF s'(2) _ s1(4)]) (use s1(2) in \<open>simp add: sync_inv_def\<close>)
  ultimately show ?thesis using slept_keeps [OF s'(2) s1(4)] s1(7,8) by simp
qed

lemma broadcast_inv:
  assumes inv: "sync_inv s g"
  shows "\<exists>s'. cv_broadcast ok cv lk s = Ret () s' \<and> sync_inv s' g \<and> nobody s' cv \<and> woken cv s s' \<and>
              locks s' = locks s \<and> sems s' = sems s"
proof -
  obtain sl q where w: "thread_wakeup ok cv (splhigh s) = Ret () ((splhigh s)\<lparr>sleepers := sl, runqueue := q\<rparr>)"
      "sync_inv ((splhigh s)\<lparr>sleepers := sl, runqueue := q\<rparr>) g" "nobody ((splhigh s)\<lparr>sleepers := sl, runqueue := q\<rparr>) cv"
      "woken cv (splhigh s) ((splhigh s)\<lparr>sleepers := sl, runqueue := q\<rparr>)"
    using woken_sync_inv [of "splhigh s" g ok cv] inv by (auto simp: splhigh_def)
  have "woken cv s (splx (curspl s) ((splhigh s)\<lparr>sleepers := sl, runqueue := q\<rparr>))"
    by (rule woken_cong [OF w(4)]) (simp_all add: splhigh_def)
  then show ?thesis using w(1-3) by (simp add: cv_broadcast_def Let_def splhigh_def)
qed

text \<open>One sleeper of \<open>a\<close> has become ready, if there was one.\<close>

definition woken_one :: "addr \<Rightarrow> 'z tsys_scheme \<Rightarrow> 'z tsys_scheme \<Rightarrow> bool" where
  "woken_one a s s' \<longleftrightarrow> (\<exists>xs ys zs. sleep_seq s = xs @ ys @ zs \<and> sleep_seq s' = xs @ zs \<and> ready_seq s' = ready_seq s @ ys \<and>
     list_all (asleep_on (thr s) a) ys \<and> length ys = (if nobody s a then 0 else 1))"

lemma cv_signal_inv:
  assumes inv: "sync_inv s g" and cur: "curthread s = Some c"
  shows "\<exists>s'. cv_signal ok cv lk s = Ret () s' \<and> sync_inv s' g \<and> woken_one cv s s' \<and> locks s' = locks s \<and> sems s' = sems s"
proof -
  let ?s = "splhigh s"
  have wf: "thread_wf ?s" and cap: "capacity_ok ?s" and spl: "curspl ?s > 0" and cur': "curthread ?s = Some c"
    using inv cur by (simp_all add: sync_inv_def splhigh_def)
  have room: "length (ready_seq ?s) + 1 < nat (q_size (runqueue ?s))"
    using cap cur' by (simp add: capacity_ok_def cur_cells_def)
  obtain sl q xs ys zs where w: "wakeup_single_thread ok cv ?s = Ret () (?s\<lparr>sleepers := sl, runqueue := q\<rparr>)"
      "array_inv sl" "q_inv q" "a_max sl = a_max (sleepers ?s)" "q_size q = q_size (runqueue ?s)"
      "sleep_seq ?s = xs @ ys @ zs" "array_cells sl = xs @ zs" "q_seq q = ready_seq ?s @ ys"
      "length ys \<le> 1" "list_all (asleep_on (thr ?s) cv) ys" "ys = [] \<longrightarrow> \<not> list_ex (asleep_on (thr ?s) cv) (sleep_seq ?s)"
    using wakeup_single_split [OF thread_wf_queues [OF wf] spl room, of ok cv] by blast
  let ?t = "?s\<lparr>sleepers := sl, runqueue := q\<rparr>"
  have seqs: "sleep_seq ?t = xs @ zs" "ready_seq ?t = ready_seq ?s @ ys" "zombie_seq ?t = zombie_seq ?s"
      "cur_cells ?t = cur_cells ?s"
    using w by (simp_all add: sleep_seq_def ready_seq_def zombie_seq_def cur_cells_def)
  have "thread_wf ?t"
    using wf w(2,3,6) seqs by (auto simp: thread_wf_def all_cells_def)
  moreover have "capacity_ok ?t" using cap w seqs by (simp add: capacity_ok_def)
  moreover have "nobody ?t b" if "nobody s b" for b
    using that w(6) seqs(1) by (auto simp: nobody_def splhigh_def sleep_seq_def)
  ultimately have "sync_inv ?t g" by (intro sync_inv_less [OF inv]) (simp_all add: splhigh_def)
  moreover have "woken_one cv s (splx (curspl s) ?t)"
  proof -
    have n: "nobody s cv \<longleftrightarrow> ys = []"
    proof
      assume "nobody s cv"
      then have "\<forall>x\<in>set ys. \<not> asleep_on (thr s) cv x" using w(6) by (auto simp: nobody_def splhigh_def)
      then show "ys = []" using w(10) by (cases ys) (auto simp: splhigh_def)
    next
      assume "ys = []"
      then show "nobody s cv" using w(11) by (auto simp: nobody_def list_ex_iff splhigh_def)
    qed
    have "length ys = (if nobody s cv then 0 else 1)" unfolding n using w(9) by (cases ys) auto
    then show ?thesis unfolding woken_one_def using w(6,10) seqs(1,2)
      by (intro exI [of _ xs] exI [of _ ys] exI [of _ zs]) (simp add: splhigh_def)
  qed
  ultimately show ?thesis using w(1) by (simp add: cv_signal_def Let_def splhigh_def)
qed

text \<open>The idle processor picks up a thread that an interrupt handler has made ready.\<close>

definition idle_dispatch :: "bool \<Rightarrow> 'z tsys_scheme \<Rightarrow> ('z tsys_scheme, unit) outcome" where
  "idle_dispatch ok s = andthen (scheduler ok [] s) (\<lambda>next s. case next of None \<Rightarrow> Ret () s
     | Some n \<Rightarrow> resume_thread n (s\<lparr>curthread := Some n\<rparr>))"

lemma idle_dispatch_inv:
  assumes inv: "sync_inv s g" and idle: "curthread s = None" and spl: "curspl s > 0"
  shows "\<exists>s'. idle_dispatch ok s = Ret () s' \<and> sync_inv s' g"
proof (cases "ready_seq s")
  case Nil
  then show ?thesis
    using inv spl scheduler_idle [of s ok] by (auto simp: idle_dispatch_def sync_inv_def thread_wf_def)
next
  case (Cons x rest)
  have wf: "thread_wf s" and cap: "capacity_ok s" using inv by (auto simp: sync_inv_def)
  obtain n where n: "ready_seq s = Some n # rest"
    using wf Cons by (auto simp: thread_wf_def all_cells_def sound_def split: option.splits)
  obtain s' where s': "idle_dispatch ok s = Ret () s'" "thread_wf s'" "curthread s' = Some n"
      "ready_seq s' = rest" "sleepers s' = sleepers s" "switch_keeps (sleep_seq s) s s'"
    using dispatch_ready [OF wf idle spl n, of ok "[]"] by (auto simp: idle_dispatch_def)
  have sl: "sleep_seq s' = sleep_seq s" using s'(5) by (simp add: sleep_seq_def)
  have "capacity_ok s'"
    using s' sl cap idle n by (simp add: capacity_ok_def cur_cells_def switch_keeps_def)
  moreover have "tsys.more s' = tsys.more s" using s'(6) by (simp add: switch_keeps_def)
  ultimately have "sync_inv s' g"
    using s' more_objs [of s' s] switch_nobody [OF s'(6) sl]
    by (intro sync_inv_less [OF inv]) simp_all
  with s'(1) show ?thesis by blast
qed

section \<open>All interleavings\<close>

text \<open>
  The steps of a system of threads that use the primitives, with \<open>g\<close> the owners of the locks.
  The running thread may call any primitive, or re-enter the waiting loop it went to sleep in;
  interrupts may call \<^verbatim>\<open>V\<close>.  The one obligation on the callers is the one \<^verbatim>\<open>synch.h\<close> states: a
  lock is released (by \<^verbatim>\<open>lock_release\<close> or \<^verbatim>\<open>cv_wait\<close>) by a thread that has acquired it.
\<close>

type_synonym sync_state = "ksys \<times> (addr \<Rightarrow> tid set)"

inductive sync_step :: "sync_state \<Rightarrow> sync_state \<Rightarrow> bool" where
  st_P: "curthread s = Some c \<Longrightarrow> P_sem ok [] a s = Ret b s' \<Longrightarrow> sync_step (s, g) (s', g)"
| st_P_again: "curthread s = Some c \<Longrightarrow> 0 < curspl s \<Longrightarrow> \<not> in_interrupt s \<Longrightarrow>
     P_loop ok [] a spl s = Ret b s' \<Longrightarrow> sync_step (s, g) (s', g)"
| st_V: "V_sem ok a s = Ret () s' \<Longrightarrow> sync_step (s, g) (s', g)"
| st_acquire: "curthread s = Some c \<Longrightarrow> \<not> in_interrupt s \<Longrightarrow> lock_acquire ok [] a s = Ret b s' \<Longrightarrow>
     sync_step (s, g) (s', if b then g(a := insert c (g a)) else g)"
| st_acquire_again: "curthread s = Some c \<Longrightarrow> 0 < curspl s \<Longrightarrow> \<not> in_interrupt s \<Longrightarrow>
     lock_loop ok [] a spl s = Ret b s' \<Longrightarrow>
     sync_step (s, g) (s', if b then g(a := insert c (g a)) else g)"
| st_release: "curthread s = Some c \<Longrightarrow> c \<in> g a \<Longrightarrow> lock_release ok a s = Ret () s' \<Longrightarrow>
     sync_step (s, g) (s', g(a := g a - {c}))"
| st_wait: "curthread s = Some c \<Longrightarrow> \<not> in_interrupt s \<Longrightarrow> c \<in> g lk \<Longrightarrow> cv \<in> cvs s \<Longrightarrow>
     cv_wait ok [] cv lk s = Ret () s' \<Longrightarrow> sync_step (s, g) (s', g(lk := g lk - {c}))"
| st_wait_again: "curthread s = Some c \<Longrightarrow> \<not> in_interrupt s \<Longrightarrow> cv_wait_rest ok [] lk spl s = Ret b s' \<Longrightarrow>
     sync_step (s, g) (s', if b then g(lk := insert c (g lk)) else g)"
| st_signal: "curthread s = Some c \<Longrightarrow> cv_signal ok cv lk s = Ret () s' \<Longrightarrow> sync_step (s, g) (s', g)"
| st_broadcast: "cv_broadcast ok cv lk s = Ret () s' \<Longrightarrow> sync_step (s, g) (s', g)"
| st_yield: "curthread s = Some c \<Longrightarrow> thread_yield ok evs s = Ret () s' \<Longrightarrow> sync_step (s, g) (s', g)"
| st_dispatch: "curthread s = None \<Longrightarrow> 0 < curspl s \<Longrightarrow> idle_dispatch ok s = Ret () s' \<Longrightarrow>
     sync_step (s, g) (s', g)"

lemma P_loop_keeps:
  assumes "sync_inv s g" "curthread s = Some c" "curspl s > 0" "\<not> in_interrupt s"
    and "P_loop ok [] a spl s = Ret b s'"
  shows "sync_inv s' g"
proof -
  obtain sem where "sems s a = Some sem" using assms(5) by (auto simp: P_loop_def split: option.splits)
  from P_loop_inv [OF assms(1-4) this, of ok spl] assms(5) show ?thesis by auto
qed

lemma V_sem_keeps:
  assumes "sync_inv s g" "V_sem ok a s = Ret () s'"
  shows "sync_inv s' g"
proof -
  obtain sem where sem: "sems s a = Some sem"
    using assms(2) by (auto simp: V_sem_def Let_def splhigh_def split: option.splits)
  have "0 \<le> s_count sem" "s_count sem \<le> INT_MAX" using sync_inv_sem [OF assms(1) sem] by (auto simp: sem_ok_def)
  moreover have "0 < int_wrap (s_count sem + 1)"
    using assms(2) sem by (auto simp: V_sem_def Let_def splhigh_def outcome_iffs)
  ultimately have "s_count sem < INT_MAX" by (cases "s_count sem = INT_MAX") (auto simp: int_wrap_def)
  from V_sem_inv [OF assms(1) sem this, of ok] assms(2) show ?thesis by auto
qed

lemma lock_loop_keeps:
  assumes "sync_inv s g" "curthread s = Some c" "curspl s > 0" "\<not> in_interrupt s"
    and "lock_loop ok [] a spl s = Ret b s'"
  shows "sync_inv s' (if b then g(a := insert c (g a)) else g)"
proof -
  obtain l where "locks s a = Some l" using assms(5) by (auto simp: lock_loop_def split: option.splits)
  from lock_loop_inv [OF assms(1-4) this, of ok spl] assms(5) show ?thesis by auto
qed

lemma lock_acquire_loop:
  assumes "lock_acquire ok [] a s = Ret b s'"
  shows "lock_loop ok [] a (curspl s) (splhigh s) = Ret b s'"
  using assms by (auto simp: lock_acquire_def lock_do_i_hold_def outcome_iffs split: option.splits)

lemma lock_acquire_keeps:
  assumes "sync_inv s g" "curthread s = Some c" "\<not> in_interrupt s" "lock_acquire ok [] a s = Ret b s'"
  shows "sync_inv s' (if b then g(a := insert c (g a)) else g)"
  using lock_loop_keeps [OF _ _ _ _ lock_acquire_loop [OF assms(4)], of g c] assms(1-3)
  by (simp add: splhigh_def)

lemma lock_release_keeps:
  assumes inv: "sync_inv s g" and own: "c \<in> g a" and r: "lock_release ok a s = Ret () s'"
  shows "sync_inv s' (g(a := g a - {c}))"
proof -
  obtain l where l: "locks s a = Some l"
    using r by (auto simp: lock_release_def Let_def splhigh_def split: option.splits)
  have "g a = {c}" using sync_inv_lock [OF inv l] own by (auto simp: lock_ok_def split: if_splits)
  with lock_release_inv [OF inv l, of ok] r show ?thesis by auto
qed

lemma cv_wait_keeps:
  assumes inv: "sync_inv s g" and cur: "curthread s = Some c" "\<not> in_interrupt s" and own: "c \<in> g lk"
    and cv: "cv \<in> cvs s" and r: "cv_wait ok [] cv lk s = Ret () s'"
  shows "sync_inv s' (g(lk := g lk - {c}))"
proof -
  obtain l where l: "locks s lk = Some l"
    using r by (auto simp: cv_wait_def lock_do_i_hold_def split: option.splits)
  have "g lk = {c}" "l_pointer l = Some c"
    using sync_inv_lock [OF inv l] own by (auto simp: lock_ok_def split: if_splits)
  with cv_wait_inv [OF inv cur l _ cv, of ok] r show ?thesis by auto
qed

lemma cv_wait_rest_keeps:
  assumes "sync_inv s g" "curthread s = Some c" "\<not> in_interrupt s" "cv_wait_rest ok [] lk spl s = Ret b s'"
  shows "sync_inv s' (if b then g(lk := insert c (g lk)) else g)"
proof -
  obtain s1 where "lock_acquire ok [] lk s = Ret b s1" "s' = (if b then splx spl s1 else s1)"
    using assms(4) by (auto simp: cv_wait_rest_def outcome_iffs)
  with lock_acquire_keeps [OF assms(1-3), of ok lk b s1] show ?thesis by auto
qed

lemma sync_step_inv:
  assumes "sync_step (s, g) (s', g')" "sync_inv s g"
  shows "sync_inv s' g'"
  using assms(1)
proof cases
  case (st_P c ok a b)
  then have "P_loop ok [] a (curspl s) (splhigh s) = Ret b s'" "\<not> in_interrupt s"
    by (auto simp: P_sem_def outcome_iffs)
  with st_P assms(2) P_loop_keeps [of "splhigh s" g c ok a "curspl s" b s'] show ?thesis
    by (simp add: splhigh_def)
next
  case (st_P_again c ok a spl b)
  then show ?thesis using P_loop_keeps [OF assms(2)] by blast
next
  case (st_V ok a)
  then show ?thesis using V_sem_keeps [OF assms(2)] by blast
next
  case (st_acquire c ok a b)
  then show ?thesis using lock_acquire_keeps [OF assms(2)] by metis
next
  case (st_acquire_again c ok a spl b)
  then show ?thesis using lock_loop_keeps [OF assms(2)] by metis
next
  case (st_release c a ok)
  then show ?thesis using lock_release_keeps [OF assms(2)] by blast
next
  case (st_wait c lk cv ok)
  then show ?thesis using cv_wait_keeps [OF assms(2)] by blast
next
  case (st_wait_again c ok lk spl b)
  then show ?thesis using cv_wait_rest_keeps [OF assms(2)] by metis
next
  case (st_signal c ok cv lk)
  then show ?thesis using cv_signal_inv [OF assms(2), of c ok cv lk] by (metis outcome.inject(1))
next
  case (st_broadcast ok cv lk)
  then show ?thesis using broadcast_inv [OF assms(2), of ok cv lk] by (metis outcome.inject(1))
next
  case (st_yield c ok evs)
  then show ?thesis using yield_inv [OF assms(2), of c ok evs] by auto
next
  case (st_dispatch ok)
  then show ?thesis using idle_dispatch_inv [OF assms(2), of ok] by auto
qed

lemma sync_reach_inv:
  assumes "sync_step\<^sup>*\<^sup>* (s, g) (s', g')" "sync_inv s g"
  shows "sync_inv s' g'"
  using assms(1)
proof (induction "(s', g')" arbitrary: s' g' rule: rtranclp_induct)
  case (step y)
  then show ?case by (cases y) (auto intro: sync_step_inv)
qed (use assms(2) in simp)

section \<open>Properties\<close>

text \<open>A sample system: a semaphore at 7 that thread 2 sleeps on, a free lock at 9, a condition variable at 11.\<close>

definition sample_ksys :: ksys where
  "sample_ksys = sample_sys 1 1 8 \<lparr>ksys.sems = [7 \<mapsto> \<lparr>s_count = 0\<rparr>],
     locks = [9 \<mapsto> \<lparr>l_held = 0, l_pointer = None\<rparr>], cvs = {11}\<rparr>"

lemma sample_ksys_fields:
  "curthread sample_ksys = Some 0" "curspl sample_ksys = 0" "\<not> in_interrupt sample_ksys"
  "sems sample_ksys = [7 \<mapsto> \<lparr>s_count = 0\<rparr>]" "locks sample_ksys = [9 \<mapsto> \<lparr>l_held = 0, l_pointer = None\<rparr>]"
  by (simp_all add: sample_ksys_def sample_sys_def)

lemma sample_ksys_inv: "sync_inv sample_ksys (\<lambda>_. {})"
proof -
  have seqs: "ready_seq sample_ksys = [Some 1]" "sleep_seq sample_ksys = [Some 2]"
    using sample_seqs [of 1 8 1] by (simp_all add: sample_ksys_def numeral_2_eq_2)
  have "nobody sample_ksys 9"
    unfolding nobody_def seqs by (simp add: sample_ksys_def sample_sys_def asleep_on_def sample_thread_def)
  then have "objs_inv (nobody sample_ksys) (sems sample_ksys) (locks sample_ksys) (cvs sample_ksys) (\<lambda>_. {})"
    by (simp add: objs_inv_def sample_ksys_def sample_sys_def sem_ok_def lock_ok_def)
  moreover have "capacity_ok sample_ksys"
    unfolding capacity_ok_def seqs by (simp add: cur_cells_def) (simp add: sample_ksys_def)
  moreover have "thread_wf sample_ksys" unfolding sample_ksys_def by (rule sample_wf) simp_all
  ultimately show ?thesis by (simp add: sync_inv_def)
qed

text \<open>
  C3. Mutual exclusion: in every state that any interleaving of calls of the primitives, yields and
  interrupts can reach, at most one thread has acquired a lock and not released it, and the lock
  is marked as held by that thread.
\<close>

theorem lock_mutual_exclusion:
  assumes "sync_step\<^sup>*\<^sup>* (s, g) (s', g')" "sync_inv s g" "locks s' a = Some l" "t \<in> g' a" "u \<in> g' a"
  shows "t = u \<and> l_held l \<noteq> 0 \<and> l_pointer l = Some t"
  using sync_inv_lock [OF sync_reach_inv [OF assms(1,2)] assms(3)] assms(4,5)
  by (auto simp: lock_ok_def split: if_splits)

theorem lock_mutual_exclusion_witness:
  "\<exists>s' l. sync_step\<^sup>*\<^sup>* (sample_ksys, \<lambda>_. {}) (s', (\<lambda>_. {})(9 := {0})) \<and> locks s' 9 = Some l \<and> l_pointer l = Some 0"
proof -
  let ?l = "\<lparr>l_held = 1, l_pointer = Some 0\<rparr> :: lock"
  obtain s' where s': "lock_acquire False [] 9 sample_ksys = Ret True s'" "locks s' 9 = Some ?l"
    using sample_ksys_fields by (simp add: lock_acquire_def lock_do_i_hold_def lock_loop_def splhigh_def)
  have "sync_step (sample_ksys, \<lambda>_. {}) (s', if True then (\<lambda>_. {})(9 := insert 0 {}) else (\<lambda>_. {}))"
    by (rule st_acquire [OF sample_ksys_fields(1,3) s'(1)])
  then have r: "sync_step\<^sup>*\<^sup>* (sample_ksys, \<lambda>_. {}) (s', (\<lambda>_. {})(9 := {0}))" by simp
  show ?thesis using lock_mutual_exclusion [OF r sample_ksys_inv s'(2), of 0 0] r s'(2) by auto
qed

text \<open>
  C17. No wakeup is lost: in every reachable state nobody sleeps on a semaphore whose count is
  positive, nor on a lock that is free.
\<close>

theorem no_lost_wakeup:
  assumes "sync_step\<^sup>*\<^sup>* (s, g) (s', g')" "sync_inv s g"
    and "(\<exists>sem. sems s' a = Some sem \<and> 0 < s_count sem) \<or> (\<exists>l. locks s' a = Some l \<and> l_held l = 0)"
  shows "filter (asleep_on (thr s') a) (sleep_seq s') = []"
proof -
  have inv: "sync_inv s' g'" using sync_reach_inv [OF assms(1,2)] .
  have "nobody s' a"
    using assms(3) sync_inv_sem [OF inv] sync_inv_lock [OF inv] by (auto simp: sem_ok_def lock_ok_def)
  then show ?thesis by (simp add: nobody_def filter_empty_conv)
qed

theorem no_lost_wakeup_witness:
  "\<exists>s'. V_sem False 7 sample_ksys = Ret () s' \<and> filter (asleep_on (thr s') 7) (sleep_seq s') = []"
proof -
  have q: "sems sample_ksys 7 = Some \<lparr>s_count = 0\<rparr>" using sample_ksys_fields by simp
  have "s_count \<lparr>s_count = 0\<rparr> < INT_MAX" by simp
  from V_sem_inv [OF sample_ksys_inv q this, of False] obtain s' where
    v: "V_sem False 7 sample_ksys = Ret () s'" "sems s' = (sems sample_ksys)(7 \<mapsto> \<lparr>s_count = 0\<rparr>\<lparr>s_count := s_count \<lparr>s_count = 0\<rparr> + 1\<rparr>)"
    by blast
  then have s': "V_sem False 7 sample_ksys = Ret () s'" "sems s' 7 = Some \<lparr>s_count = 1\<rparr>" by simp_all
  have "sync_step\<^sup>*\<^sup>* (sample_ksys, \<lambda>_. {}) (s', \<lambda>_. {})" using st_V [OF s'(1)] by blast
  from no_lost_wakeup [OF this sample_ksys_inv, of 7] s' show ?thesis by auto
qed

lemma own_pointer:
  assumes "sync_inv s g" "locks s b = Some l"
  shows "l_pointer l = Some c \<longleftrightarrow> c \<in> g b"
proof (cases "l_held l = 0")
  case True
  then have "l_pointer l = None" "g b = {}" using sync_inv_lock [OF assms] by (simp_all add: lock_ok_def)
  then show ?thesis by simp
next
  case False
  then obtain t where "l_pointer l = Some t" "g b = {t}" using sync_inv_lock [OF assms] by (auto simp: lock_ok_def)
  then show ?thesis by auto
qed

lemma splhigh_ksys:
  "sync_inv (splhigh s) g = sync_inv s g" "curthread (splhigh s) = curthread s" "curspl (splhigh s) > 0"
  "in_interrupt (splhigh s) = in_interrupt s" "sems (splhigh s) = sems s" "locks (splhigh s) = locks s"
  by (simp_all add: splhigh_def)

text \<open>
  C20. Semaphores in any reachable state.  \<^verbatim>\<open>P\<close> takes one from a positive count and goes on; with the count at zero it
  leaves the count alone and puts its caller to sleep on the semaphore.  \<^verbatim>\<open>V\<close> adds one and makes exactly the threads that sleep
  on the semaphore ready, and panics only when the count is at the largest \<^verbatim>\<open>int\<close>.  Nothing else panics, and no other
  semaphore or lock changes.
\<close>

theorem semaphore_operations:
  assumes "sync_step\<^sup>*\<^sup>* (s, g) (s', g')" "sync_inv s g" "curthread s' = Some c" "\<not> in_interrupt s'" "sems s' a = Some sem"
  shows "(\<exists>r t. P_sem ok [] a s' = Ret r t \<and> sync_inv t g' \<and> locks t = locks s' \<and>
           (if 0 < s_count sem
            then r \<and> sems t = (sems s')(a \<mapsto> \<lparr>s_count = s_count sem - 1\<rparr>) \<and> curthread t = Some c \<and> sleep_seq t = sleep_seq s'
            else \<not> r \<and> sems t = sems s' \<and> sleeps_on t a c)) \<and>
         (if s_count sem < INT_MAX
          then \<exists>t. V_sem ok a s' = Ret () t \<and> sync_inv t g' \<and> sems t = (sems s')(a \<mapsto> \<lparr>s_count = s_count sem + 1\<rparr>) \<and>
                 locks t = locks s' \<and> woken a s' t
          else V_sem ok a s' = Panic)"
proof -
  have inv: "sync_inv s' g'" using sync_reach_inv [OF assms(1,2)] .
  have p: "0 \<le> s_count sem" "s_count sem \<le> INT_MAX" using sync_inv_sem [OF inv assms(5)] by (simp_all add: sem_ok_def)
  have e: "sem\<lparr>s_count := n\<rparr> = \<lparr>s_count = n\<rparr>" for n by (cases sem) simp
  obtain r t where P: "P_loop ok [] a (curspl s') (splhigh s') = Ret r t" "sync_inv t g'" "r \<longleftrightarrow> 0 < s_count sem"
      "if r then t = splx (curspl s') ((splhigh s')\<lparr>sems := (sems s')(a \<mapsto> \<lparr>s_count = s_count sem - 1\<rparr>)\<rparr>) else slept c a (splhigh s') t"
    using P_loop_inv [of "splhigh s'" g' c a sem ok "curspl s'"] inv assms(3-5) by (auto simp: splhigh_ksys e)
  have t: "sleeps_on t a c" "sems t = sems s'" "locks t = locks s'" if "slept c a (splhigh s') t"
    using slept_sleeps_on [OF that] slept_keeps [OF that] inv assms(3)
    by (simp_all add: splhigh_ksys) (simp_all add: splhigh_def sync_inv_def)
  have "\<exists>r t. P_sem ok [] a s' = Ret r t \<and> sync_inv t g' \<and> locks t = locks s' \<and>
           (if 0 < s_count sem
            then r \<and> sems t = (sems s')(a \<mapsto> \<lparr>s_count = s_count sem - 1\<rparr>) \<and> curthread t = Some c \<and> sleep_seq t = sleep_seq s'
            else \<not> r \<and> sems t = sems s' \<and> sleeps_on t a c)"
    using P t assms(3,4) by (intro exI [of _ r] exI [of _ t]) (auto simp: P_sem_def splhigh_def)
  moreover have "if s_count sem < INT_MAX
          then \<exists>t. V_sem ok a s' = Ret () t \<and> sync_inv t g' \<and> sems t = (sems s')(a \<mapsto> \<lparr>s_count = s_count sem + 1\<rparr>) \<and>
                 locks t = locks s' \<and> woken a s' t
          else V_sem ok a s' = Panic"
  proof (cases "s_count sem < INT_MAX")
    case True
    then show ?thesis using V_sem_inv [OF inv assms(5), of ok] by (auto simp: e)
  next
    case False
    then have "s_count sem = INT_MAX" using p by simp
    then show ?thesis using assms(5) by (simp add: V_sem_def Let_def splhigh_def int_wrap_def)
  qed
  ultimately show ?thesis by blast
qed

theorem semaphore_operations_witness:
  "(\<exists>t. P_sem False [] 7 sample_ksys = Ret False t \<and> sleeps_on t 7 0) \<and>
   (\<exists>t. V_sem False 7 sample_ksys = Ret () t \<and> sems t 7 = Some \<lparr>s_count = 1\<rparr>)"
  using semaphore_operations [OF rtranclp.rtrancl_refl sample_ksys_inv, of 0 7 "\<lparr>s_count = 0\<rparr>" False] sample_ksys_fields
  by auto

text \<open>
  C21. Locks in any reachable state.  A thread that does not hold a lock and asks for it gets it if it is free, and the lock
  is then marked as held by this thread; otherwise the lock stays as it is and the thread sleeps on it.  A thread that holds
  a lock frees it with \<^verbatim>\<open>lock_release\<close>, which makes exactly the threads that sleep on it ready.  Neither panics, and
  nothing changes any semaphore or other lock.
\<close>

theorem lock_operations:
  assumes "sync_step\<^sup>*\<^sup>* (s, g) (s', g')" "sync_inv s g" "curthread s' = Some c" "\<not> in_interrupt s'" "locks s' b = Some l"
  shows "if c \<in> g' b
     then \<exists>t. lock_release ok b s' = Ret () t \<and> sync_inv t (g'(b := {})) \<and> sems t = sems s' \<and>
            locks t = (locks s')(b \<mapsto> \<lparr>l_held = 0, l_pointer = None\<rparr>) \<and> woken b s' t
     else \<exists>r t. lock_acquire ok [] b s' = Ret r t \<and> sems t = sems s' \<and>
            (if l_held l = 0
             then r \<and> sync_inv t (g'(b := {c})) \<and> locks t = (locks s')(b \<mapsto> \<lparr>l_held = 1, l_pointer = Some c\<rparr>) \<and> sleep_seq t = sleep_seq s'
             else \<not> r \<and> sync_inv t g' \<and> locks t = locks s' \<and> sleeps_on t b c)"
proof -
  have inv: "sync_inv s' g'" using sync_reach_inv [OF assms(1,2)] .
  have e: "l\<lparr>l_held := n, l_pointer := q\<rparr> = \<lparr>l_held = n, l_pointer = q\<rparr>" for n q by (cases l) simp
  show ?thesis
  proof (cases "c \<in> g' b")
    case True
    then show ?thesis using lock_release_inv [OF inv assms(5), of ok] by (auto simp: e)
  next
    case False
    then have np: "l_pointer l \<noteq> Some c" using own_pointer [OF inv assms(5)] by blast
    obtain r t where L: "lock_loop ok [] b (curspl s') (splhigh s') = Ret r t" "r \<longleftrightarrow> l_held l = 0"
        "r \<longrightarrow> sync_inv t (g'(b := {c})) \<and> t = splx (curspl s') ((splhigh s')\<lparr>locks := (locks s')(b \<mapsto> \<lparr>l_held = 1, l_pointer = Some c\<rparr>)\<rparr>)"
        "\<not> r \<longrightarrow> sync_inv t g' \<and> slept c b (splhigh s') t"
      using lock_loop_inv [of "splhigh s'" g' c b l ok "curspl s'"] inv assms(3-5) by (auto simp: splhigh_ksys e)
    have t: "sleeps_on t b c" "sems t = sems s'" "locks t = locks s'" if "slept c b (splhigh s') t"
      using slept_sleeps_on [OF that] slept_keeps [OF that] inv assms(3)
      by (simp_all add: splhigh_ksys) (simp_all add: splhigh_def sync_inv_def)
    have "lock_acquire ok [] b s' = Ret r t" using L(1) assms(3,5) np by (simp add: lock_acquire_def lock_do_i_hold_def)
    then show ?thesis using False L(2-4) t by (cases r) (auto simp: splhigh_def)
  qed
qed

theorem lock_operations_witness:
  "\<exists>t. lock_acquire False [] 9 sample_ksys = Ret True t \<and> locks t 9 = Some \<lparr>l_held = 1, l_pointer = Some 0\<rparr>"
  using lock_operations [OF rtranclp.rtrancl_refl sample_ksys_inv, of 0 9 "\<lparr>l_held = 0, l_pointer = None\<rparr>" False] sample_ksys_fields
  by auto

text \<open>
  C22. Condition variables in any reachable state.  A thread that waits with a lock it holds gives the lock up and sleeps
  on the condition variable in one step.  \<^verbatim>\<open>cv_signal\<close> makes one of the waiting threads ready if there is one, and
  \<^verbatim>\<open>cv_broadcast\<close> makes all of them ready; both leave all locks as they are.
\<close>

theorem cv_operations:
  assumes "sync_step\<^sup>*\<^sup>* (s, g) (s', g')" "sync_inv s g" "curthread s' = Some c" "\<not> in_interrupt s'"
    and "locks s' lk = Some l" "c \<in> g' lk" "cv \<in> cvs s'"
  shows "(\<exists>t. cv_wait ok [] cv lk s' = Ret () t \<and> sync_inv t (g'(lk := {})) \<and> sleeps_on t cv c \<and>
            locks t = (locks s')(lk \<mapsto> \<lparr>l_held = 0, l_pointer = None\<rparr>)) \<and>
         (\<exists>t. cv_signal ok cv lk s' = Ret () t \<and> sync_inv t g' \<and> woken_one cv s' t \<and> locks t = locks s') \<and>
         (\<exists>t. cv_broadcast ok cv lk s' = Ret () t \<and> sync_inv t g' \<and> woken cv s' t \<and> locks t = locks s')"
proof -
  have inv: "sync_inv s' g'" using sync_reach_inv [OF assms(1,2)] .
  have e: "l\<lparr>l_held := n, l_pointer := q\<rparr> = \<lparr>l_held = n, l_pointer = q\<rparr>" for n q by (cases l) simp
  have p: "l_pointer l = Some c" using own_pointer [OF inv assms(5)] assms(6) by blast
  show ?thesis
    using cv_wait_inv [OF inv assms(3-5) p assms(7), of ok] cv_signal_inv [OF inv assms(3), of ok cv lk] broadcast_inv [OF inv, of ok cv lk]
    unfolding e by metis
qed

theorem cv_operations_witness:
  "\<exists>s t. sync_step\<^sup>*\<^sup>* (sample_ksys, \<lambda>_. {}) (s, (\<lambda>_. {})(9 := {0})) \<and> cv_wait False [] 11 9 s = Ret () t \<and> sleeps_on t 11 0"
proof -
  let ?l = "\<lparr>l_held = 1, l_pointer = Some 0\<rparr> :: lock"
  obtain s where s: "lock_acquire False [] 9 sample_ksys = Ret True s" "locks s 9 = Some ?l" "cvs s = {11}"
      "curthread s = Some 0" "\<not> in_interrupt s"
    using sample_ksys_fields by (simp add: lock_acquire_def lock_do_i_hold_def lock_loop_def splhigh_def) (simp add: sample_ksys_def sample_sys_def)
  have "sync_step (sample_ksys, \<lambda>_. {}) (s, if True then (\<lambda>_. {})(9 := insert 0 {}) else (\<lambda>_. {}))"
    by (rule st_acquire [OF sample_ksys_fields(1,3) s(1)])
  then have r: "sync_step\<^sup>*\<^sup>* (sample_ksys, \<lambda>_. {}) (s, (\<lambda>_. {})(9 := {0}))" by simp
  show ?thesis using cv_operations [OF r sample_ksys_inv s(4,5,2), of 11 False] r s(3) by auto
qed

end
