(* ===== verification/Coremap.thy ===== *)
theory Coremap
  imports Threads
begin

text \<open>
  Physical memory: the size of RAM and the memory stolen from it before the VM system is up
  (\<^verbatim>\<open>kern/arch/mips/mips/ram.c\<close>), and the core map with the allocation of runs of
  physical pages (\<^verbatim>\<open>kern/vm/vm.c\<close> and \<^verbatim>\<open>kern/userprog/mem.c\<close>).  The contract of the
  allocator is the locale \<open>page_allocator\<close>, which the kernel heap relies on.
\<close>

unbundle bit_operations_syntax

section \<open>The model\<close>

abbreviation PAGE_SIZE :: nat where "PAGE_SIZE \<equiv> 4096"
abbreviation PAGE_FRAME :: u32 where "PAGE_FRAME \<equiv> 0xfffff000"
abbreviation MIPS_KSEG0 :: u32 where "MIPS_KSEG0 \<equiv> 0x80000000"

definition PADDR_TO_KVADDR :: "u32 \<Rightarrow> u32" where
  "PADDR_TO_KVADDR paddr = paddr + MIPS_KSEG0"

definition KVADDR_TO_PADDR :: "u32 \<Rightarrow> u32" where
  "KVADDR_TO_PADDR vaddr = vaddr - MIPS_KSEG0"

text \<open>
  \<^verbatim>\<open>struct coremap_entry\<close>.  An address space is named by a number; \<^verbatim>\<open>pe_Ptr\<close> points to an
  entry of a second-level page table, which is the number of the table and an index.
\<close>

record coremap_entry =
  ce_allocated :: int
  ce_continuous :: int
  ce_as :: "nat option"
  ce_pe :: "(nat \<times> nat) option"

text \<open>
  The variables of \<^verbatim>\<open>ram.c\<close>, the structure \<^verbatim>\<open>coremap\<close>, the array of entries it points to, and
  the words of kernel memory by their virtual address.
\<close>

record vmsys = tsys +
  firstfree :: u32
  firstpaddr :: u32
  lastpaddr :: u32
  numofpage :: u32
  free_pages_str :: u32
  coremap_str :: u32
  cm_entries :: "coremap_entry list"
  kmem :: "u32 \<Rightarrow> u32"

definition ram_bootstrap :: "u32 \<Rightarrow> 'z vmsys_scheme \<Rightarrow> 'z vmsys_scheme" where
  "ram_bootstrap mips_ramsize s =
     (let ramsize = mips_ramsize;
          ramsize = (if ramsize > 508 * 1024 * 1024 then 508 * 1024 * 1024 else ramsize)
      in s\<lparr>lastpaddr := ramsize, firstpaddr := firstfree s - MIPS_KSEG0\<rparr>)"

definition ram_stealmem :: "u32 \<Rightarrow> 'z vmsys_scheme \<Rightarrow> u32 \<times> 'z vmsys_scheme" where
  "ram_stealmem npages s =
     (let size = npages * 4096 in
      if firstpaddr s + size > lastpaddr s then (0, s)
      else (firstpaddr s, s\<lparr>firstpaddr := firstpaddr s + size\<rparr>))"

definition ram_getsize :: "'z vmsys_scheme \<Rightarrow> u32 \<times> u32" where
  "ram_getsize s = (firstpaddr s, lastpaddr s)"

text \<open>
  The entries of the core map are not initialised: they are whatever \<open>raw\<close> the memory holds.
  An entry takes 16 bytes.
\<close>

definition vm_bootstrap :: "(nat \<Rightarrow> coremap_entry) \<Rightarrow> 'z vmsys_scheme \<Rightarrow> 'z vmsys_scheme" where
  "vm_bootstrap raw s =
     (let (start, lim) = ram_getsize s;
          str = start AND PAGE_FRAME;
          lastpage = lim AND PAGE_FRAME;
          freepages = drop_bit 12 (lastpage - str);
          mapsize = freepages * 16;
          coremap_pages = mapsize div 4096 + 1;
          s = s\<lparr>numofpage := freepages\<rparr>;
          s = s\<lparr>coremap_str := PADDR_TO_KVADDR start\<rparr>;
          s = s\<lparr>free_pages_str := str + push_bit 12 coremap_pages\<rparr>;
          s = s\<lparr>numofpage := numofpage s - coremap_pages\<rparr>
      in s\<lparr>cm_entries := map raw [0..<unat (numofpage s)]\<rparr>)"

text \<open>
  The loops of \<^verbatim>\<open>getppages\<close>: over the allocated entries at the start of the map, over the free
  ones that follow until there are enough of them, and over the entries to be marked.
\<close>

primrec skip_allocated :: "coremap_entry list \<Rightarrow> nat" where
  "skip_allocated [] = 0"
| "skip_allocated (lcr # es) = (if ce_allocated lcr = 1 then Suc (skip_allocated es) else 0)"

primrec free_run :: "nat \<Rightarrow> coremap_entry list \<Rightarrow> nat \<Rightarrow> bool" where
  "free_run npages [] counter = False"
| "free_run npages (lcr # es) counter =
     (if ce_allocated lcr = 0 then
        (if Suc counter \<ge> npages then True else free_run npages es (Suc counter))
      else False)"

primrec set_allocated :: "int \<Rightarrow> nat \<Rightarrow> nat \<Rightarrow> coremap_entry list \<Rightarrow> coremap_entry list" where
  "set_allocated a i 0 es = es"
| "set_allocated a i (Suc n) es = set_allocated a (Suc i) n (es[i := (es ! i)\<lparr>ce_allocated := a\<rparr>])"

definition getppages :: "u32 \<Rightarrow> 'z vmsys_scheme \<Rightarrow> ('z vmsys_scheme, u32) outcome" where
  "getppages npages s =
     (let spl = curspl s; s = splhigh s in
      if coremap_str s = 0 then
        (let (addr, s) = ram_stealmem npages s in Ret addr (splx spl s))
      else
        defined_if (unat (numofpage s) \<le> length (cm_entries s))
         (let es = take (unat (numofpage s)) (cm_entries s);
              freepgstart = skip_allocated es in
          if free_run (unat npages) (drop freepgstart es) 0 then
            (let addr = free_pages_str s + of_nat freepgstart * 4096;
                 es = (cm_entries s)[freepgstart := (cm_entries s ! freepgstart)\<lparr>ce_continuous := uint npages\<rparr>];
                 s = s\<lparr>cm_entries := set_allocated 1 freepgstart (unat npages) es\<rparr>
             in Ret addr (splx spl s))
          else Ret 0 (splx spl s)))"

definition alloc_kpages :: "int \<Rightarrow> 'z vmsys_scheme \<Rightarrow> ('z vmsys_scheme, u32) outcome" where
  "alloc_kpages npages s =
     andthen (getppages (of_int npages) s)
      (\<lambda>pa s. if pa = 0 then Ret 0 s else Ret (PADDR_TO_KVADDR pa) s)"

text \<open>An access outside the core map is undefined.\<close>

definition free_kpages :: "u32 \<Rightarrow> 'z vmsys_scheme \<Rightarrow> ('z vmsys_scheme, unit) outcome" where
  "free_kpages addr s =
     (let spl = curspl s; s = splhigh s;
          paddr = KVADDR_TO_PADDR addr;
          delete_page = unat (drop_bit 12 (paddr - free_pages_str s))
      in defined_if (coremap_str s \<noteq> 0 \<and> delete_page < unat (numofpage s) \<and> unat (numofpage s) \<le> length (cm_entries s))
          (let n = nat (ce_continuous (cm_entries s ! delete_page)) in
           defined_if (delete_page + n \<le> unat (numofpage s))
            (let es = set_allocated 0 delete_page n (cm_entries s);
                 es = es[delete_page := (es ! delete_page)\<lparr>ce_continuous := 0\<rparr>]
             in Ret () (splx spl (s\<lparr>cm_entries := es\<rparr>)))))"

text \<open>\<^verbatim>\<open>allocate_physical_page\<close> of \<^verbatim>\<open>mem.c\<close>; the result is the index of the entry, or none.\<close>

primrec first_free :: "coremap_entry list \<Rightarrow> nat option" where
  "first_free [] = None"
| "first_free (e # es) = (if ce_allocated e = 0 then Some 0 else map_option Suc (first_free es))"

definition allocate_physical_page :: "'z vmsys_scheme \<Rightarrow> ('z vmsys_scheme, nat option) outcome" where
  "allocate_physical_page s =
     defined_if (unat (numofpage s) \<le> length (cm_entries s))
      (case first_free (take (unat (numofpage s)) (cm_entries s)) of
         None \<Rightarrow> Ret None s
       | Some i \<Rightarrow> Ret (Some i) (s\<lparr>cm_entries := (cm_entries s)[i := (cm_entries s ! i)\<lparr>ce_allocated := 1\<rparr>]\<rparr>))"

section \<open>Consistency of the core map\<close>

lemma length_set_allocated [simp]: "length (set_allocated a i n es) = length es"
  by (induction n arbitrary: i es) simp_all

lemma set_allocated_nth:
  "i + n \<le> length es \<Longrightarrow> set_allocated a i n es ! j =
     (if i \<le> j \<and> j < i + n then (es ! j)\<lparr>ce_allocated := a\<rparr> else es ! j)"
proof (induction n arbitrary: i es)
  case (Suc n)
  then show ?case by (subst set_allocated.simps, subst Suc.IH) (auto simp: nth_list_update)
qed simp

lemma skip_allocated_le: "skip_allocated es \<le> length es"
  by (induction es) auto

lemma skip_allocated_nth: "j < skip_allocated es \<Longrightarrow> ce_allocated (es ! j) = 1"
  by (induction es arbitrary: j) (auto split: if_splits simp: less_Suc_eq_0_disj)

lemma free_run_iff:
  "c < n \<Longrightarrow> free_run n es c \<longleftrightarrow> n - c \<le> length es \<and> (\<forall>j < n - c. ce_allocated (es ! j) = 0)"
proof (induction es arbitrary: c)
  case (Cons e es)
  show ?case
  proof (cases "Suc c < n")
    case True
    then have n: "n - c = Suc (n - Suc c)" by simp
    show ?thesis using True Cons.IH [OF True] unfolding n by (auto simp: All_less_Suc2)
  next
    case False
    then have n: "n - c = 1" using Cons.prems by simp
    show ?thesis using False unfolding n by simp
  qed
qed simp

lemma first_free_Some:
  "first_free es = Some i \<Longrightarrow> i < length es \<and> ce_allocated (es ! i) = 0"
  by (induction es arbitrary: i) (auto split: if_splits)

lemma first_free_None: "first_free es = None \<longleftrightarrow> (\<forall>e \<in> set es. ce_allocated e \<noteq> 0)"
  by (induction es) (auto split: if_splits)

text \<open>
  A run of pages is recorded in its first entry: \<^verbatim>\<open>continuous\<close> is its length.  The pages of the map are
  memory that is addressable through \<^verbatim>\<open>kseg0\<close>, and an entry that is not allocated starts no run.
\<close>

definition entry_ok :: "coremap_entry list \<Rightarrow> nat \<Rightarrow> bool" where
  "entry_ok es i \<longleftrightarrow> ce_allocated (es ! i) \<in> {0, 1} \<and> 0 \<le> ce_continuous (es ! i) \<and>
     (ce_allocated (es ! i) = 0 \<longrightarrow> ce_continuous (es ! i) = 0) \<and>
     i + nat (ce_continuous (es ! i)) \<le> length es \<and>
     (\<forall>j. i < j \<and> j < i + nat (ce_continuous (es ! i)) \<longrightarrow> ce_allocated (es ! j) = 1 \<and> ce_continuous (es ! j) = 0)"

definition coremap_inv :: "'z vmsys_scheme \<Rightarrow> bool" where
  "coremap_inv s \<longleftrightarrow> coremap_str s \<noteq> 0 \<and> length (cm_entries s) = unat (numofpage s) \<and>
     PAGE_SIZE dvd unat (free_pages_str s) \<and> 0 < unat (free_pages_str s) \<and>
     unat (free_pages_str s) + PAGE_SIZE * unat (numofpage s) \<le> 508 * 1024 * 1024 \<and>
     (\<forall>i < length (cm_entries s). entry_ok (cm_entries s) i)"

text \<open>The kernel address of page \<open>i\<close>, the length of the run that starts there, and whether it is free.\<close>

definition page_addr :: "'z vmsys_scheme \<Rightarrow> nat \<Rightarrow> u32" where
  "page_addr s i = PADDR_TO_KVADDR (free_pages_str s + of_nat i * 4096)"

definition run_at :: "'z vmsys_scheme \<Rightarrow> nat \<Rightarrow> nat" where
  "run_at s i = (if i < length (cm_entries s) then nat (ce_continuous (cm_entries s ! i)) else 0)"

definition page_free :: "'z vmsys_scheme \<Rightarrow> nat \<Rightarrow> bool" where
  "page_free s i \<longleftrightarrow> i < length (cm_entries s) \<and> ce_allocated (cm_entries s ! i) = 0"

text \<open>What a routine that only touches the core map leaves alone.\<close>

definition same_but_map :: "'z vmsys_scheme \<Rightarrow> 'z vmsys_scheme \<Rightarrow> bool" where
  "same_but_map s s' \<longleftrightarrow> (\<exists>es. length es = length (cm_entries s) \<and> s' = s\<lparr>cm_entries := es\<rparr>)"

text \<open>The saved priority agrees with the interrupt flag of the processor.\<close>

definition spl_ok :: "'z tsys_scheme \<Rightarrow> bool" where
  "spl_ok s \<longleftrightarrow> 0 \<le> curspl s \<and> (ints_on s \<longleftrightarrow> curspl s = 0)"

lemma splx_back [simp]: "spl_ok s \<Longrightarrow> splx (curspl s) (splhigh s) = s"
  by (cases s) (auto simp: spl_ok_def splx_def splhigh_def)

lemma splx_upd_map [simp]: "splx x (s\<lparr>cm_entries := es\<rparr>) = (splx x s)\<lparr>cm_entries := es\<rparr>"
  by (simp add: splx_def)

lemma splhigh_vm [simp]: "coremap_str (splhigh s) = coremap_str s" "numofpage (splhigh s) = numofpage s"
  "cm_entries (splhigh s) = cm_entries s" "free_pages_str (splhigh s) = free_pages_str s"
  by (simp_all add: splhigh_def splx_def)

lemma coremap_invD:
  assumes "coremap_inv s"
  shows "coremap_str s \<noteq> 0" "unat (numofpage s) = length (cm_entries s)" "PAGE_SIZE dvd unat (free_pages_str s)"
    "0 < unat (free_pages_str s)" "unat (free_pages_str s) + PAGE_SIZE * length (cm_entries s) \<le> 508 * 1024 * 1024"
    "i < length (cm_entries s) \<Longrightarrow> entry_ok (cm_entries s) i"
  using assms by (simp_all add: coremap_inv_def)

text \<open>The two changes of the map: a run of free pages is taken, and a run is given back.\<close>

definition take_run :: "nat \<Rightarrow> nat \<Rightarrow> coremap_entry list \<Rightarrow> coremap_entry list" where
  "take_run i n es = set_allocated 1 i n (es[i := (es ! i)\<lparr>ce_continuous := int n\<rparr>])"

definition drop_run :: "nat \<Rightarrow> coremap_entry list \<Rightarrow> coremap_entry list" where
  "drop_run i es =
     (let es' = set_allocated 0 i (nat (ce_continuous (es ! i))) es in es'[i := (es' ! i)\<lparr>ce_continuous := 0\<rparr>])"

lemma take_run_nth:
  assumes "i + n \<le> length es" "0 < n"
  shows "ce_allocated (take_run i n es ! j) = (if i \<le> j \<and> j < i + n then 1 else ce_allocated (es ! j))"
    "ce_continuous (take_run i n es ! j) = (if j = i then int n else ce_continuous (es ! j))"
  using assms by (simp_all add: take_run_def set_allocated_nth nth_list_update)

lemma drop_run_nth:
  assumes "i < length es" "entry_ok es i"
  shows "ce_allocated (drop_run i es ! j) = (if i \<le> j \<and> j < i + nat (ce_continuous (es ! i)) then 0 else ce_allocated (es ! j))"
    "ce_continuous (drop_run i es ! j) = (if j = i then 0 else ce_continuous (es ! j))"
proof -
  have n: "i + nat (ce_continuous (es ! i)) \<le> length es" using assms(2) unfolding entry_ok_def by blast
  show "ce_allocated (drop_run i es ! j) = (if i \<le> j \<and> j < i + nat (ce_continuous (es ! i)) then 0 else ce_allocated (es ! j))"
    "ce_continuous (drop_run i es ! j) = (if j = i then 0 else ce_continuous (es ! j))"
    using assms(1) n by (simp_all add: drop_run_def set_allocated_nth nth_list_update Let_def)
qed

lemma length_runs [simp]: "length (take_run i n es) = length es" "length (drop_run i es) = length es"
  by (simp_all add: take_run_def drop_run_def Let_def)

lemma entry_okD:
  assumes "entry_ok es i"
  shows "ce_allocated (es ! i) = 0 \<or> ce_allocated (es ! i) = 1" "0 \<le> ce_continuous (es ! i)"
    "ce_allocated (es ! i) = 0 \<Longrightarrow> ce_continuous (es ! i) = 0" "i + nat (ce_continuous (es ! i)) \<le> length es"
    "i < j \<Longrightarrow> j < i + nat (ce_continuous (es ! i)) \<Longrightarrow> ce_allocated (es ! j) = 1"
    "i < j \<Longrightarrow> j < i + nat (ce_continuous (es ! i)) \<Longrightarrow> ce_continuous (es ! j) = 0"
  using assms unfolding entry_ok_def by blast+

lemma entry_okI:
  assumes "ce_allocated (es ! i) = 0 \<or> ce_allocated (es ! i) = 1" "ce_continuous (es ! i) = int n"
    "ce_allocated (es ! i) = 0 \<Longrightarrow> n = 0" "i + n \<le> length es"
    "\<And>j. i < j \<Longrightarrow> j < i + n \<Longrightarrow> ce_allocated (es ! j) = 1" "\<And>j. i < j \<Longrightarrow> j < i + n \<Longrightarrow> ce_continuous (es ! j) = 0"
  shows "entry_ok es i"
proof -
  have n: "nat (ce_continuous (es ! i)) = n" "0 \<le> ce_continuous (es ! i)" using assms(2) by simp_all
  show ?thesis unfolding entry_ok_def n(1) using n(2) assms by auto
qed

lemma take_run_ok:
  assumes ok: "\<And>k. k < length es \<Longrightarrow> entry_ok es k" and n: "i + n \<le> length es" "0 < n"
    and free: "\<And>j. i \<le> j \<Longrightarrow> j < i + n \<Longrightarrow> ce_allocated (es ! j) = 0" and k: "k < length es"
  shows "entry_ok (take_run i n es) k"
proof -
  note nth = take_run_nth [OF n]
  have z: "ce_continuous (es ! j) = 0" if "i \<le> j" "j < i + n" for j
    by (rule entry_okD(3) [OF ok free]) (use that n in simp_all)
  note e = entry_okD [OF ok [OF k]]
  show ?thesis
  proof (cases "k = i")
    case True
    show ?thesis by (rule entry_okI [where n = n]; (unfold nth)?) (use True n z in simp_all)
  next
    case False
    have d: "\<not> (i \<le> j \<and> j < i + n)" if "k < j" "j < k + nat (ce_continuous (es ! k))" for j
      using e(5) [OF that] free [of j] by fastforce
    show ?thesis
    proof (rule entry_okI [where n = "nat (ce_continuous (es ! k))"]; (unfold nth)?)
      fix j assume j: "k < j" "j < k + nat (ce_continuous (es ! k))"
      show "(if i \<le> j \<and> j < i + n then 1 else ce_allocated (es ! j)) = 1" using d [OF j] e(5) [OF j] by simp
      show "(if j = i then int n else ce_continuous (es ! j)) = 0" using d [OF j] e(6) [OF j] n by auto
    qed (use False e(1-4) k in \<open>auto split: if_splits\<close>)
  qed
qed

lemma drop_run_ok:
  assumes ok: "\<And>k. k < length es \<Longrightarrow> entry_ok es k" and i: "i < length es" and k: "k < length es"
  shows "entry_ok (drop_run i es) k"
proof -
  note nth = drop_run_nth [OF i ok [OF i]]
  note ei = entry_okD [OF ok [OF i]] and e = entry_okD [OF ok [OF k]]
  show ?thesis
  proof (cases "k = i")
    case True
    show ?thesis by (rule entry_okI [where n = 0]; (unfold nth)?) (use True i ei(1) in auto)
  next
    case False
    have d: "\<not> (i \<le> j \<and> j < i + nat (ce_continuous (es ! i)))" if j: "k < j" "j < k + nat (ce_continuous (es ! k))" for j
    proof
      assume a: "i \<le> j \<and> j < i + nat (ce_continuous (es ! i))"
      show False
      proof (cases "k < i")
        case True
        then have "ce_continuous (es ! i) = 0" using a j by (intro e(6)) simp_all
        then show False using a by linarith
      next
        case False
        then have "ce_continuous (es ! k) = 0" using \<open>k \<noteq> i\<close> a j by (intro ei(6)) simp_all
        then show False using j by simp
      qed
    qed
    have z: "nat (ce_continuous (es ! k)) = 0" if "i < k" "k < i + nat (ce_continuous (es ! i))" using ei(6) [OF that] by simp
    show ?thesis
    proof (rule entry_okI [where n = "nat (ce_continuous (es ! k))"]; (unfold nth)?)
      fix j assume j: "k < j" "j < k + nat (ce_continuous (es ! k))"
      show "(if i \<le> j \<and> j < i + nat (ce_continuous (es ! i)) then 0 else ce_allocated (es ! j)) = 1"
        using d [OF j] e(5) [OF j] by simp
      show "(if j = i then 0 else ce_continuous (es ! j)) = 0" using e(6) [OF j] by simp
    qed (use False e(1-4) k z in \<open>auto split: if_splits\<close>)
  qed
qed

section \<open>What the operations do\<close>

lemma unat_add_nat: "unat (a :: u32) + k < 2 ^ 32 \<Longrightarrow> unat (a + of_nat k) = unat a + k"
proof -
  assume "unat a + k < 2 ^ 32"
  moreover have "a + of_nat k = of_nat (unat a + k)" by simp
  ultimately show ?thesis by (simp only: unat_of_nat) (simp add: take_bit_eq_mod)
qed

lemma unat_add_page: "unat (a :: u32) + 4096 * i < 2 ^ 32 \<Longrightarrow> unat (a + of_nat i * 4096) = unat a + 4096 * i"
  using unat_add_nat [of a "i * 4096"] by simp

lemma map_upd [simp]:
  "page_addr (s\<lparr>cm_entries := es\<rparr>) = page_addr s"
  by (simp add: page_addr_def fun_eq_iff)

lemma coremap_inv_upd:
  assumes "coremap_inv s" "length es = length (cm_entries s)" "\<And>k. k < length es \<Longrightarrow> entry_ok es k"
  shows "coremap_inv (s\<lparr>cm_entries := es\<rparr>)"
  using assms by (simp add: coremap_inv_def)

text \<open>Rounding an address down to its page.\<close>

lemma PAGE_FRAME_mask: "PAGE_FRAME = NOT (mask 12 :: u32)"
  by (simp add: mask_eq_exp_minus_1)

lemma unat_page_frame: "unat (w AND PAGE_FRAME) = 4096 * (unat w div 4096)"
proof -
  have p: "w AND PAGE_FRAME = push_bit 12 (drop_bit 12 w)" unfolding PAGE_FRAME_mask
    by (rule bit_word_eqI) (auto simp: bit_simps)
  have "unat w < 2 ^ 32" using unsigned_less [of w] by simp
  moreover from this have "unat w div 4096 * 4096 < 2 ^ 32" using div_times_less_eq_dividend [of "unat w" 4096] by linarith
  ultimately have "take_bit 32 (unat w) = unat w" "take_bit 32 (unat w div 4096 * 4096) = unat w div 4096 * 4096"
    by (simp_all only: take_bit_nat_eq_self)
  then show ?thesis unfolding p unsigned_push_bit_eq unsigned_take_bit_eq unsigned_drop_bit_eq
    by (simp add: push_bit_eq_mult drop_bit_eq_div)
qed

lemma page_frame_id: "PAGE_SIZE dvd unat pg \<Longrightarrow> pg AND PAGE_FRAME = pg"
  using unat_page_frame [of pg] by (simp add: word_unat_eq_iff)

text \<open>
  The first run of free pages: no page before it is free.  \<open>first_run_fits\<close> says that it has at least \<open>n\<close>
  pages, for \<open>n > 0\<close>.
\<close>

definition first_run_fits :: "nat \<Rightarrow> 'z vmsys_scheme \<Rightarrow> bool" where
  "first_run_fits n s \<longleftrightarrow> (\<exists>i. (\<forall>j<i. \<not> page_free s j) \<and> (\<forall>j<n. page_free s (i + j)))"

text \<open>The scan of \<^verbatim>\<open>getppages\<close> stops at the first free page, if there is one.\<close>

lemma skip_allocated_stop:
  "skip_allocated es < length es \<Longrightarrow> ce_allocated (es ! skip_allocated es) \<noteq> 1"
  by (induction es) auto

lemma skip_allocated_first:
  assumes inv: "coremap_inv s" and i: "\<forall>j<i. \<not> page_free s j" "page_free s i"
  shows "skip_allocated (cm_entries s) = i"
proof (rule antisym)
  let ?k = "skip_allocated (cm_entries s)"
  show "?k \<le> i" using skip_allocated_nth [of i "cm_entries s"] i(2) by (fastforce simp: page_free_def)
  show "i \<le> ?k"
  proof (rule ccontr)
    assume "\<not> i \<le> ?k"
    then have k: "?k < i" "?k < length (cm_entries s)" using i(2) by (simp_all add: page_free_def)
    have "ce_allocated (cm_entries s ! ?k) = 0"
      using skip_allocated_stop [OF k(2)] coremap_invD(6) [OF inv k(2)] by (auto simp: entry_ok_def)
    then show False using i(1) k by (simp add: page_free_def)
  qed
qed

lemma skip_allocated_before: "j < skip_allocated (cm_entries s) \<Longrightarrow> \<not> page_free s j"
  by (simp add: page_free_def skip_allocated_nth)

lemma first_run_fits_skip:
  assumes inv: "coremap_inv s" and n: "0 < n"
  shows "first_run_fits n s \<longleftrightarrow> skip_allocated (cm_entries s) + n \<le> length (cm_entries s) \<and>
           (\<forall>j<n. page_free s (skip_allocated (cm_entries s) + j))"
proof
  assume "first_run_fits n s"
  then obtain i where i: "\<forall>j<i. \<not> page_free s j" "\<forall>j<n. page_free s (i + j)" by (auto simp: first_run_fits_def)
  have e: "skip_allocated (cm_entries s) = i" using skip_allocated_first [OF inv i(1)] i(2) n by force
  have "page_free s (i + (n - 1))" using i(2) [rule_format, of "n - 1"] n by simp
  then show "skip_allocated (cm_entries s) + n \<le> length (cm_entries s) \<and> (\<forall>j<n. page_free s (skip_allocated (cm_entries s) + j))"
    using i(2) n unfolding e by (auto simp: page_free_def)
next
  assume "skip_allocated (cm_entries s) + n \<le> length (cm_entries s) \<and> (\<forall>j<n. page_free s (skip_allocated (cm_entries s) + j))"
  then show "first_run_fits n s" unfolding first_run_fits_def using skip_allocated_before by blast
qed

lemma first_run_fits_1: "first_run_fits 1 s \<longleftrightarrow> (\<exists>i. page_free s i)"
  unfolding first_run_fits_def using exists_least_iff [of "page_free s"] by (auto simp: less_Suc_eq)

lemma paddr_nonzero:
  assumes inv: "coremap_inv s" and i: "i \<le> length (cm_entries s)" shows "free_pages_str s + of_nat i * 4096 \<noteq> 0"
proof -
  have "unat (free_pages_str s) + 4096 * i < 2 ^ 32" using coremap_invD(5) [OF inv] i by simp
  then have "unat (free_pages_str s + of_nat i * 4096) = unat (free_pages_str s) + 4096 * i" by (rule unat_add_page)
  then show ?thesis using coremap_invD(4) [OF inv] by (metis add_is_0 less_irrefl unat_0)
qed

lemma alloc_kpages_cases:
  assumes inv: "coremap_inv s" and spl: "spl_ok s" and n: "0 < n" "n < 2 ^ 31"
  defines "i \<equiv> skip_allocated (cm_entries s)"
  shows "alloc_kpages (int n) s =
     (if first_run_fits n s then Ret (page_addr s i) (s\<lparr>cm_entries := take_run i n (cm_entries s)\<rparr>) else Ret 0 s)"
proof -
  let ?es = "cm_entries s"
  have u: "unat (of_int (int n) :: u32) = n" "uint (of_int (int n) :: u32) = int n" using n
    by (simp_all add: unat_of_nat uint_nat)
  have i: "i \<le> length ?es" unfolding i_def by (rule skip_allocated_le)
  have f: "free_run n (drop i ?es) 0 \<longleftrightarrow> first_run_fits n s"
    unfolding free_run_iff [OF n(1)] first_run_fits_skip [OF inv n(1)] i_def [symmetric] page_free_def using i n(1)
    by (auto simp: less_diff_conv2)
  have z: "free_pages_str s + of_nat i * 4096 \<noteq> 0" unfolding i_def by (rule paddr_nonzero [OF inv skip_allocated_le])
  have t: "take (unat (numofpage s)) ?es = ?es" "unat (numofpage s) \<le> length ?es" using coremap_invD(2) [OF inv] by simp_all
  show ?thesis
    unfolding alloc_kpages_def getppages_def Let_def splhigh_vm t(1) u i_def [symmetric] f
    using spl z t(2) coremap_invD(1) [OF inv]
    by (cases "first_run_fits n s") (simp_all add: page_addr_def take_run_def)
qed

lemma page_index:
  assumes inv: "coremap_inv s" and i: "i \<le> length (cm_entries s)"
  shows "unat (page_addr s i) = 2 ^ 31 + unat (free_pages_str s) + 4096 * i"
    "unat (drop_bit 12 (KVADDR_TO_PADDR (page_addr s i) - free_pages_str s)) = i"
proof -
  have lt: "unat (free_pages_str s) + 4096 * i < 2 ^ 31" using coremap_invD(5) [OF inv] i by simp
  then have f: "unat (free_pages_str s + of_nat i * 4096) = unat (free_pages_str s) + 4096 * i" by (intro unat_add_page) simp
  have "page_addr s i = (free_pages_str s + of_nat i * 4096) + of_nat (2 ^ 31)" by (simp add: page_addr_def PADDR_TO_KVADDR_def)
  then have "unat (page_addr s i) = unat (free_pages_str s + of_nat i * 4096) + 2 ^ 31" 
    using unat_add_nat [of "free_pages_str s + of_nat i * 4096" "2 ^ 31"] f lt by simp
  then show "unat (page_addr s i) = 2 ^ 31 + unat (free_pages_str s) + 4096 * i" using f by simp
  have "KVADDR_TO_PADDR (page_addr s i) - free_pages_str s = 0 + of_nat i * 4096"
    by (simp add: page_addr_def PADDR_TO_KVADDR_def KVADDR_TO_PADDR_def)
  moreover have "unat (0 + of_nat i * 4096 :: u32) = 4096 * i" using unat_add_page [of 0 i] lt by simp
  ultimately show "unat (drop_bit 12 (KVADDR_TO_PADDR (page_addr s i) - free_pages_str s)) = i"
    unfolding unat_drop_bit_eq by (simp only:) (simp add: drop_bit_eq_div)
qed

lemma page_addr_nonzero: "coremap_inv s \<Longrightarrow> page_addr s (skip_allocated (cm_entries s)) \<noteq> 0"
  using page_index(1) [OF _ skip_allocated_le, of s] by (metis add_is_0 power_eq_0_iff unat_0 zero_neq_numeral)

lemma free_kpages_run:
  assumes inv: "coremap_inv s" and spl: "spl_ok s" and i: "i < length (cm_entries s)"
  shows "free_kpages (page_addr s i) s = Ret () (s\<lparr>cm_entries := drop_run i (cm_entries s)\<rparr>)"
proof -
  note e = entry_okD [OF coremap_invD(6) [OF inv i]] and m = coremap_invD(1,2) [OF inv]
  show ?thesis
    unfolding free_kpages_def Let_def splhigh_vm page_index(2) [OF inv less_imp_le [OF i]]
    using spl m i e(4) by (simp add: drop_run_def Let_def)
qed

section \<open>The contract of the page allocator\<close>

text \<open>Two regions of memory that have no byte in common.\<close>

definition apart :: "u32 \<Rightarrow> nat \<Rightarrow> u32 \<Rightarrow> nat \<Rightarrow> bool" where
  "apart a m b n \<longleftrightarrow> unat a + m \<le> unat b \<or> unat b + n \<le> unat a"

text \<open>
  \<open>held s a\<close> is the number of pages of the run allocated at address \<open>a\<close>, and \<open>rest\<close> is what the
  allocator leaves alone.
\<close>

locale page_allocator =
  fixes inv :: "'s \<Rightarrow> bool"
    and alloc :: "nat \<Rightarrow> 's \<Rightarrow> ('s, u32) outcome"
    and release :: "u32 \<Rightarrow> 's \<Rightarrow> ('s, unit) outcome"
    and held :: "'s \<Rightarrow> u32 \<Rightarrow> nat"
    and rest :: "'s \<Rightarrow> 'r"
  assumes held_page: "inv s \<Longrightarrow> 0 < held s a \<Longrightarrow>
      PAGE_SIZE dvd unat a \<and> 2 ^ 31 < unat a \<and> unat a + PAGE_SIZE * held s a < 2 ^ 32"
    and held_apart: "inv s \<Longrightarrow> 0 < held s a \<Longrightarrow> 0 < held s b \<Longrightarrow> a \<noteq> b \<Longrightarrow>
      apart a (PAGE_SIZE * held s a) b (PAGE_SIZE * held s b)"
    and alloc_new: "inv s \<Longrightarrow> 0 < n \<Longrightarrow> n < 2 ^ 31 \<Longrightarrow> alloc n s = Ret 0 s \<or>
      (\<exists>a s'. alloc n s = Ret a s' \<and> a \<noteq> 0 \<and> inv s' \<and> held s a = 0 \<and> held s' = (held s)(a := n) \<and> rest s' = rest s)"
    and release_held: "inv s \<Longrightarrow> 0 < held s a \<Longrightarrow>
      (\<exists>s'. release a s = Ret () s' \<and> inv s' \<and> held s' = (held s)(a := 0) \<and> rest s' = rest s)"
begin

text \<open>A fresh run has no byte in common with one that is held, even with a part of it.\<close>

lemma fresh_apart:
  assumes "inv s'" "held s' = (held s)(a := n)" "held s a = 0" "0 < n" "0 < held s b"
  shows "apart a (PAGE_SIZE * n) b (PAGE_SIZE * held s b)"
proof -
  have "b \<noteq> a" using assms(3,5) by auto
  then show ?thesis using held_apart [OF assms(1), of a b] assms(2,4,5) by simp
qed

lemma alloc_then_release:
  assumes "inv s" "0 < n" "n < 2 ^ 31" "alloc n s = Ret a s'" "a \<noteq> 0"
  shows "\<exists>s''. release a s' = Ret () s'' \<and> inv s'' \<and> held s'' = held s \<and> rest s'' = rest s"
proof -
  have h: "inv s'" "held s a = 0" "held s' = (held s)(a := n)" "rest s' = rest s"
    using alloc_new [OF assms(1-3)] assms(4,5) by auto
  then have "(held s)(a := 0) = held s" by (simp add: fun_upd_idem)
  then show ?thesis using release_held [OF h(1), of a] h assms(2) by auto
qed

end

definition held_pages :: "'z vmsys_scheme \<Rightarrow> u32 \<Rightarrow> nat" where
  "held_pages s a =
     (let i = unat (drop_bit 12 (KVADDR_TO_PADDR a - free_pages_str s)) in if page_addr s i = a then run_at s i else 0)"

definition vm_rest :: "'z vmsys_scheme \<Rightarrow> 'z vmsys_scheme" where
  "vm_rest s = s\<lparr>cm_entries := []\<rparr>"

definition vm_ok :: "'z vmsys_scheme \<Rightarrow> bool" where
  "vm_ok s \<longleftrightarrow> coremap_inv s \<and> spl_ok s"

lemma held_pages_index: "coremap_inv s \<Longrightarrow> i \<le> length (cm_entries s) \<Longrightarrow> held_pages s (page_addr s i) = run_at s i"
  by (simp add: held_pages_def page_index)

lemma held_pagesE:
  assumes "0 < held_pages s a"
  obtains i where "a = page_addr s i" "i < length (cm_entries s)" "held_pages s a = nat (ce_continuous (cm_entries s ! i))"
proof -
  let ?i = "unat (drop_bit 12 (KVADDR_TO_PADDR a - free_pages_str s))"
  have "page_addr s ?i = a" "?i < length (cm_entries s)" "held_pages s a = nat (ce_continuous (cm_entries s ! ?i))"
    using assms by (auto simp: held_pages_def Let_def run_at_def split: if_splits)
  then show ?thesis using that [of ?i] by metis
qed

lemma held_pages_upd:
  assumes inv: "coremap_inv s" and len: "length es = length (cm_entries s)" and i: "i < length es"
    and c: "\<And>j. ce_continuous (es ! j) = (if j = i then int n else ce_continuous (cm_entries s ! j))"
  shows "held_pages (s\<lparr>cm_entries := es\<rparr>) = (held_pages s)(page_addr s i := n)"
proof
  fix a
  let ?j = "unat (drop_bit 12 (KVADDR_TO_PADDR a - free_pages_str s))"
  show "held_pages (s\<lparr>cm_entries := es\<rparr>) a = ((held_pages s)(page_addr s i := n)) a"
  proof (cases "a = page_addr s i")
    case True
    then have "?j = i" using page_index(2) [OF inv, of i] i len by simp
    then show ?thesis using True i c by (simp add: held_pages_def run_at_def)
  next
    case False
    then show ?thesis using len c by (auto simp: held_pages_def Let_def run_at_def)
  qed
qed

lemma vm_okD: "vm_ok s \<Longrightarrow> coremap_inv s" "vm_ok s \<Longrightarrow> spl_ok s"
  by (simp_all add: vm_ok_def)

lemma held_pages_page:
  assumes ok: "vm_ok s" and a: "0 < held_pages s a"
  shows "PAGE_SIZE dvd unat a" "2 ^ 31 < unat a" "unat a + PAGE_SIZE * held_pages s a < 2 ^ 32"
proof -
  note inv = vm_okD(1) [OF ok] and spl = vm_okD(2) [OF ok]
  from a obtain i where i: "a = page_addr s i" "i < length (cm_entries s)" "held_pages s a = nat (ce_continuous (cm_entries s ! i))"
    by (rule held_pagesE)
  note e = entry_okD [OF coremap_invD(6) [OF inv i(2)]]
  have p: "unat a = 2 ^ 31 + unat (free_pages_str s) + 4096 * i" using page_index(1) [OF inv less_imp_le [OF i(2)]] i(1) by simp
  have "unat (free_pages_str s) + 4096 * (i + held_pages s a) \<le> 508 * 1024 * 1024"
    using coremap_invD(5) [OF inv] e(4) i(3) by simp
  then show "unat a + PAGE_SIZE * held_pages s a < 2 ^ 32" unfolding p by (simp add: algebra_simps)
  show "2 ^ 31 < unat a" using coremap_invD(4) [OF inv] unfolding p by simp
  have "(4096 :: nat) dvd 2 ^ 31" by (simp add: dvd_def)
  then show "PAGE_SIZE dvd unat a" using coremap_invD(3) [OF inv] unfolding p by (intro dvd_add dvd_triv_left)
qed

lemma held_pages_apart:
  assumes ok: "vm_ok s" and ab: "0 < held_pages s a" "0 < held_pages s b" "a \<noteq> b"
  shows "apart a (PAGE_SIZE * held_pages s a) b (PAGE_SIZE * held_pages s b)"
proof -
  note inv = vm_okD(1) [OF ok] and spl = vm_okD(2) [OF ok]
  from ab(1) obtain i where i: "a = page_addr s i" "i < length (cm_entries s)" "held_pages s a = nat (ce_continuous (cm_entries s ! i))"
    by (rule held_pagesE)
  from ab(2) obtain j where j: "b = page_addr s j" "j < length (cm_entries s)" "held_pages s b = nat (ce_continuous (cm_entries s ! j))"
    by (rule held_pagesE)
  note e = entry_okD [OF coremap_invD(6) [OF inv i(2)]] and f = entry_okD [OF coremap_invD(6) [OF inv j(2)]]
  have p: "unat a = 2 ^ 31 + unat (free_pages_str s) + 4096 * i" "unat b = 2 ^ 31 + unat (free_pages_str s) + 4096 * j"
    using page_index(1) [OF inv less_imp_le [OF i(2)]] page_index(1) [OF inv less_imp_le [OF j(2)]] i(1) j(1) by simp_all
  have "i \<noteq> j" using ab(3) i(1) j(1) by blast
  then have "i + held_pages s a \<le> j \<or> j + held_pages s b \<le> i"
    using e(6) [of j] f(6) [of i] ab(1,2) i(3) j(3) by (cases "i < j") (fastforce simp: not_less)+
  then show ?thesis unfolding apart_def p by auto
qed

lemma alloc_kpages_new:
  assumes ok: "vm_ok s" and n: "0 < n" "n < 2 ^ 31"
  shows "alloc_kpages (int n) s = Ret 0 s \<or> (\<exists>a s'. alloc_kpages (int n) s = Ret a s' \<and> a \<noteq> 0 \<and> vm_ok s' \<and>
      held_pages s a = 0 \<and> held_pages s' = (held_pages s)(a := n) \<and> vm_rest s' = vm_rest s)"
proof -
  note inv = vm_okD(1) [OF ok] and spl = vm_okD(2) [OF ok]
  show ?thesis
  proof (cases "first_run_fits n s")
    case True
    let ?i = "skip_allocated (cm_entries s)"
    let ?s = "s\<lparr>cm_entries := take_run ?i n (cm_entries s)\<rparr>"
    have i: "?i + n \<le> length (cm_entries s)" and f: "\<forall>j < n. page_free s (?i + j)"
      using True by (simp_all add: first_run_fits_skip [OF inv n(1)])
    have free: "ce_allocated (cm_entries s ! j) = 0" if "?i \<le> j" "j < ?i + n" for j
      using f [rule_format, of "j - ?i"] that by (simp add: page_free_def)
    have li: "?i < length (cm_entries s)" using i n by simp
    have "coremap_inv ?s"
      by (rule coremap_inv_upd [OF inv]) (use take_run_ok [OF coremap_invD(6) [OF inv] i n(1) free] in simp_all)
    moreover have "held_pages ?s = (held_pages s)(page_addr s ?i := n)"
      by (rule held_pages_upd [OF inv]) (use li take_run_nth(2) [OF i n(1)] in simp_all)
    moreover have "held_pages s (page_addr s ?i) = 0"
      using held_pages_index [OF inv less_imp_le [OF li]] entry_okD(3) [OF coremap_invD(6) [OF inv li]] free [of ?i] n
      by (simp add: run_at_def)
    moreover have "page_addr s ?i \<noteq> 0" using page_index(1) [OF inv less_imp_le [OF li]] by (metis add_is_0 power_eq_0_iff unat_0 zero_neq_numeral)
    ultimately show ?thesis unfolding alloc_kpages_cases [OF inv spl n] using True spl
      by (simp add: vm_ok_def spl_ok_def vm_rest_def)
  qed (simp add: alloc_kpages_cases [OF inv spl n])
qed

lemma free_kpages_held:
  assumes ok: "vm_ok s" and a: "0 < held_pages s a"
  shows "\<exists>s'. free_kpages a s = Ret () s' \<and> vm_ok s' \<and> held_pages s' = (held_pages s)(a := 0) \<and> vm_rest s' = vm_rest s"
proof -
  note inv = vm_okD(1) [OF ok] and spl = vm_okD(2) [OF ok]
  from a obtain i where i: "a = page_addr s i" "i < length (cm_entries s)" by (rule held_pagesE)
  let ?s = "s\<lparr>cm_entries := drop_run i (cm_entries s)\<rparr>"
  have "coremap_inv ?s" by (rule coremap_inv_upd [OF inv]) (use coremap_invD(6) [OF inv] i(2) in \<open>simp_all add: drop_run_ok\<close>)
  moreover have "held_pages ?s = (held_pages s)(a := 0)" unfolding i(1)
    by (rule held_pages_upd [OF inv]) (use i(2) drop_run_nth(2) [OF i(2) coremap_invD(6) [OF inv i(2)]] in simp_all)
  ultimately show ?thesis
    unfolding i(1) free_kpages_run [OF inv spl i(2)] using spl by (simp add: vm_ok_def spl_ok_def vm_rest_def)
qed

interpretation cm: page_allocator vm_ok "\<lambda>n. alloc_kpages (int n)" free_kpages held_pages vm_rest
  by (unfold_locales; (intro conjI)?; rule held_pages_page held_pages_apart alloc_kpages_new free_kpages_held; assumption)

section \<open>Properties\<close>

text \<open>
  C33. \<^verbatim>\<open>vm_bootstrap\<close> divides the memory soundly.  If RAM is page aligned at the bottom and zeroed, the core map starts out
  consistent with every page free, its entries end before the first page it hands out, and the last page ends
  within RAM.
\<close>

theorem vm_bootstrap_divides_memory:
  assumes a: "PAGE_SIZE dvd unat (firstpaddr s)" and l: "unat (firstpaddr s) + PAGE_SIZE \<le> unat (lastpaddr s)"
    "unat (lastpaddr s) \<le> 508 * 1024 * 1024" and raw: "\<forall>i. ce_allocated (raw i) = 0 \<and> ce_continuous (raw i) = 0"
  defines "t \<equiv> vm_bootstrap raw s"
  shows "coremap_inv t \<and> (\<forall>i < unat (numofpage t). page_free t i) \<and>
     KVADDR_TO_PADDR (coremap_str t) = firstpaddr s \<and>
     unat (firstpaddr s) + 16 * unat (numofpage t) \<le> unat (free_pages_str t) \<and>
     unat (free_pages_str t) + PAGE_SIZE * unat (numofpage t) \<le> unat (lastpaddr s)"
proof -
  define f where "f = unat (firstpaddr s)"
  define h where "h = unat (lastpaddr s) div 4096"
  define N where "N = h - f div 4096"
  define c where "c = N * 16 div 4096 + 1"
  define free where "free = drop_bit 12 ((lastpaddr s AND PAGE_FRAME) - firstpaddr s)"
  define w where "w = free * 16 div 4096 + 1"
  have f: "4096 * (f div 4096) = f" using a by (simp add: f_def)
  have h: "4096 * h \<le> unat (lastpaddr s)" "h \<le> 130048" using l(2) by (simp_all add: h_def)
  have N: "1 \<le> N" "f + 4096 * N = 4096 * h" using l(1) f unfolding N_def h_def f_def by linarith+
  have "firstpaddr s \<le> lastpaddr s AND PAGE_FRAME"
    using N f by (simp add: word_le_nat_alt unat_page_frame flip: f_def h_def)
  then have "unat ((lastpaddr s AND PAGE_FRAME) - firstpaddr s) = 4096 * N"
    using N(2) by (simp add: unat_sub unat_page_frame flip: f_def h_def)
  then have free: "unat free = N" unfolding free_def unat_drop_bit_eq by (simp add: drop_bit_eq_div)
  have N': "N \<le> 130048" using N(2) h(2) by linarith
  then have f16: "unat (free * 16) = N * 16" by (simp add: unat_word_ariths free)
  have d: "unat (free * 16 div 4096) = N * 16 div 4096" unfolding unat_div f16 by simp
  have "unat w = (unat (free * 16 div 4096) + 1) mod 2 ^ 32" by (simp add: w_def unat_word_ariths del: unat_div)
  then have w: "unat w = c" using N' unfolding d c_def by simp
  have c: "c \<le> N" "16 * N \<le> 4096 * c" "1 \<le> c" using N(1) by (simp_all add: c_def)
  have fc: "f + 4096 * c \<le> 4096 * h" using N(2) c(1) by linarith
  have "unat (push_bit 12 w) = 4096 * c" using c(1) N' by (simp add: push_bit_eq_mult unat_word_ariths w)
  then have p: "unat (firstpaddr s + push_bit 12 w) = f + 4096 * c" using fc h(2) by (simp add: unat_word_ariths flip: f_def)
  have n: "unat (free - w) = N - c" using free w c(1) by (simp add: unat_sub word_le_nat_alt)
  have t: "numofpage t = free - w" "free_pages_str t = firstpaddr s + push_bit 12 w" "coremap_str t = PADDR_TO_KVADDR (firstpaddr s)"
    "cm_entries t = map raw [0..<N - c]"
    using n page_frame_id [OF a] unfolding t_def vm_bootstrap_def Let_def ram_getsize_def w_def free_def by simp_all
  have "4096 * (N - c) = 4096 * N - 4096 * c" by (rule diff_mult_distrib2)
  then have top: "f + 4096 * c + 4096 * (N - c) = 4096 * h" "f + 16 * (N - c) \<le> f + 4096 * c" using N(2) c by linarith+
  have e: "entry_ok (cm_entries t) i" if "i < N - c" for i
    using that raw by (intro entry_okI [where n = 0]) (simp_all add: t(4))
  have "unat (PADDR_TO_KVADDR (firstpaddr s)) = f + 2 ^ 31"
    using unat_add_nat [of "firstpaddr s" "2 ^ 31"] N h by (simp add: PADDR_TO_KVADDR_def flip: f_def)
  then have "PADDR_TO_KVADDR (firstpaddr s) \<noteq> 0" by auto
  moreover have "PAGE_SIZE dvd f + 4096 * c" using a unfolding f_def by (intro dvd_add dvd_triv_left)
  moreover have "f + 4096 * c + 4096 * (N - c) \<le> 508 * 1024 * 1024" "0 < f + 4096 * c" using top h c(3) by linarith+
  moreover have "length (cm_entries t) = N - c" using t(4) by simp
  ultimately have "coremap_inv t" unfolding coremap_inv_def t(1-3) p n using e by (simp only:) blast
  moreover have "page_free t i" if "i < N - c" for i using that raw by (simp add: page_free_def t(4))
  ultimately show ?thesis unfolding t(1-3) p n f_def [symmetric] using top h(1)
    by (simp add: KVADDR_TO_PADDR_def PADDR_TO_KVADDR_def)
qed

text \<open>A sample system for the witnesses: \<open>es\<close> is the core map, of pages from physical address 0x40000 on.\<close>

definition free_entry :: coremap_entry where
  "free_entry = \<lparr>ce_allocated = 0, ce_continuous = 0, ce_as = None, ce_pe = None\<rparr>"

definition sample_vm :: "coremap_entry list \<Rightarrow> 'z \<Rightarrow> 'z vmsys_scheme" where
  "sample_vm es z = sample_sys 0 0 8 \<lparr>vmsys.firstfree = 0x80030000, firstpaddr = 0x30000, lastpaddr = 0x80000,
     numofpage = of_nat (length es), free_pages_str = 0x40000, coremap_str = 0x80030000, cm_entries = es, kmem = (\<lambda>_. 0), \<dots> = z\<rparr>"

lemma sample_vm_ok:
  assumes es: "\<forall>e \<in> set es. e = free_entry \<or> e = free_entry\<lparr>ce_allocated := 1\<rparr>" "length es < 100"
  shows "vm_ok (sample_vm es z)" "held_pages (sample_vm es z) a = 0"
proof -
  let ?s = "sample_vm es z"
  have f: "cm_entries ?s = es" "numofpage ?s = of_nat (length es)" "free_pages_str ?s = 0x40000" "coremap_str ?s = 0x80030000"
    "curspl ?s = 0" "ints_on ?s"
    by (simp_all add: sample_vm_def sample_sys_def)
  have c: "ce_continuous (es ! i) = 0" "ce_allocated (es ! i) = 0 \<or> ce_allocated (es ! i) = 1" if "i < length es" for i
    using es(1) nth_mem [OF that] by (force simp: free_entry_def)+
  have "entry_ok es i" if "i < length es" for i
    by (rule entry_okI [where n = 0]) (use c [OF that] that in auto)
  then have "coremap_inv ?s" unfolding coremap_inv_def f using es(2) by (simp add: unat_of_nat)
  then show "vm_ok ?s" by (simp add: vm_ok_def spl_ok_def f)
  show "held_pages ?s a = 0" using c(1) by (auto simp: held_pages_def run_at_def f Let_def)
qed

theorem vm_bootstrap_divides_memory_witness:
  "coremap_inv (vm_bootstrap (\<lambda>_. free_entry) (sample_vm [] ())) \<and>
   unat (free_pages_str (vm_bootstrap (\<lambda>_. free_entry) (sample_vm [] ()))) + PAGE_SIZE * unat (numofpage (vm_bootstrap (\<lambda>_. free_entry) (sample_vm [] ()))) \<le> 0x80000"
proof -
  have "firstpaddr (sample_vm [] ()) = 0x30000" "lastpaddr (sample_vm [] ()) = 0x80000" by (simp_all add: sample_vm_def sample_sys_def)
  then show ?thesis
    using vm_bootstrap_divides_memory [of "sample_vm [] ()" "\<lambda>_. free_entry"] by (simp add: free_entry_def)
qed

text \<open>
  C34. The page allocator looks only at the first run of free pages.  If this run has enough pages, the request is
  given its first pages and these pages and no others stop being free; if it is too short, the request fails and
  nothing changes, whatever later runs there are.
\<close>

theorem alloc_kpages_first_run_only:
  assumes "vm_ok s" "0 < n" "n < 2 ^ 31"
  shows "\<exists>a s'. alloc_kpages (int n) s = Ret a s' \<and>
     (if first_run_fits n s
      then \<exists>i. (\<forall>j<i. \<not> page_free s j) \<and> (\<forall>j<n. page_free s (i + j)) \<and> a = page_addr s i \<and> a \<noteq> 0 \<and>
             held_pages s' = (held_pages s)(a := n) \<and> (\<forall>j. page_free s' j \<longleftrightarrow> page_free s j \<and> (j < i \<or> i + n \<le> j))
      else a = 0 \<and> s' = s)"
proof (cases "first_run_fits n s")
  case True
  note c = vm_okD [OF assms(1)]
  let ?i = "skip_allocated (cm_entries s)"
  let ?s = "s\<lparr>cm_entries := take_run ?i n (cm_entries s)\<rparr>"
  have r: "alloc_kpages (int n) s = Ret (page_addr s ?i) ?s" unfolding alloc_kpages_cases [OF c assms(2,3)] using True by simp
  have f: "?i + n \<le> length (cm_entries s)" "\<forall>j<n. page_free s (?i + j)"
    using True first_run_fits_skip [OF c(1) assms(2)] by simp_all
  have "held_pages ?s = (held_pages s)(page_addr s ?i := n)"
    using alloc_kpages_new [OF assms] r page_addr_nonzero [OF c(1)] by auto
  moreover have "page_free ?s j \<longleftrightarrow> page_free s j \<and> (j < ?i \<or> ?i + n \<le> j)" for j
    using take_run_nth(1) [OF f(1) assms(2), of j] by (auto simp: page_free_def)
  moreover have "\<forall>j<?i. \<not> page_free s j" using skip_allocated_before by blast
  ultimately show ?thesis using True r f(2) page_addr_nonzero [OF c(1)] by (metis (full_types))
next
  case False
  then show ?thesis using alloc_kpages_cases [OF vm_okD [OF assms(1)] assms(2,3)] by simp
qed

theorem alloc_kpages_first_run_only_witness:
  "let s = sample_vm [free_entry, free_entry\<lparr>ce_allocated := 1\<rparr>, free_entry, free_entry] () in
     page_free s 2 \<and> page_free s 3 \<and> alloc_kpages (int 2) s = Ret 0 s"
proof -
  let ?s = "sample_vm [free_entry, free_entry\<lparr>ce_allocated := 1\<rparr>, free_entry, free_entry] ()"
  have v: "vm_ok ?s" by (rule sample_vm_ok) simp_all
  have p: "page_free ?s 0" "\<not> page_free ?s 1" "page_free ?s 2" "page_free ?s 3"
    by (simp_all add: page_free_def sample_vm_def sample_sys_def free_entry_def)
  have "\<not> first_run_fits 2 ?s"
  proof
    assume "first_run_fits 2 ?s"
    then obtain i where i: "\<forall>j<i. \<not> page_free ?s j" "\<forall>j<2. page_free ?s (i + j)" by (auto simp: first_run_fits_def)
    have "i = 0" using i(1) p(1) by blast
    then show False using i(2) p(2) by (metis add_0 one_less_numeral_iff semiring_norm(76))
  qed
  then show ?thesis using p alloc_kpages_first_run_only [OF v, of 2] by (simp add: Let_def)
qed

end
