(* ===== verification/Kheap.thy ===== *)
theory Kheap
  imports Coremap
begin

text \<open>
  The kernel heap of \<^verbatim>\<open>kern/lib/kheap.c\<close>: pages cut into blocks of one of eight sizes, each with a
  free list that runs through the free blocks, the table of page references and the two kinds of
  lists they are linked into.  Larger requests go to the page allocator.
\<close>

section \<open>The model\<close>

abbreviation NSIZES :: nat where "NSIZES \<equiv> 8"
abbreviation NPAGEREFS :: nat where "NPAGEREFS \<equiv> 256"
abbreviation INUSE_WORDS :: nat where "INUSE_WORDS \<equiv> 8"
abbreviation LARGEST_SUBPAGE_SIZE :: nat where "LARGEST_SUBPAGE_SIZE \<equiv> 2048"
abbreviation INVALID_OFFSET :: u16 where "INVALID_OFFSET \<equiv> 0xffff"

definition sizes :: "nat list" where
  "sizes = [16, 32, 64, 128, 256, 512, 1024, 2048]"

text \<open>\<^verbatim>\<open>struct pageref\<close>; a pointer to one is an index into the table \<^verbatim>\<open>pagerefs\<close>, or \<^verbatim>\<open>NULL\<close>.\<close>

record pageref =
  next_samesize :: "nat option"
  next_all :: "nat option"
  pageaddr_and_blocktype :: u32
  freelist_offset :: u16
  nfree :: u16

definition PR_PAGEADDR :: "pageref \<Rightarrow> u32" where
  "PR_PAGEADDR pr = pageaddr_and_blocktype pr AND PAGE_FRAME"

definition PR_BLOCKTYPE :: "pageref \<Rightarrow> nat" where
  "PR_BLOCKTYPE pr = unat (pageaddr_and_blocktype pr AND NOT PAGE_FRAME)"

definition MKPAB :: "u32 \<Rightarrow> u32 \<Rightarrow> u32" where
  "MKPAB pa blk = (pa AND PAGE_FRAME) OR (blk AND NOT PAGE_FRAME)"

record kheap = vmsys +
  pagerefs :: "pageref list"
  pagerefs_inuse :: "u32 list"
  sizebases :: "nat option list"
  allbase :: "nat option"

text \<open>\<^verbatim>\<open>fill_deadbeef\<close>; \<^verbatim>\<open>fl->next\<close> is the first word of a free block.\<close>

definition fill_deadbeef :: "u32 \<Rightarrow> nat \<Rightarrow> (u32 \<Rightarrow> u32) \<Rightarrow> u32 \<Rightarrow> u32" where
  "fill_deadbeef ptr len m = fold (\<lambda>i m. m(ptr + of_nat (4 * i) := 0xdeadbeef)) [0..<len div 4] m"

text \<open>The loops of \<^verbatim>\<open>allocpageref\<close>: over the bits of a word, and over the words.\<close>

primrec free_bit :: "nat \<Rightarrow> nat \<Rightarrow> u32 \<Rightarrow> nat option" where
  "free_bit 0 j w = None"
| "free_bit (Suc n) j w = (if w AND push_bit j 1 = 0 then Some j else free_bit n (Suc j) w)"

primrec allocpageref_loop :: "nat \<Rightarrow> nat \<Rightarrow> 'z kheap_scheme \<Rightarrow> ('z kheap_scheme, nat option) outcome" where
  "allocpageref_loop 0 i s = Ret None s"
| "allocpageref_loop (Suc n) i s =
     (if pagerefs_inuse s ! i = 0xffffffff then allocpageref_loop n (Suc i) s
      else case free_bit 32 0 (pagerefs_inuse s ! i) of
          None \<Rightarrow> Panic
        | Some j \<Rightarrow> Ret (Some (i * 32 + j))
            (s\<lparr>pagerefs_inuse := (pagerefs_inuse s)[i := pagerefs_inuse s ! i OR push_bit j 1]\<rparr>))"

definition allocpageref :: "'z kheap_scheme \<Rightarrow> ('z kheap_scheme, nat option) outcome" where
  "allocpageref s = allocpageref_loop INUSE_WORDS 0 s"

definition freepageref :: "nat \<Rightarrow> 'z kheap_scheme \<Rightarrow> ('z kheap_scheme, unit) outcome" where
  "freepageref j s =
     kassert (j < NPAGEREFS)
      (let i = j div 32; k = push_bit (j mod 32) 1 in
       kassert (pagerefs_inuse s ! i AND k \<noteq> 0)
        (Ret () (s\<lparr>pagerefs_inuse := (pagerefs_inuse s)[i := pagerefs_inuse s ! i AND NOT k]\<rparr>)))"

text \<open>
  The lists are walked with a bound on the number of steps: a list of distinct page references
  has at most \<^verbatim>\<open>NPAGEREFS\<close> of them, and a walk that goes on for longer would not end.  The loops of
  \<^verbatim>\<open>remove_lists\<close> differ in the link \<open>nx\<close> they follow; \<open>guy\<close> is the page reference whose link
  points to the current one, or none at the base of the list.
\<close>

definition upd_pr :: "nat \<Rightarrow> (pageref \<Rightarrow> pageref) \<Rightarrow> 'z kheap_scheme \<Rightarrow> 'z kheap_scheme" where
  "upd_pr p f s = s\<lparr>pagerefs := (pagerefs s)[p := f (pagerefs s ! p)]\<rparr>"

primrec find_link :: "nat \<Rightarrow> (pageref \<Rightarrow> nat option) \<Rightarrow> nat \<Rightarrow> nat option \<Rightarrow> nat option \<Rightarrow> 'z kheap_scheme \<Rightarrow>
    ('z kheap_scheme, nat option option) outcome" where
  "find_link 0 nx pr guy cur s = (if cur = None then Ret None s else Undef)"
| "find_link (Suc n) nx pr guy cur s =
     (case cur of None \<Rightarrow> Ret None s
      | Some c \<Rightarrow> if c = pr then Ret (Some guy) s else find_link n nx pr (Some c) (nx (pagerefs s ! c)) s)"

definition remove_lists :: "nat \<Rightarrow> nat \<Rightarrow> 'z kheap_scheme \<Rightarrow> ('z kheap_scheme, unit) outcome" where
  "remove_lists pr blktype s =
     kassert (blktype < NSIZES)
      (andthen (find_link NPAGEREFS next_samesize pr None (sizebases s ! blktype) s)
        (\<lambda>guy s.
          let nx = next_samesize (pagerefs s ! pr);
              s = (case guy of None \<Rightarrow> s
                   | Some None \<Rightarrow> s\<lparr>sizebases := (sizebases s)[blktype := nx]\<rparr>
                   | Some (Some g) \<Rightarrow> upd_pr g (\<lambda>r. r\<lparr>next_samesize := nx\<rparr>) s)
          in andthen (find_link NPAGEREFS next_all pr None (allbase s) s)
              (\<lambda>guy s.
                let nx = next_all (pagerefs s ! pr)
                in Ret () (case guy of None \<Rightarrow> s
                     | Some None \<Rightarrow> s\<lparr>allbase := nx\<rparr>
                     | Some (Some g) \<Rightarrow> upd_pr g (\<lambda>r. r\<lparr>next_all := nx\<rparr>) s))))"

primrec blocktype_loop :: "nat \<Rightarrow> nat \<Rightarrow> nat \<Rightarrow> nat option" where
  "blocktype_loop 0 i sz = None"
| "blocktype_loop (Suc n) i sz = (if sz \<le> sizes ! i then Some i else blocktype_loop n (Suc i) sz)"

text \<open>None is the panic for a size that is too large.\<close>

definition blocktype :: "nat \<Rightarrow> nat option" where
  "blocktype sz = blocktype_loop NSIZES 0 sz"

text \<open>The loop of \<^verbatim>\<open>subpage_kmalloc\<close> that looks for a page with a free block.\<close>

primrec find_page :: "nat \<Rightarrow> nat \<Rightarrow> nat option \<Rightarrow> 'z kheap_scheme \<Rightarrow> ('z kheap_scheme, nat option) outcome" where
  "find_page 0 blktype pr s = (if pr = None then Ret None s else Undef)"
| "find_page (Suc n) blktype pr s =
     (case pr of None \<Rightarrow> Ret None s
      | Some p \<Rightarrow>
          kassert (PR_BLOCKTYPE (pagerefs s ! p) = blktype)
           (if nfree (pagerefs s ! p) > 0 then Ret (Some p) s
            else find_page n blktype (next_samesize (pagerefs s ! p)) s))"

text \<open>The code from the label \<^verbatim>\<open>doalloc\<close>: the first block of the page's free list is taken off.\<close>

definition doalloc :: "int \<Rightarrow> nat \<Rightarrow> 'z kheap_scheme \<Rightarrow> ('z kheap_scheme, u32) outcome" where
  "doalloc spl p s =
     (let pr = pagerefs s ! p in
      kassert (unat (freelist_offset pr) < PAGE_SIZE)
       (let prpage = PR_PAGEADDR pr;
            fla = prpage + ucast (freelist_offset pr);
            retptr = fla;
            fl = kmem s fla;
            s = upd_pr p (\<lambda>r. r\<lparr>nfree := nfree r - 1\<rparr>) s
        in if fl \<noteq> 0 then
             kassert (nfree (pagerefs s ! p) > 0)
              (kassert (unat (fl - prpage) < PAGE_SIZE)
                (Ret retptr (splx spl (upd_pr p (\<lambda>r. r\<lparr>freelist_offset := ucast (fl - prpage)\<rparr>) s))))
           else
             kassert (nfree (pagerefs s ! p) = 0)
              (Ret retptr (splx spl (upd_pr p (\<lambda>r. r\<lparr>freelist_offset := INVALID_OFFSET\<rparr>) s)))))"

text \<open>A new page: its blocks are linked into a free list, and it is put at the head of both lists of pages.\<close>

primrec link_blocks :: "nat \<Rightarrow> nat \<Rightarrow> nat \<Rightarrow> u32 \<Rightarrow> 'z kheap_scheme \<Rightarrow> ('z kheap_scheme, unit) outcome" where
  "link_blocks 0 i sz fla s = Ret () s"
| "link_blocks (Suc n) i sz fla s =
     (let fl = fla + of_nat (i * sz);
          s = s\<lparr>kmem := (kmem s)(fl := fla + of_nat ((i - 1) * sz))\<rparr>
      in kassert (fl \<noteq> kmem s fl) (link_blocks n (Suc i) sz fla s))"

definition new_page :: "nat \<Rightarrow> u32 \<Rightarrow> nat \<Rightarrow> 'z kheap_scheme \<Rightarrow> ('z kheap_scheme, unit) outcome" where
  "new_page p prpage blktype s =
     (let sz = sizes ! blktype;
          s = upd_pr p (\<lambda>r. r\<lparr>pageaddr_and_blocktype := MKPAB prpage (of_nat blktype)\<rparr>) s;
          s = upd_pr p (\<lambda>r. r\<lparr>nfree := of_nat (PAGE_SIZE div sz)\<rparr>) s;
          n = unat (nfree (pagerefs s ! p));
          s = s\<lparr>kmem := (kmem s)(prpage := 0)\<rparr>
      in andthen (link_blocks (n - 1) 1 sz prpage s)
          (\<lambda>_ s.
            let fla = prpage + of_nat ((n - 1) * sz);
                s = upd_pr p (\<lambda>r. r\<lparr>freelist_offset := ucast (fla - prpage)\<rparr>) s
            in kassert (unat (freelist_offset (pagerefs s ! p)) = (n - 1) * sz)
                (let s = upd_pr p (\<lambda>r. r\<lparr>next_samesize := sizebases s ! blktype\<rparr>) s;
                     s = s\<lparr>sizebases := (sizebases s)[blktype := Some p]\<rparr>;
                     s = upd_pr p (\<lambda>r. r\<lparr>next_all := allbase s\<rparr>) s
                 in Ret () (s\<lparr>allbase := Some p\<rparr>))))"

definition subpage_kmalloc :: "nat \<Rightarrow> 'z kheap_scheme \<Rightarrow> ('z kheap_scheme, u32) outcome" where
  "subpage_kmalloc sz s =
     (case blocktype sz of None \<Rightarrow> Panic
      | Some blktype \<Rightarrow>
         (let spl = curspl s; s = splhigh s in
          andthen (find_page NPAGEREFS blktype (sizebases s ! blktype) s)
           (\<lambda>pr s. case pr of
              Some p \<Rightarrow> doalloc spl p s
            | None \<Rightarrow>
                andthen (allocpageref s)
                 (\<lambda>pr s. case pr of
                    None \<Rightarrow> Ret 0 (splx spl s)
                  | Some p \<Rightarrow>
                      andthen (alloc_kpages 1 s)
                       (\<lambda>prpage s.
                         if prpage = 0 then andthen (freepageref p s) (\<lambda>_ s. Ret 0 (splx spl s))
                         else andthen (new_page p prpage blktype s) (\<lambda>_ s. doalloc spl p s))))))"

text \<open>The loop of \<^verbatim>\<open>subpage_kfree\<close> that looks for the page of a block.\<close>

primrec find_owner :: "nat \<Rightarrow> u32 \<Rightarrow> nat option \<Rightarrow> 'z kheap_scheme \<Rightarrow> ('z kheap_scheme, nat option) outcome" where
  "find_owner 0 ptraddr pr s = (if pr = None then Ret None s else Undef)"
| "find_owner (Suc n) ptraddr pr s =
     (case pr of None \<Rightarrow> Ret None s
      | Some p \<Rightarrow>
          let prpage = PR_PAGEADDR (pagerefs s ! p); blktype = PR_BLOCKTYPE (pagerefs s ! p) in
          kassert (blktype < NSIZES)
           (if prpage \<le> ptraddr \<and> ptraddr < prpage + 4096 then Ret (Some p) s
            else find_owner n ptraddr (next_all (pagerefs s ! p)) s))"

text \<open>The result says whether the block was on a page of the subpage allocator.\<close>

definition subpage_kfree :: "u32 \<Rightarrow> 'z kheap_scheme \<Rightarrow> ('z kheap_scheme, bool) outcome" where
  "subpage_kfree ptr s =
     (let spl = curspl s; s = splhigh s in
      andthen (find_owner NPAGEREFS ptr (allbase s) s)
       (\<lambda>pr s. case pr of
          None \<Rightarrow> Ret False (splx spl s)
        | Some p \<Rightarrow>
            let prpage = PR_PAGEADDR (pagerefs s ! p);
                blktype = PR_BLOCKTYPE (pagerefs s ! p);
                sz = sizes ! blktype;
                offset = ptr - prpage
            in if unat offset \<ge> PAGE_SIZE \<or> unat offset mod sz \<noteq> 0 then Panic
               else
                 let s = s\<lparr>kmem := fill_deadbeef ptr sz (kmem s)\<rparr>;
                     fla = prpage + offset;
                     s = (if freelist_offset (pagerefs s ! p) = INVALID_OFFSET
                          then s\<lparr>kmem := (kmem s)(fla := 0)\<rparr>
                          else s\<lparr>kmem := (kmem s)(fla := prpage + ucast (freelist_offset (pagerefs s ! p)))\<rparr>);
                     s = upd_pr p (\<lambda>r. r\<lparr>freelist_offset := ucast offset\<rparr>) s;
                     s = upd_pr p (\<lambda>r. r\<lparr>nfree := nfree r + 1\<rparr>) s;
                     n = unat (nfree (pagerefs s ! p))
                 in kassert (n \<le> PAGE_SIZE div sz)
                     (andthen
                       (if n = PAGE_SIZE div sz then
                          andthen (remove_lists p blktype s)
                           (\<lambda>_ s. andthen (free_kpages prpage s) (\<lambda>_ s. freepageref p s))
                        else Ret () s)
                       (\<lambda>_ s. Ret True (splx spl s)))))"

text \<open>A \<^verbatim>\<open>size_t\<close> has 32 bits, so the rounding up of a large request wraps around.\<close>

definition kmalloc :: "u32 \<Rightarrow> 'z kheap_scheme \<Rightarrow> ('z kheap_scheme, u32) outcome" where
  "kmalloc sz s =
     (if sz \<ge> 2048 then alloc_kpages (uint ((sz + 4096 - 1) div 4096)) s
      else subpage_kmalloc (unat sz) s)"

definition kfree :: "u32 \<Rightarrow> 'z kheap_scheme \<Rightarrow> ('z kheap_scheme, unit) outcome" where
  "kfree ptr s =
     (if ptr = 0 then Ret () s
      else andthen (subpage_kfree ptr s)
            (\<lambda>found s. if found then Ret () s
              else kassert (unat ptr mod PAGE_SIZE = 0) (free_kpages ptr s)))"

section \<open>Chains\<close>

text \<open>The list that starts at a pointer, and a bounded walk along it.\<close>

primrec is_chain :: "('a \<Rightarrow> 'a option) \<Rightarrow> 'a option \<Rightarrow> 'a list \<Rightarrow> bool" where
  "is_chain nx p [] \<longleftrightarrow> p = None"
| "is_chain nx p (x # xs) \<longleftrightarrow> p = Some x \<and> is_chain nx (nx x) xs"

primrec chain_of :: "nat \<Rightarrow> ('a \<Rightarrow> 'a option) \<Rightarrow> 'a option \<Rightarrow> 'a list" where
  "chain_of 0 nx p = []"
| "chain_of (Suc n) nx p = (case p of None \<Rightarrow> [] | Some x \<Rightarrow> x # chain_of n nx (nx x))"

lemma chain_of_eq: "is_chain nx p xs \<Longrightarrow> length xs \<le> n \<Longrightarrow> chain_of n nx p = xs"
proof (induction xs arbitrary: p n)
  case Nil
  then show ?case by (cases n) auto
next
  case (Cons x xs)
  then show ?case by (cases n) auto
qed

lemma is_chain_cong: "(\<And>x. x \<in> set xs \<Longrightarrow> nx x = nx' x) \<Longrightarrow> is_chain nx p xs = is_chain nx' p xs"
  by (induction xs arbitrary: p) auto

text \<open>Unlinking an element of a chain.\<close>

lemma is_chain_unlink:
  assumes "is_chain nx p (ys @ x # zs)" "distinct (ys @ x # zs)"
  shows "if ys = [] then is_chain nx (nx x) zs else is_chain (nx(last ys := nx x)) p (ys @ zs)"
  using assms
proof (induction ys arbitrary: p)
  case (Cons y ys)
  then have p: "p = Some y" and c: "is_chain nx (nx y) (ys @ x # zs)" and d: "distinct (ys @ x # zs)" "y \<notin> set (ys @ x # zs)"
    by simp_all
  show ?case
  proof (cases "ys = []")
    case True
    have "is_chain (nx(y := nx x)) (nx x) zs = is_chain nx (nx x) zs" by (rule is_chain_cong) (use d in auto)
    then show ?thesis using True p c by simp
  next
    case False
    then have "y \<noteq> last ys" using d(2) by auto
    then show ?thesis using Cons.IH [OF c d(1)] False p by simp
  qed
qed simp

lemma find_page_eq:
  "is_chain (\<lambda>p. next_samesize (pagerefs s ! p)) p xs \<Longrightarrow> \<forall>p \<in> set xs. PR_BLOCKTYPE (pagerefs s ! p) = k \<Longrightarrow> length xs \<le> n \<Longrightarrow>
   find_page n k p s = Ret (List.find (\<lambda>p. nfree (pagerefs s ! p) > 0) xs) s"
proof (induction xs arbitrary: p n)
  case Nil
  then show ?case by (cases n) auto
next
  case (Cons x xs)
  then show ?case by (cases n) auto
qed

lemma find_owner_eq:
  "is_chain (\<lambda>p. next_all (pagerefs s ! p)) p xs \<Longrightarrow> \<forall>p \<in> set xs. PR_BLOCKTYPE (pagerefs s ! p) < NSIZES \<Longrightarrow> length xs \<le> n \<Longrightarrow>
   find_owner n a p s = Ret (List.find (\<lambda>p. PR_PAGEADDR (pagerefs s ! p) \<le> a \<and> a < PR_PAGEADDR (pagerefs s ! p) + 4096) xs) s"
proof (induction xs arbitrary: p n)
  case Nil
  then show ?case by (cases n) auto
next
  case (Cons x xs)
  then show ?case by (cases n) (auto simp: Let_def)
qed

lemma find_link_eq:
  "is_chain (\<lambda>p. nx (pagerefs s ! p)) p (ys @ x # zs) \<Longrightarrow> x \<notin> set ys \<Longrightarrow> length (ys @ x # zs) \<le> n \<Longrightarrow>
   find_link n nx x guy p s = Ret (Some (if ys = [] then guy else Some (last ys))) s"
proof (induction ys arbitrary: p n guy)
  case Nil
  then show ?case by (cases n) auto
next
  case (Cons y ys)
  then show ?case by (cases n) auto
qed

section \<open>The table of page references\<close>

definition inuse :: "'z kheap_scheme \<Rightarrow> nat \<Rightarrow> bool" where
  "inuse s j \<longleftrightarrow> j < NPAGEREFS \<and> bit (pagerefs_inuse s ! (j div 32)) (j mod 32)"

lemma free_bit_Some: "free_bit n j w = Some k \<Longrightarrow> k < j + n \<and> \<not> bit w k"
  by (induction n arbitrary: j) (fastforce simp: bit_iff_and_push_bit_not_eq_0 split: if_splits)+

lemma free_bit_None: "free_bit n j w = None \<Longrightarrow> j \<le> k \<Longrightarrow> k < j + n \<Longrightarrow> bit w k"
proof (induction n arbitrary: j)
  case (Suc n)
  then show ?case by (cases "k = j") (auto simp: bit_iff_and_push_bit_not_eq_0 split: if_splits)
qed simp

lemma free_bit_full: "free_bit 32 0 (w :: u32) = None \<Longrightarrow> w = 0xffffffff"
proof -
  assume f: "free_bit 32 0 w = None"
  have "w = - 1" by (rule bit_word_eqI) (use free_bit_None [OF f] in auto)
  then show ?thesis by simp
qed

lemma inuse_set:
  assumes "length (pagerefs_inuse s) = INUSE_WORDS" "i < INUSE_WORDS" "j < 32"
  shows "inuse (s\<lparr>pagerefs_inuse := (pagerefs_inuse s)[i := pagerefs_inuse s ! i OR push_bit j 1]\<rparr>) k \<longleftrightarrow>
    inuse s k \<or> k = i * 32 + j"
proof -
  have "k = i * 32 + j \<longleftrightarrow> k div 32 = i \<and> k mod 32 = j" using assms(3) by auto
  then show ?thesis using assms by (auto simp: inuse_def nth_list_update bit_simps)
qed

lemma allocpageref_loop_ok:
  "length (pagerefs_inuse s) = INUSE_WORDS \<Longrightarrow> i + n \<le> INUSE_WORDS \<Longrightarrow>
   (allocpageref_loop n i s = Ret None s \<and> (\<forall>j. i * 32 \<le> j \<and> j < (i + n) * 32 \<longrightarrow> inuse s j) \<or>
    (\<exists>j us. j < NPAGEREFS \<and> \<not> inuse s j \<and> length us = INUSE_WORDS \<and>
       allocpageref_loop n i s = Ret (Some j) (s\<lparr>pagerefs_inuse := us\<rparr>) \<and>
       (\<forall>k. inuse (s\<lparr>pagerefs_inuse := us\<rparr>) k \<longleftrightarrow> inuse s k \<or> k = j)))"
proof (induction n arbitrary: i)
  case (Suc n)
  show ?case
  proof (cases "pagerefs_inuse s ! i = 0xffffffff")
    case True
    have "inuse s j" if j: "i * 32 \<le> j" "\<not> Suc i * 32 \<le> j" for j
    proof -
      have "j div 32 = i" using j by (auto simp: div_nat_eqI)
      moreover have "j < NPAGEREFS" using j Suc.prems(2) by simp
      moreover have "bit (0xffffffff :: u32) (j mod 32)"
      proof -
        have "bit (- 1 :: u32) (j mod 32)" by (simp only: bit_minus_1_iff) simp
        moreover have "(0xffffffff :: u32) = - 1" by simp
        ultimately show ?thesis by (simp only:)
      qed
      ultimately show ?thesis using True by (simp add: inuse_def)
    qed
    then have "(\<forall>j. Suc i * 32 \<le> j \<and> j < (Suc i + n) * 32 \<longrightarrow> inuse s j) \<longrightarrow> (\<forall>j. i * 32 \<le> j \<and> j < (i + Suc n) * 32 \<longrightarrow> inuse s j)"
      by (metis add_Suc add_Suc_right)
    then show ?thesis using True Suc.IH [of "Suc i"] Suc.prems by auto
  next
    case False
    then obtain j where j: "free_bit 32 0 (pagerefs_inuse s ! i) = Some j" using free_bit_full by fastforce
    then have b: "j < 32" "\<not> bit (pagerefs_inuse s ! i) j" using free_bit_Some by fastforce+
    have i: "i < INUSE_WORDS" using Suc.prems by simp
    have "i * 32 + j < NPAGEREFS" "\<not> inuse s (i * 32 + j)" using i b by (simp_all add: inuse_def)
    moreover define us where "us = (pagerefs_inuse s)[i := pagerefs_inuse s ! i OR push_bit j 1]"
    ultimately show ?thesis using False j inuse_set [OF Suc.prems(1) i b(1)] Suc.prems(1)
      by (intro disjI2 exI [of _ "i * 32 + j"] exI [of _ us]) simp
  qed
qed auto

lemma freepageref_ok:
  assumes "length (pagerefs_inuse s) = INUSE_WORDS" "inuse s j"
  shows "\<exists>us. freepageref j s = Ret () (s\<lparr>pagerefs_inuse := us\<rparr>) \<and> length us = INUSE_WORDS \<and>
     (\<forall>k. inuse (s\<lparr>pagerefs_inuse := us\<rparr>) k \<longleftrightarrow> inuse s k \<and> k \<noteq> j)"
proof -
  let ?us = "(pagerefs_inuse s)[j div 32 := pagerefs_inuse s ! (j div 32) AND NOT (push_bit (j mod 32) 1)]"
  have j: "j < NPAGEREFS" "bit (pagerefs_inuse s ! (j div 32)) (j mod 32)" using assms(2) by (simp_all add: inuse_def)
  have "inuse (s\<lparr>pagerefs_inuse := ?us\<rparr>) k \<longleftrightarrow> inuse s k \<and> k \<noteq> j" for k
  proof -
    have k: "k = j \<longleftrightarrow> k div 32 = j div 32 \<and> k mod 32 = j mod 32" by (metis div_mult_mod_eq)
    show ?thesis
    proof (cases "k div 32 = j div 32")
      case True
      then show ?thesis using assms(1) j(1) k by (auto simp: inuse_def bit_simps)
    qed (use k in \<open>auto simp: inuse_def\<close>)
  qed
  moreover have "freepageref j s = Ret () (s\<lparr>pagerefs_inuse := ?us\<rparr>)"
    using j by (simp add: freepageref_def Let_def bit_iff_and_push_bit_not_eq_0)
  ultimately show ?thesis using assms(1) by (intro exI [of _ ?us]) simp
qed

end
