(* ===== verification/Kheap_Alloc.thy ===== *)
theory Kheap_Alloc
  imports Kheap
begin

text \<open>
  The kernel heap as a set of allocated blocks.  The invariant ties the page references, the lists they are on and
  the free lists in memory together; \<^verbatim>\<open>kmalloc\<close> adds a block that has no byte in common with any other, and
  \<^verbatim>\<open>kfree\<close> takes one away.
\<close>

section \<open>Sizes and addresses\<close>

lemma sizes_cases:
  assumes "k < NSIZES"
  obtains "k = 0" "sizes ! k = 16" | "k = 1" "sizes ! k = 32" | "k = 2" "sizes ! k = 64" | "k = 3" "sizes ! k = 128"
    | "k = 4" "sizes ! k = 256" | "k = 5" "sizes ! k = 512" | "k = 6" "sizes ! k = 1024" | "k = 7" "sizes ! k = 2048"
proof -
  have "k = 0 \<or> k = 1 \<or> k = 2 \<or> k = 3 \<or> k = 4 \<or> k = 5 \<or> k = 6 \<or> k = 7" using assms by linarith
  then show ?thesis using that by (auto simp: sizes_def)
qed

lemma sizes_facts:
  assumes "k < NSIZES"
  shows "16 \<le> sizes ! k" "4 dvd sizes ! k" "PAGE_SIZE div sizes ! k * sizes ! k = PAGE_SIZE"
    "2 \<le> PAGE_SIZE div sizes ! k" "PAGE_SIZE div sizes ! k \<le> 256"
  by (rule sizes_cases [OF assms]; simp)+

text \<open>A page in \<^verbatim>\<open>kseg0\<close>, and the addresses of its blocks of a given size.\<close>

definition kpage :: "u32 \<Rightarrow> bool" where
  "kpage pg \<longleftrightarrow> PAGE_SIZE dvd unat pg \<and> 2 ^ 31 < unat pg \<and> unat pg + PAGE_SIZE < 2 ^ 32"

definition block_addrs :: "u32 \<Rightarrow> nat \<Rightarrow> u32 set" where
  "block_addrs pg sz = (\<lambda>i. pg + of_nat (i * sz)) ` {..<PAGE_SIZE div sz}"

lemma block_offset:
  assumes "k < NSIZES" "i < PAGE_SIZE div sizes ! k"
  shows "i * sizes ! k + sizes ! k \<le> PAGE_SIZE"
proof -
  have "Suc i * sizes ! k \<le> PAGE_SIZE div sizes ! k * sizes ! k" using assms(2) by (intro mult_le_mono1) simp
  then show ?thesis using sizes_facts(3) [OF assms(1)] by simp
qed

lemma unat_block:
  assumes "kpage pg" "k < NSIZES" "i < PAGE_SIZE div sizes ! k"
  shows "unat (pg + of_nat (i * sizes ! k)) = unat pg + i * sizes ! k"
proof (rule unat_add_nat)
  show "unat pg + i * sizes ! k < 2 ^ 32" using block_offset [OF assms(2,3)] assms(1) unfolding kpage_def by linarith
qed

lemma block_addrsE:
  assumes "a \<in> block_addrs pg (sizes ! k)" "kpage pg" "k < NSIZES"
  obtains i where "i < PAGE_SIZE div sizes ! k" "a = pg + of_nat (i * sizes ! k)" "unat a = unat pg + i * sizes ! k"
    "i * sizes ! k + sizes ! k \<le> PAGE_SIZE"
  using assms unat_block block_offset unfolding block_addrs_def by blast

lemma block_in_page:
  assumes "a \<in> block_addrs pg (sizes ! k)" "kpage pg" "k < NSIZES"
  shows "unat pg \<le> unat a" "unat a + sizes ! k \<le> unat pg + PAGE_SIZE" "a \<noteq> 0"
proof -
  obtain i where i: "unat a = unat pg + i * sizes ! k" "i * sizes ! k + sizes ! k \<le> PAGE_SIZE"
    by (rule block_addrsE [OF assms])
  then show "unat pg \<le> unat a" "unat a + sizes ! k \<le> unat pg + PAGE_SIZE" by simp_all
  show "a \<noteq> 0" using i(1) assms(2) unfolding kpage_def by auto
qed

text \<open>Two different blocks of a page have no byte in common.\<close>

lemma blocks_apart:
  assumes "a \<in> block_addrs pg (sizes ! k)" "b \<in> block_addrs pg (sizes ! k)" "a \<noteq> b" "kpage pg" "k < NSIZES"
  shows "apart a (sizes ! k) b (sizes ! k)"
proof -
  obtain i where i: "a = pg + of_nat (i * sizes ! k)" "unat a = unat pg + i * sizes ! k"
    by (rule block_addrsE [OF assms(1,4,5)])
  obtain j where j: "b = pg + of_nat (j * sizes ! k)" "unat b = unat pg + j * sizes ! k"
    by (rule block_addrsE [OF assms(2,4,5)])
  have "i < j \<or> j < i" using i(1) j(1) assms(3) by (metis nat_neq_iff)
  then have "Suc i * sizes ! k \<le> j * sizes ! k \<or> Suc j * sizes ! k \<le> i * sizes ! k" by (metis Suc_leI mult_le_mono1)
  then show ?thesis unfolding apart_def i(2) j(2) by auto
qed

lemma apart_sub:
  "apart p m q n \<Longrightarrow> unat p \<le> unat a \<Longrightarrow> unat a + k \<le> unat p + m \<Longrightarrow> unat q \<le> unat b \<Longrightarrow> unat b + l \<le> unat q + n \<Longrightarrow> apart a k b l"
  unfolding apart_def by linarith

lemma block_pages_apart:
  assumes "a \<in> block_addrs pg (sizes ! k)" "b \<in> block_addrs qg (sizes ! l)" "apart pg PAGE_SIZE qg PAGE_SIZE"
    "kpage pg" "kpage qg" "k < NSIZES" "l < NSIZES"
  shows "apart a (sizes ! k) b (sizes ! l)"
  by (rule apart_sub [OF assms(3)])
     (use block_in_page(1,2) [OF assms(1,4,6)] block_in_page(1,2) [OF assms(2,5,7)] in simp_all)

text \<open>The address and the size class packed into one word.\<close>

lemma MKPAB_fields:
  assumes "PAGE_SIZE dvd unat pg" "k < NSIZES"
  shows "MKPAB pg (of_nat k) AND PAGE_FRAME = pg" "unat (MKPAB pg (of_nat k) AND NOT PAGE_FRAME) = k"
proof -
  let ?k = "of_nat k :: u32"
  have "unat (take_bit 12 ?k) = unat ?k" unfolding unsigned_take_bit_eq using assms(2) by (simp add: unat_of_nat take_bit_eq_mod)
  then have k: "?k AND mask 12 = ?k" unfolding take_bit_eq_mask [symmetric] by (simp only: word_unat_eq_iff)
  have "MKPAB pg ?k AND PAGE_FRAME = pg AND PAGE_FRAME" unfolding MKPAB_def PAGE_FRAME_mask
    by (rule bit_word_eqI) (auto simp: bit_simps)
  then show "MKPAB pg ?k AND PAGE_FRAME = pg" using page_frame_id [OF assms(1)] by simp
  have "MKPAB pg ?k AND NOT PAGE_FRAME = ?k AND mask 12" unfolding MKPAB_def PAGE_FRAME_mask
    by (rule bit_word_eqI) (auto simp: bit_simps)
  then have "unat (MKPAB pg ?k AND NOT PAGE_FRAME) = unat ?k" unfolding k by simp
  then show "unat (MKPAB pg ?k AND NOT PAGE_FRAME) = k" using assms(2) by (simp add: unat_of_nat)
qed

section \<open>The representation invariant\<close>

abbreviation page_of :: "'z kheap_scheme \<Rightarrow> nat \<Rightarrow> u32" where "page_of s p \<equiv> PR_PAGEADDR (pagerefs s ! p)"
abbreviation class_of :: "'z kheap_scheme \<Rightarrow> nat \<Rightarrow> nat" where "class_of s p \<equiv> PR_BLOCKTYPE (pagerefs s ! p)"
abbreviation bsize :: "'z kheap_scheme \<Rightarrow> nat \<Rightarrow> nat" where "bsize s p \<equiv> sizes ! class_of s p"
abbreviation pblocks :: "'z kheap_scheme \<Rightarrow> nat \<Rightarrow> u32 set" where
  "pblocks s p \<equiv> block_addrs (page_of s p) (bsize s p)"

definition link :: "'z kheap_scheme \<Rightarrow> u32 \<Rightarrow> u32 option" where
  "link s a = (if kmem s a = 0 then None else Some (kmem s a))"

definition free_head :: "'z kheap_scheme \<Rightarrow> nat \<Rightarrow> u32 option" where
  "free_head s p = (if freelist_offset (pagerefs s ! p) = INVALID_OFFSET then None
     else Some (page_of s p + ucast (freelist_offset (pagerefs s ! p))))"

text \<open>A page reference: its page is held, and its free list runs through \<open>nfree\<close> different blocks of the page.\<close>

definition page_rep :: "'z kheap_scheme \<Rightarrow> nat \<Rightarrow> u32 list \<Rightarrow> bool" where
  "page_rep s p fl \<longleftrightarrow> class_of s p < NSIZES \<and> held_pages s (page_of s p) = 1 \<and>
     is_chain (link s) (free_head s p) fl \<and> distinct fl \<and> set fl \<subseteq> pblocks s p \<and>
     length fl = unat (nfree (pagerefs s ! p))"

text \<open>
  The pages \<open>ps\<close> in the order of the list of all pages: they are the page references in use, and the list of each
  size has those of its size in the same order.
\<close>

definition heap_rep :: "'z kheap_scheme \<Rightarrow> nat list \<Rightarrow> (nat \<Rightarrow> u32 list) \<Rightarrow> bool" where
  "heap_rep s ps fl \<longleftrightarrow> vm_ok s \<and> length (pagerefs s) = NPAGEREFS \<and> length (pagerefs_inuse s) = INUSE_WORDS \<and>
     length (sizebases s) = NSIZES \<and> distinct ps \<and> (\<forall>j. inuse s j \<longleftrightarrow> j \<in> set ps) \<and>
     is_chain (\<lambda>p. next_all (pagerefs s ! p)) (allbase s) ps \<and>
     (\<forall>k < NSIZES. is_chain (\<lambda>p. next_samesize (pagerefs s ! p)) (sizebases s ! k) (filter (\<lambda>p. class_of s p = k) ps)) \<and>
     inj_on (page_of s) (set ps) \<and> (\<forall>p \<in> set ps. page_rep s p (fl p))"

lemma heap_repD:
  assumes "heap_rep s ps fl"
  shows "vm_ok s" "length (pagerefs s) = NPAGEREFS" "length (pagerefs_inuse s) = INUSE_WORDS" "length (sizebases s) = NSIZES"
    "distinct ps" "inuse s j \<longleftrightarrow> j \<in> set ps" "is_chain (\<lambda>p. next_all (pagerefs s ! p)) (allbase s) ps"
    "k < NSIZES \<Longrightarrow> is_chain (\<lambda>p. next_samesize (pagerefs s ! p)) (sizebases s ! k) (filter (\<lambda>p. class_of s p = k) ps)"
    "inj_on (page_of s) (set ps)" "p \<in> set ps \<Longrightarrow> page_rep s p (fl p)" "p \<in> set ps \<Longrightarrow> p < NPAGEREFS"
  using assms unfolding heap_rep_def inuse_def by blast+

lemma page_repD:
  assumes "page_rep s p l"
  shows "class_of s p < NSIZES" "held_pages s (page_of s p) = 1" "is_chain (link s) (free_head s p) l" "distinct l"
    "set l \<subseteq> pblocks s p" "length l = unat (nfree (pagerefs s ! p))"
  using assms unfolding page_rep_def by blast+

lemma page_rep_kpage: "vm_ok s \<Longrightarrow> page_rep s p l \<Longrightarrow> kpage (page_of s p)"
  using cm.held_page [of s "page_of s p"] page_repD(2) [of s p l] unfolding kpage_def by simp

lemma finite_block_addrs: "finite (block_addrs pg sz)" "card (block_addrs pg sz) \<le> PAGE_SIZE div sz"
  unfolding block_addrs_def using card_image_le [of "{..<PAGE_SIZE div sz}"] by auto

lemma page_rep_length:
  assumes "page_rep s p l" shows "length l \<le> PAGE_SIZE div bsize s p" "length l \<le> 256"
proof -
  have "card (set l) \<le> card (pblocks s p)" using page_repD(5) [OF assms] finite_block_addrs(1) by (intro card_mono)
  then show "length l \<le> PAGE_SIZE div bsize s p"
    using finite_block_addrs(2) [of "page_of s p" "bsize s p"] distinct_card [OF page_repD(4) [OF assms]] by simp
  then show "length l \<le> 256" using sizes_facts(5) [OF page_repD(1) [OF assms]] by simp
qed

lemma heap_rep_length: "heap_rep s ps fl \<Longrightarrow> length ps \<le> NPAGEREFS"
proof -
  assume h: "heap_rep s ps fl"
  then have "set ps \<subseteq> {..<NPAGEREFS}" using heap_repD(11) by blast
  then have "card (set ps) \<le> NPAGEREFS" using card_mono [of "{..<NPAGEREFS}" "set ps"] by simp
  then show ?thesis using distinct_card [OF heap_repD(5) [OF h]] by simp
qed

text \<open>The pages and the free lists are determined by the state.\<close>

definition heap_pages :: "'z kheap_scheme \<Rightarrow> nat list" where
  "heap_pages s = chain_of NPAGEREFS (\<lambda>p. next_all (pagerefs s ! p)) (allbase s)"

definition page_frees :: "'z kheap_scheme \<Rightarrow> nat \<Rightarrow> u32 list" where
  "page_frees s p = chain_of 256 (link s) (free_head s p)"

lemma heap_rep_unique:
  assumes "heap_rep s ps fl"
  shows "heap_pages s = ps" "p \<in> set ps \<Longrightarrow> page_frees s p = fl p"
proof -
  show "heap_pages s = ps" unfolding heap_pages_def
    by (rule chain_of_eq [OF heap_repD(7) [OF assms] heap_rep_length [OF assms]])
  show "page_frees s p = fl p" if "p \<in> set ps" unfolding page_frees_def
    using heap_repD(10) [OF assms that] by (intro chain_of_eq) (auto dest: page_repD(3) page_rep_length(2))
qed

section \<open>What the state of the pages depends on\<close>

lemma vm_ok_upds [simp]:
  "vm_ok (s\<lparr>pagerefs := rs\<rparr>) = vm_ok s" "vm_ok (s\<lparr>pagerefs_inuse := us\<rparr>) = vm_ok s"
  "vm_ok (s\<lparr>sizebases := bs\<rparr>) = vm_ok s" "vm_ok (s\<lparr>allbase := b\<rparr>) = vm_ok s" "vm_ok (s\<lparr>kmem := m\<rparr>) = vm_ok s"
  by (simp_all add: vm_ok_def coremap_inv_def spl_ok_def)

lemma held_pages_upds [simp]:
  "held_pages (s\<lparr>pagerefs := rs\<rparr>) = held_pages s" "held_pages (s\<lparr>pagerefs_inuse := us\<rparr>) = held_pages s"
  "held_pages (s\<lparr>sizebases := bs\<rparr>) = held_pages s" "held_pages (s\<lparr>allbase := b\<rparr>) = held_pages s"
  "held_pages (s\<lparr>kmem := m\<rparr>) = held_pages s"
  by (simp_all add: held_pages_def page_addr_def run_at_def fun_eq_iff)

lemma held_pages_spl [simp]: "held_pages (splx x s) = held_pages s" "held_pages (splhigh s) = held_pages s"
  by (simp_all add: held_pages_def page_addr_def run_at_def fun_eq_iff splx_def splhigh_def)

lemma splx_heap [simp]:
  "pagerefs (splx x s) = pagerefs s" "pagerefs_inuse (splx x s) = pagerefs_inuse s" "sizebases (splx x s) = sizebases s"
  "allbase (splx x s) = allbase s" "kmem (splx x s) = kmem s" "curspl (splx x s) = x"
  by (simp_all add: splx_def)

lemma splhigh_heap [simp]:
  "pagerefs (splhigh s) = pagerefs s" "pagerefs_inuse (splhigh s) = pagerefs_inuse s" "sizebases (splhigh s) = sizebases s"
  "allbase (splhigh s) = allbase s" "kmem (splhigh s) = kmem s"
  by (simp_all add: splhigh_def)

lemma vm_ok_spl: "vm_ok s \<Longrightarrow> vm_ok (splhigh s)" "vm_ok s \<Longrightarrow> 0 \<le> x \<Longrightarrow> vm_ok (splx x s)"
  by (auto simp: vm_ok_def coremap_inv_def spl_ok_def splhigh_def splx_def)

text \<open>The fields of a page reference that place it in memory and on its lists.\<close>

definition same_place :: "pageref \<Rightarrow> pageref \<Rightarrow> bool" where
  "same_place r r' \<longleftrightarrow> next_samesize r' = next_samesize r \<and> next_all r' = next_all r \<and>
     pageaddr_and_blocktype r' = pageaddr_and_blocktype r"

lemma same_placeD:
  "same_place r r' \<Longrightarrow> next_all r' = next_all r" "same_place r r' \<Longrightarrow> next_samesize r' = next_samesize r"
  "same_place r r' \<Longrightarrow> PR_BLOCKTYPE r' = PR_BLOCKTYPE r" "same_place r r' \<Longrightarrow> PR_PAGEADDR r' = PR_PAGEADDR r"
  by (simp_all add: same_place_def PR_PAGEADDR_def PR_BLOCKTYPE_def)

lemma page_rep_cong:
  assumes "page_rep s p l" "pagerefs s' ! p = pagerefs s ! p" "held_pages s' (page_of s p) = held_pages s (page_of s p)"
    "\<And>a. a \<in> set l \<Longrightarrow> kmem s' a = kmem s a"
  shows "page_rep s' p l"
proof -
  have "is_chain (link s') (free_head s p) l = is_chain (link s) (free_head s p) l"
    by (rule is_chain_cong) (simp add: link_def assms(4))
  moreover have "free_head s' p = free_head s p" by (simp add: free_head_def assms(2))
  ultimately show ?thesis using page_repD [OF assms(1)] assms(2,3) unfolding page_rep_def by (simp only:)
qed

lemma heap_rep_step:
  assumes h: "heap_rep s ps fl" and ok: "vm_ok s'"
    and l: "length (pagerefs s') = length (pagerefs s)" "\<And>q. same_place (pagerefs s ! q) (pagerefs s' ! q)"
    and e: "pagerefs_inuse s' = pagerefs_inuse s" "sizebases s' = sizebases s" "allbase s' = allbase s"
    and r: "\<And>q. q \<in> set ps \<Longrightarrow> page_rep s' q (fl' q)"
  shows "heap_rep s' ps fl'"
proof -
  note n = same_placeD [OF l(2)]
  have i: "inuse s' = inuse s" by (simp add: inuse_def e fun_eq_iff)
  show ?thesis unfolding heap_rep_def l(1) e n i
    by (intro conjI allI impI ballI) (rule ok r heap_repD(2-9) [OF h], assumption?)+
qed

lemma heap_rep_splx:
  assumes h: "heap_rep s ps fl" and ok: "vm_ok (splx x s)" shows "heap_rep (splx x s) ps fl"
proof (rule heap_rep_step [OF h ok])
  show "page_rep (splx x s) q (fl q)" if "q \<in> set ps" for q
    by (rule page_rep_cong [OF heap_repD(10) [OF h that]]) simp_all
qed (simp_all add: same_place_def)

section \<open>Allocation\<close>

lemma unat_up_ucast: "unat (ucast (w :: u16) :: u32) = unat w"
proof -
  have "unat w < 2 ^ 16" using unsigned_less [of w] by simp
  then show ?thesis by (simp add: unsigned_ucast_eq take_bit_nat_eq_self)
qed

text \<open>The offset of a free block that a page reference can hold.\<close>

lemma block_diff:
  assumes "a \<in> block_addrs pg (sizes ! k)" "kpage pg" "k < NSIZES"
  shows "unat (a - pg) < PAGE_SIZE" "pg + ucast (ucast (a - pg) :: u16) = a" "(ucast (a - pg) :: u16) \<noteq> INVALID_OFFSET"
    "unat (ucast (a - pg) :: u16) = unat (a - pg)" "unat (a - pg) mod sizes ! k = 0"
proof -
  obtain i where i: "a = pg + of_nat (i * sizes ! k)" "i * sizes ! k + sizes ! k \<le> PAGE_SIZE"
    by (rule block_addrsE [OF assms])
  have lt: "i * sizes ! k < PAGE_SIZE" using i(2) sizes_facts(1) [OF assms(3)] by linarith
  have d: "a - pg = of_nat (i * sizes ! k)" using i(1) by simp
  then have u: "unat (a - pg) = i * sizes ! k" using lt unat_add_nat [of 0 "i * sizes ! k"] by simp
  then show "unat (a - pg) < PAGE_SIZE" "unat (a - pg) mod sizes ! k = 0" using lt by simp_all
  show u16: "unat (ucast (a - pg) :: u16) = unat (a - pg)"
    unfolding unsigned_ucast_eq unsigned_take_bit_eq using u lt by (simp add: take_bit_eq_mod)
  then have "unat (ucast (ucast (a - pg) :: u16) :: u32) = unat (a - pg)"
    by (simp only: unat_up_ucast)
  then have "(ucast (ucast (a - pg) :: u16) :: u32) = a - pg" by (simp only: word_unat_eq_iff)
  then show "pg + ucast (ucast (a - pg) :: u16) = a" by simp
  show "(ucast (a - pg) :: u16) \<noteq> INVALID_OFFSET"
  proof
    assume "(ucast (a - pg) :: u16) = INVALID_OFFSET"
    then have "unat (a - pg) = unat INVALID_OFFSET" using u16 by simp
    then show False using u lt by simp
  qed
qed

lemma upd_pr_nth: "q < length (pagerefs s) \<Longrightarrow> pagerefs (upd_pr p f s) ! q = (if q = p then f (pagerefs s ! q) else pagerefs s ! q)"
  by (simp add: upd_pr_def)

text \<open>Taking the first block off the free list of a page.\<close>

lemma doalloc_ok:
  assumes h: "heap_rep s ps fl" and p: "p \<in> set ps" and b: "fl p = b # bs"
  shows "\<exists>rs. doalloc spl p s = Ret b (splx spl (s\<lparr>pagerefs := rs\<rparr>)) \<and> heap_rep (s\<lparr>pagerefs := rs\<rparr>) ps (fl(p := bs)) \<and>
     (\<forall>q. same_place (pagerefs s ! q) (rs ! q))"
proof -
  note r = page_repD [OF heap_repD(10) [OF h p]] and len = heap_repD(2) [OF h]
  have kp: "kpage (page_of s p)" by (rule page_rep_kpage [OF heap_repD(1) [OF h] heap_repD(10) [OF h p]])
  have p': "p < length (pagerefs s)" using heap_repD(11) [OF h p] len by simp
  note d = block_diff [OF _ kp r(1)]
  have mem: "a \<in> pblocks s p" if "a \<in> set (b # bs)" for a using r(5) that b by auto
  have hd: "free_head s p = Some b" and c: "is_chain (link s) (link s b) bs" using r(3) b by simp_all
  then have off: "freelist_offset (pagerefs s ! p) \<noteq> INVALID_OFFSET" "b = page_of s p + ucast (freelist_offset (pagerefs s ! p))"
    by (auto simp: free_head_def split: if_splits)
  have lt: "unat (freelist_offset (pagerefs s ! p)) < PAGE_SIZE"
    using d(1) [OF mem, of b] off(2) unat_up_ucast [of "freelist_offset (pagerefs s ! p)"] by simp
  have n: "unat (nfree (pagerefs s ! p) - 1) = length bs"
  proof -
    have "unat (nfree (pagerefs s ! p)) = Suc (length bs)" using r(6) b by simp
    moreover from this have "nfree (pagerefs s ! p) \<noteq> 0" by auto
    ultimately show ?thesis by (simp add: unat_minus_one)
  qed
  define f :: u16 where "f = (if bs = [] then INVALID_OFFSET else ucast (hd bs - page_of s p))"
  let ?rs = "(pagerefs s)[p := (pagerefs s ! p)\<lparr>nfree := nfree (pagerefs s ! p) - 1, freelist_offset := f\<rparr>]"
  have eq: "doalloc spl p s = Ret b (splx spl (s\<lparr>pagerefs := ?rs\<rparr>))"
  proof (cases bs)
    case Nil
    then have "kmem s b = 0" "nfree (pagerefs s ! p) - 1 = 0" "f = INVALID_OFFSET"
      using c n by (simp_all add: link_def f_def unat_eq_0 split: if_splits)
    then show ?thesis using lt off(2) p' unfolding doalloc_def Let_def upd_pr_def by simp
  next
    case (Cons c cs)
    then have "kmem s b = c" "c \<noteq> 0" "nfree (pagerefs s ! p) - 1 > 0" "f = ucast (c - page_of s p)"
      using c n by (auto simp: link_def f_def word_less_nat_alt split: if_splits)
    then show ?thesis using lt off(2) p' d(1) [OF mem, of c] Cons unfolding doalloc_def Let_def upd_pr_def by simp
  qed
  have sp: "same_place (pagerefs s ! q) (?rs ! q)" for q
    using p' by (cases "q = p") (simp_all add: same_place_def)
  have "page_of (s\<lparr>pagerefs := ?rs\<rparr>) p = page_of s p" using p' by (simp add: PR_PAGEADDR_def)
  then have fh: "free_head (s\<lparr>pagerefs := ?rs\<rparr>) p = link s b"
    using c p' d(2,3) [OF mem] unfolding free_head_def f_def by (cases bs) (auto simp: link_def)
  have "heap_rep (s\<lparr>pagerefs := ?rs\<rparr>) ps (fl(p := bs))"
  proof (rule heap_rep_step [OF h])
    fix q assume q: "q \<in> set ps"
    show "page_rep (s\<lparr>pagerefs := ?rs\<rparr>) q ((fl(p := bs)) q)"
    proof (cases "q = p")
      case True
      have "link (s\<lparr>pagerefs := ?rs\<rparr>) = link s" by (simp add: link_def fun_eq_iff)
      then show ?thesis
        using True r b fh c n p' same_placeD(3,4) [OF sp [of p]] unfolding page_rep_def by simp
    next
      case False
      then have "page_rep (s\<lparr>pagerefs := ?rs\<rparr>) q (fl q)" by (intro page_rep_cong [OF heap_repD(10) [OF h q]]) simp_all
      then show ?thesis using False by simp
    qed
  qed (use heap_repD(1) [OF h] sp in simp_all)
  then show ?thesis using eq sp by blast
qed

text \<open>Cutting a page into blocks: the free list runs from the last block of the page to the first.\<close>

lemma link_blocks_ok:
  assumes "inj_on (\<lambda>j. fla + of_nat (j * sz) :: u32) {i - 1..<i + n}" "0 < i"
  shows "\<exists>m. link_blocks n i sz fla s = Ret () (s\<lparr>kmem := m\<rparr>) \<and>
     (\<forall>j. i \<le> j \<and> j < i + n \<longrightarrow> m (fla + of_nat (j * sz)) = fla + of_nat ((j - 1) * sz)) \<and>
     (\<forall>a. a \<notin> (\<lambda>j. fla + of_nat (j * sz)) ` {i..<i + n} \<longrightarrow> m a = kmem s a)"
  using assms
proof (induction n arbitrary: i s)
  case 0
  show ?case by (rule exI [of _ "kmem s"]) auto
next
  case (Suc n)
  let ?A = "\<lambda>j. fla + of_nat (j * sz) :: u32"
  let ?s = "s\<lparr>kmem := (kmem s)(?A i := ?A (i - 1))\<rparr>"
  have ne: "?A i \<noteq> ?A j" if "j < i + Suc n" "i - 1 \<le> j" "j \<noteq> i" for j
    using inj_onD [OF Suc.prems(1), of i j] that by auto
  have "inj_on ?A {Suc i - 1..<Suc i + n}" by (rule inj_on_subset [OF Suc.prems(1)]) auto
  then obtain m where m: "link_blocks n (Suc i) sz fla ?s = Ret () (?s\<lparr>kmem := m\<rparr>)"
      "\<forall>j. Suc i \<le> j \<and> j < Suc i + n \<longrightarrow> m (?A j) = ?A (j - 1)" "\<forall>a. a \<notin> ?A ` {Suc i..<Suc i + n} \<longrightarrow> m a = kmem ?s a"
    using Suc.IH [of "Suc i" ?s] by blast
  have "?A i \<noteq> ?A (i - 1)" using ne [of "i - 1"] Suc.prems(2) by simp
  then have "link_blocks (Suc n) i sz fla s = Ret () (s\<lparr>kmem := m\<rparr>)" using m(1) by (simp add: Let_def)
  moreover have "m (?A j) = ?A (j - 1)" if "i \<le> j" "j < i + Suc n" for j
  proof (cases "j = i")
    case True
    have "?A i \<notin> ?A ` {Suc i..<Suc i + n}"
    proof
      assume "?A i \<in> ?A ` {Suc i..<Suc i + n}"
      then obtain x where x: "x \<in> {Suc i..<Suc i + n}" "?A i = ?A x" by (rule imageE)
      then have "x < i + Suc n" "i - 1 \<le> x" "x \<noteq> i" by auto
      then show False using ne [of x] x(2) by blast
    qed
    then show ?thesis using m(3) True by simp
  qed (use m(2) that in simp)
  moreover have "m a = kmem s a" if "a \<notin> ?A ` {i..<i + Suc n}" for a
  proof -
    have "a \<notin> ?A ` {Suc i..<Suc i + n}" "a \<noteq> ?A i" using that by auto
    then show ?thesis using m(3) by simp
  qed
  ultimately show ?case by blast
qed

lemma chain_down:
  assumes "m (A 0) = 0" "\<And>j. 0 < j \<Longrightarrow> j \<le> n \<Longrightarrow> m (A j) = A (j - 1)" "\<And>j. j \<le> n \<Longrightarrow> A j \<noteq> (0 :: u32)"
  shows "is_chain (\<lambda>a. if m a = 0 then None else Some (m a)) (Some (A n)) (map A (rev [0..<Suc n]))"
  using assms
proof (induction n)
  case (Suc n)
  have "m (A (Suc n)) = A n" "A n \<noteq> 0" using Suc.prems(2) [of "Suc n"] Suc.prems(3) [of n] by simp_all
  then show ?case using Suc by simp
qed simp

lemma block_inj:
  assumes "kpage pg" "k < NSIZES" shows "inj_on (\<lambda>j. pg + of_nat (j * sizes ! k) :: u32) {..<PAGE_SIZE div sizes ! k}"
proof (rule inj_onI)
  fix i j assume a: "i \<in> {..<PAGE_SIZE div sizes ! k}" "j \<in> {..<PAGE_SIZE div sizes ! k}"
    "pg + of_nat (i * sizes ! k) = (pg + of_nat (j * sizes ! k) :: u32)"
  then have "unat pg + i * sizes ! k = unat pg + j * sizes ! k"
    using unat_block [OF assms, of i] unat_block [OF assms, of j] by simp
  then show "i = j" using sizes_facts(1) [OF assms(2)] by simp
qed

definition fresh_blocks :: "u32 \<Rightarrow> nat \<Rightarrow> u32 list" where
  "fresh_blocks pg sz = map (\<lambda>i. pg + of_nat (i * sz)) (rev [0..<PAGE_SIZE div sz])"

lemma fresh_blocks_props:
  assumes "kpage pg" "k < NSIZES"
  shows "set (fresh_blocks pg (sizes ! k)) = block_addrs pg (sizes ! k)" "distinct (fresh_blocks pg (sizes ! k))"
    "length (fresh_blocks pg (sizes ! k)) = PAGE_SIZE div sizes ! k"
  using block_inj [OF assms] by (auto simp: fresh_blocks_def block_addrs_def distinct_map lessThan_atLeast0)

text \<open>What \<^verbatim>\<open>new_page\<close> makes of the state.\<close>

lemma new_page_eq:
  assumes kp: "kpage pg" and k: "k < NSIZES" and p: "p < length (pagerefs s)" and b: "length (sizebases s) = NSIZES"
  defines "n \<equiv> PAGE_SIZE div sizes ! k"
  defines "r \<equiv> (pagerefs s ! p)\<lparr>pageaddr_and_blocktype := MKPAB pg (of_nat k), nfree := of_nat n,
      freelist_offset := of_nat ((n - 1) * sizes ! k), next_samesize := sizebases s ! k, next_all := allbase s\<rparr>"
  shows "\<exists>m. new_page p pg k s =
      Ret () (s\<lparr>kmem := m, pagerefs := (pagerefs s)[p := r], sizebases := (sizebases s)[k := Some p], allbase := Some p\<rparr>) \<and>
      is_chain (\<lambda>a. if m a = 0 then None else Some (m a)) (Some (pg + of_nat ((n - 1) * sizes ! k))) (fresh_blocks pg (sizes ! k)) \<and>
      (\<forall>a. a \<notin> block_addrs pg (sizes ! k) \<longrightarrow> m a = kmem s a)"
proof -
  let ?A = "\<lambda>j. pg + of_nat (j * sizes ! k) :: u32"
  have n: "2 \<le> n" "n \<le> 256" "n * sizes ! k = PAGE_SIZE" using sizes_facts [OF k] by (simp_all add: n_def)
  have un: "unat (of_nat n :: u16) = n" using n(2) by (simp add: unat_of_nat)
  have off: "(n - 1) * sizes ! k < PAGE_SIZE"
    using n sizes_facts(1) [OF k] by (cases n) (simp_all add: algebra_simps)
  then have uo: "unat (ucast (?A (n - 1) - pg) :: u16) = (n - 1) * sizes ! k"
    "(ucast (?A (n - 1) - pg) :: u16) = of_nat ((n - 1) * sizes ! k)"
  proof -
    have a: "?A (n - 1) \<in> block_addrs pg (sizes ! k)" using n(1) unfolding block_addrs_def n_def [symmetric] by (intro imageI) simp
    have "unat (?A (n - 1) - pg) = (n - 1) * sizes ! k"
      using unat_add_nat [of 0 "(n - 1) * sizes ! k"] off by simp
    then show u: "unat (ucast (?A (n - 1) - pg) :: u16) = (n - 1) * sizes ! k" using block_diff(4) [OF a kp k] by simp
    have "unat (of_nat ((n - 1) * sizes ! k) :: u16) = (n - 1) * sizes ! k"
      unfolding unat_of_nat using off by (simp add: take_bit_eq_mod)
    then show "(ucast (?A (n - 1) - pg) :: u16) = of_nat ((n - 1) * sizes ! k)"
      using u by (simp only: word_unat_eq_iff)
  qed
  let ?s = "s\<lparr>pagerefs := (pagerefs s)[p := (pagerefs s ! p)\<lparr>pageaddr_and_blocktype := MKPAB pg (of_nat k), nfree := of_nat n\<rparr>],
      kmem := (kmem s)(pg := 0)\<rparr>"
  have inj: "inj_on ?A {..<n}" using block_inj [OF kp k] by (simp add: n_def)
  then have "inj_on ?A {1 - 1..<1 + (n - 1)}" by (rule inj_on_subset) (use n in auto)
  then obtain m where m: "link_blocks (n - 1) 1 (sizes ! k) pg ?s = Ret () (?s\<lparr>kmem := m\<rparr>)"
      "\<forall>j. 1 \<le> j \<and> j < 1 + (n - 1) \<longrightarrow> m (?A j) = ?A (j - 1)" "\<forall>a. a \<notin> ?A ` {1..<1 + (n - 1)} \<longrightarrow> m a = kmem ?s a"
    using link_blocks_ok [of pg "sizes ! k" 1 "n - 1" ?s] by auto
  have "?A 0 \<notin> ?A ` {1..<1 + (n - 1)}" using inj_onD [OF inj, of 0] n(1) by fastforce
  then have m0: "m (?A 0) = 0" using m(3) by simp
  have out: "m a = kmem s a" if "a \<notin> block_addrs pg (sizes ! k)" for a
  proof -
    have "?A 0 \<in> ?A ` {..<n}" using n(1) by (intro imageI) simp
    then have "a \<notin> ?A ` {1..<1 + (n - 1)}" "a \<noteq> pg" using that n(1) unfolding block_addrs_def n_def [symmetric] by auto
    then show ?thesis using m(3) by simp
  qed
  have "is_chain (\<lambda>a. if m a = 0 then None else Some (m a)) (Some (?A (n - 1))) (map ?A (rev [0..<Suc (n - 1)]))"
    by (rule chain_down) (use m0 m(2) n(1) kp block_in_page(3) [OF _ kp k] in \<open>auto simp: block_addrs_def n_def\<close>)
  moreover have "new_page p pg k s =
      Ret () (s\<lparr>kmem := m, pagerefs := (pagerefs s)[p := r], sizebases := (sizebases s)[k := Some p], allbase := Some p\<rparr>)"
    unfolding new_page_def Let_def upd_pr_def n_def [symmetric]
    using p m(1) un uo by (simp add: r_def)
  ultimately show ?thesis using out n(1) unfolding fresh_blocks_def n_def [symmetric] by auto
qed

lemma apart_neq: "apart a m b n \<Longrightarrow> 0 < m \<Longrightarrow> 0 < n \<Longrightarrow> a \<noteq> b"
  by (auto simp: apart_def)

lemma fresh_offset:
  assumes "k < NSIZES"
  shows "(of_nat ((PAGE_SIZE div sizes ! k - 1) * sizes ! k) :: u16) \<noteq> INVALID_OFFSET"
    "(ucast (of_nat ((PAGE_SIZE div sizes ! k - 1) * sizes ! k) :: u16) :: u32) = of_nat ((PAGE_SIZE div sizes ! k - 1) * sizes ! k)"
  by (rule sizes_cases [OF assms]; simp)+

text \<open>A page at the head of the lists.\<close>

lemma heap_rep_cons:
  assumes h: "heap_rep s0 ps fl" and p: "p \<notin> set ps" and ok: "vm_ok t" and k: "k < NSIZES"
    and len: "length (pagerefs t) = NPAGEREFS" "length (pagerefs_inuse t) = INUSE_WORDS"
    and u: "\<And>j. inuse t j \<longleftrightarrow> j = p \<or> j \<in> set ps"
    and a: "allbase t = Some p" "next_all (pagerefs t ! p) = allbase s0"
    and b: "sizebases t = (sizebases s0)[k := Some p]" "next_samesize (pagerefs t ! p) = sizebases s0 ! k" "class_of t p = k"
    and q: "\<And>q. q \<in> set ps \<Longrightarrow> pagerefs t ! q = pagerefs s0 ! q" "\<And>q. q \<in> set ps \<Longrightarrow> page_of s0 q \<noteq> page_of t p"
    and r: "page_rep t p l" "\<And>q. q \<in> set ps \<Longrightarrow> page_rep t q (fl q)"
  shows "heap_rep t (p # ps) (fl(p := l))"
  unfolding heap_rep_def
proof (intro conjI allI impI ballI)
  note hd = heap_repD [OF h]
  show "length (sizebases t) = NSIZES" using hd(4) b(1) by simp
  show "distinct (p # ps)" "inuse t j \<longleftrightarrow> j \<in> set (p # ps)" for j using p hd(5) u by simp_all
  have "is_chain (\<lambda>q. next_all (pagerefs t ! q)) (allbase s0) ps = is_chain (\<lambda>q. next_all (pagerefs s0 ! q)) (allbase s0) ps"
    by (rule is_chain_cong) (simp add: q(1))
  then show "is_chain (\<lambda>q. next_all (pagerefs t ! q)) (allbase t) (p # ps)" using hd(7) a by simp
  show "is_chain (\<lambda>q. next_samesize (pagerefs t ! q)) (sizebases t ! i) (filter (\<lambda>q. class_of t q = i) (p # ps))" if i: "i < NSIZES" for i
  proof -
    have f: "filter (\<lambda>q. class_of t q = i) ps = filter (\<lambda>q. class_of s0 q = i) ps"
      by (rule filter_cong) (simp_all add: q(1))
    have "is_chain (\<lambda>q. next_samesize (pagerefs t ! q)) (sizebases s0 ! i) (filter (\<lambda>q. class_of s0 q = i) ps) =
        is_chain (\<lambda>q. next_samesize (pagerefs s0 ! q)) (sizebases s0 ! i) (filter (\<lambda>q. class_of s0 q = i) ps)"
      by (rule is_chain_cong) (simp add: q(1))
    then show ?thesis using hd(8) [OF i] f b k hd(4) by (cases "i = k") simp_all
  qed
  have "inj_on (page_of t) (set ps)" using hd(9) by (rule inj_on_cong [THEN iffD1, rotated]) (simp add: q(1))
  moreover have "page_of t p \<notin> page_of t ` set ps" using q by force
  ultimately show "inj_on (page_of t) (set (p # ps))" using p by simp
  show "page_rep t q ((fl(p := l)) q)" if "q \<in> set (p # ps)" for q using that r p by auto
qed (use ok len in simp_all)

text \<open>
  The state \<open>s\<close> has one more page and one more page reference in use than the heap \<open>s0\<close>;
  \<^verbatim>\<open>new_page\<close> puts them on the lists.
\<close>

lemma new_page_rep:
  assumes h: "heap_rep s0 ps fl" and ok: "vm_ok s" and k: "k < NSIZES"
    and e: "pagerefs s = pagerefs s0" "sizebases s = sizebases s0" "allbase s = allbase s0" "kmem s = kmem s0"
      "length (pagerefs_inuse s) = INUSE_WORDS"
    and u: "\<And>j. inuse s j \<longleftrightarrow> inuse s0 j \<or> j = p" "\<not> inuse s0 p" "p < NPAGEREFS"
    and pg: "held_pages s0 pg = 0" "held_pages s = (held_pages s0)(pg := 1)"
  shows "\<exists>m rs bs. new_page p pg k s = Ret () (s\<lparr>kmem := m, pagerefs := rs, sizebases := bs, allbase := Some p\<rparr>) \<and>
     heap_rep (s\<lparr>kmem := m, pagerefs := rs, sizebases := bs, allbase := Some p\<rparr>) (p # ps) (fl(p := fresh_blocks pg (sizes ! k))) \<and>
     PR_PAGEADDR (rs ! p) = pg \<and> PR_BLOCKTYPE (rs ! p) = k \<and> (\<forall>q. q \<noteq> p \<longrightarrow> rs ! q = pagerefs s0 ! q) \<and>
     (\<forall>a. a \<notin> block_addrs pg (sizes ! k) \<longrightarrow> m a = kmem s0 a)"
proof -
  note hd = heap_repD [OF h]
  have kp: "kpage pg" using cm.held_page [OF ok, of pg] pg(2) by (simp add: kpage_def)
  let ?n = "PAGE_SIZE div sizes ! k"
  have lp: "p < length (pagerefs s)" "length (sizebases s) = NSIZES" using e hd(2,4) u(3) by simp_all
  obtain m where m: "is_chain (\<lambda>a. if m a = 0 then None else Some (m a)) (Some (pg + of_nat ((?n - 1) * sizes ! k))) (fresh_blocks pg (sizes ! k))"
      "\<forall>a. a \<notin> block_addrs pg (sizes ! k) \<longrightarrow> m a = kmem s a"
    and eq: "new_page p pg k s = Ret () (s\<lparr>kmem := m, pagerefs := (pagerefs s)[p := (pagerefs s ! p)
      \<lparr>pageaddr_and_blocktype := MKPAB pg (of_nat k), nfree := of_nat ?n, freelist_offset := of_nat ((?n - 1) * sizes ! k),
       next_samesize := sizebases s ! k, next_all := allbase s\<rparr>], sizebases := (sizebases s)[k := Some p], allbase := Some p\<rparr>)"
    using new_page_eq [OF kp k lp] by blast
  define rs where "rs = (pagerefs s)[p := (pagerefs s ! p)
      \<lparr>pageaddr_and_blocktype := MKPAB pg (of_nat k), nfree := of_nat ?n, freelist_offset := of_nat ((?n - 1) * sizes ! k),
       next_samesize := sizebases s ! k, next_all := allbase s\<rparr>]"
  define t where "t = s\<lparr>kmem := m, pagerefs := rs, sizebases := (sizebases s)[k := Some p], allbase := Some p\<rparr>"
  have rsq: "rs ! q = pagerefs s0 ! q" if "q \<noteq> p" for q using that e(1) by (simp add: rs_def)
  have "4096 dvd unat pg" using kp by (simp add: kpage_def)
  then have rsp: "PR_PAGEADDR (rs ! p) = pg" "PR_BLOCKTYPE (rs ! p) = k" "next_all (rs ! p) = allbase s0"
    "next_samesize (rs ! p) = sizebases s0 ! k" "nfree (rs ! p) = of_nat ?n" "freelist_offset (rs ! p) = of_nat ((?n - 1) * sizes ! k)"
    using lp(1) MKPAB_fields [OF _ k] e by (simp_all add: rs_def PR_PAGEADDR_def PR_BLOCKTYPE_def)
  have p: "p \<notin> set ps" using u(2) hd(6) by blast
  have tf: "pagerefs t = rs" "allbase t = Some p" "sizebases t = (sizebases s0)[k := Some p]" "kmem t = m"
    "held_pages t = held_pages s" "inuse t = inuse s" "vm_ok t" "pagerefs_inuse t = pagerefs_inuse s" "length rs = NPAGEREFS"
    using ok e(1,2) hd(2) by (simp_all add: t_def rs_def inuse_def fun_eq_iff)
  have ne: "page_of s0 q \<noteq> pg" if "q \<in> set ps" for q
    using page_repD(2) [OF hd(10) [OF that]] pg(1) by auto
  have rsq': "rs ! q = pagerefs s0 ! q" if "q \<in> set ps" for q using rsq [of q] that p by auto
  have "page_rep t p (fresh_blocks pg (sizes ! k))"
  proof -
    have "link t = (\<lambda>a. if m a = 0 then None else Some (m a))" by (simp add: link_def tf(4) fun_eq_iff)
    moreover have "free_head t p = Some (pg + of_nat ((?n - 1) * sizes ! k))"
      using fresh_offset [OF k] by (simp add: free_head_def tf(1) rsp)
    moreover have "unat (of_nat ?n :: u16) = ?n" using sizes_facts(5) [OF k] by (simp add: unat_of_nat)
    ultimately show ?thesis
      using m(1) fresh_blocks_props [OF kp k] k pg(2) unfolding page_rep_def tf(1,5) rsp by simp
  qed
  moreover have "page_rep t q (fl q)" if q: "q \<in> set ps" for q
  proof (rule page_rep_cong [OF hd(10) [OF q]])
    fix a assume a: "a \<in> set (fl q)"
    note r = page_repD [OF hd(10) [OF q]]
    have "apart (page_of s0 q) PAGE_SIZE pg PAGE_SIZE"
      using cm.held_apart [OF ok, of "page_of s0 q" pg] ne [OF q] pg(2) r(2) by simp
    then have "apart a (sizes ! class_of s0 q) b (sizes ! k)" if "b \<in> block_addrs pg (sizes ! k)" for b
      using r(1,5) a that kp k page_rep_kpage [OF hd(1) hd(10) [OF q]] by (intro block_pages_apart [where pg = "page_of s0 q" and qg = pg]) auto
    then have "a \<notin> block_addrs pg (sizes ! k)"
      using apart_neq [of a _ a] sizes_facts(1) [OF r(1)] sizes_facts(1) [OF k] by fastforce
    then show "kmem t a = kmem s0 a" using m(2) tf(4) e(4) by simp
  qed (use rsq' [OF q] tf ne [OF q] pg(2) in simp_all)
  ultimately have "heap_rep t (p # ps) (fl(p := fresh_blocks pg (sizes ! k)))"
    using tf rsp ne rsq' p e u(1) hd(6) by (intro heap_rep_cons [OF h p _ k]) auto
  then show ?thesis using eq m(2) [unfolded e(4)] rsp(1,2) rsq unfolding t_def rs_def [symmetric] by blast
qed

section \<open>The allocated blocks\<close>

text \<open>
  The blocks that are allocated: those of the pages \<open>ps\<close> that are not on a free list, and the runs of pages that
  are not cut into blocks.
\<close>

definition live_blocks :: "'z kheap_scheme \<Rightarrow> nat list \<Rightarrow> (nat \<Rightarrow> u32 list) \<Rightarrow> (u32 \<times> nat) set" where
  "live_blocks s ps fl = (\<Union>p \<in> set ps. (\<lambda>a. (a, bsize s p)) ` (pblocks s p - set (fl p))) \<union>
     (\<lambda>a. (a, PAGE_SIZE * held_pages s a)) ` {a. 0 < held_pages s a \<and> a \<notin> page_of s ` set ps}"

lemma live_iff:
  "(a, n) \<in> live_blocks s ps fl \<longleftrightarrow> (\<exists>p \<in> set ps. a \<in> pblocks s p \<and> a \<notin> set (fl p) \<and> n = bsize s p) \<or>
     (0 < held_pages s a \<and> a \<notin> page_of s ` set ps \<and> n = PAGE_SIZE * held_pages s a)"
  unfolding live_blocks_def by auto

text \<open>Every live block lies in a run of pages that is held: its page, or itself.\<close>

lemma live_region:
  assumes h: "heap_rep s ps fl" and a: "(a, n) \<in> live_blocks s ps fl"
  shows "0 < n" "a \<noteq> 0" "\<exists>g. 0 < held_pages s g \<and> unat g \<le> unat a \<and> unat a + n \<le> unat g + PAGE_SIZE * held_pages s g \<and>
     (if g \<in> page_of s ` set ps then \<exists>p \<in> set ps. g = page_of s p \<and> a \<in> pblocks s p \<and> a \<notin> set (fl p) \<and> n = bsize s p
      else g = a \<and> n = PAGE_SIZE * held_pages s a)"
proof -
  have "0 < n \<and> a \<noteq> 0 \<and> (\<exists>g. 0 < held_pages s g \<and> unat g \<le> unat a \<and> unat a + n \<le> unat g + PAGE_SIZE * held_pages s g \<and>
     (if g \<in> page_of s ` set ps then \<exists>p \<in> set ps. g = page_of s p \<and> a \<in> pblocks s p \<and> a \<notin> set (fl p) \<and> n = bsize s p
      else g = a \<and> n = PAGE_SIZE * held_pages s a))"
    using a unfolding live_iff
  proof (elim disjE bexE conjE)
    fix p assume p: "p \<in> set ps" "a \<in> pblocks s p" "a \<notin> set (fl p)" "n = bsize s p"
    note r = page_repD [OF heap_repD(10) [OF h p(1)]]
    have kp: "kpage (page_of s p)" by (rule page_rep_kpage [OF heap_repD(1) [OF h] heap_repD(10) [OF h p(1)]])
    show ?thesis using block_in_page [OF p(2) kp r(1)] sizes_facts(1) [OF r(1)] p r(2) by (auto intro!: exI [of _ "page_of s p"])
  next
    assume g: "0 < held_pages s a" "a \<notin> page_of s ` set ps" "n = PAGE_SIZE * held_pages s a"
    have "a \<noteq> 0" using cm.held_page [OF heap_repD(1) [OF h] g(1)] by auto
    then show ?thesis using g by auto
  qed
  then show "0 < n" "a \<noteq> 0" "\<exists>g. 0 < held_pages s g \<and> unat g \<le> unat a \<and> unat a + n \<le> unat g + PAGE_SIZE * held_pages s g \<and>
     (if g \<in> page_of s ` set ps then \<exists>p \<in> set ps. g = page_of s p \<and> a \<in> pblocks s p \<and> a \<notin> set (fl p) \<and> n = bsize s p
      else g = a \<and> n = PAGE_SIZE * held_pages s a)" by blast+
qed

lemma live_apart:
  assumes h: "heap_rep s ps fl" and a: "(a, m) \<in> live_blocks s ps fl" and b: "(b, n) \<in> live_blocks s ps fl" and ne: "(a, m) \<noteq> (b, n)"
  shows "apart a m b n"
proof -
  from live_region(3) [OF h a] obtain g where g: "0 < held_pages s g" "unat g \<le> unat a" "unat a + m \<le> unat g + PAGE_SIZE * held_pages s g"
    "if g \<in> page_of s ` set ps then \<exists>p \<in> set ps. g = page_of s p \<and> a \<in> pblocks s p \<and> a \<notin> set (fl p) \<and> m = bsize s p
     else g = a \<and> m = PAGE_SIZE * held_pages s a" by blast
  from live_region(3) [OF h b] obtain k where k: "0 < held_pages s k" "unat k \<le> unat b" "unat b + n \<le> unat k + PAGE_SIZE * held_pages s k"
    "if k \<in> page_of s ` set ps then \<exists>p \<in> set ps. k = page_of s p \<and> b \<in> pblocks s p \<and> b \<notin> set (fl p) \<and> n = bsize s p
     else k = b \<and> n = PAGE_SIZE * held_pages s b" by blast
  show ?thesis
  proof (cases "g = k")
    case False
    show ?thesis by (rule apart_sub [OF cm.held_apart [OF heap_repD(1) [OF h] g(1) k(1) False] g(2,3) k(2,3)])
  next
    case True
    then obtain p q where p: "p \<in> set ps" "g = page_of s p" "a \<in> pblocks s p" "m = bsize s p"
        and q: "q \<in> set ps" "g = page_of s q" "b \<in> pblocks s q" "n = bsize s q"
      using g(4) k(4) ne by (auto split: if_splits)
    have "p = q" using inj_onD [OF heap_repD(9) [OF h], of p q] p q by simp
    moreover from this have "a \<noteq> b" using ne p q by auto
    moreover note page_rep_kpage [OF heap_repD(1) [OF h] heap_repD(10) [OF h p(1)]] page_repD(1) [OF heap_repD(10) [OF h p(1)]]
    ultimately show ?thesis using blocks_apart p(3,4) q(3,4) by simp
  qed
qed

text \<open>The memory of the live blocks.\<close>

definition same_contents :: "(u32 \<times> nat) set \<Rightarrow> (u32 \<Rightarrow> u32) \<Rightarrow> (u32 \<Rightarrow> u32) \<Rightarrow> bool" where
  "same_contents B m m' \<longleftrightarrow> (\<forall>(a, n) \<in> B. \<forall>x. unat a \<le> unat x \<and> unat x < unat a + n \<longrightarrow> m' x = m x)"

text \<open>No page is entirely free.\<close>

definition no_spare :: "'z kheap_scheme \<Rightarrow> nat list \<Rightarrow> (nat \<Rightarrow> u32 list) \<Rightarrow> bool" where
  "no_spare s ps fl \<longleftrightarrow> (\<forall>p \<in> set ps. length (fl p) < PAGE_SIZE div bsize s p)"

definition kheap_inv :: "'z kheap_scheme \<Rightarrow> bool" where
  "kheap_inv s \<longleftrightarrow> heap_rep s (heap_pages s) (page_frees s) \<and> no_spare s (heap_pages s) (page_frees s)"

definition kblocks :: "'z kheap_scheme \<Rightarrow> (u32 \<times> nat) set" where
  "kblocks s = live_blocks s (heap_pages s) (page_frees s)"

lemma kheap_invI:
  assumes h: "heap_rep s ps fl" and n: "no_spare s ps fl"
  shows "kheap_inv s" "kblocks s = live_blocks s ps fl"
proof -
  note u = heap_rep_unique [OF h]
  have "heap_rep s ps (page_frees s)" using h unfolding heap_rep_def by (simp add: u(2) cong: ball_cong)
  then show "kheap_inv s" using n unfolding kheap_inv_def u(1) no_spare_def by (simp add: u(2))
  show "kblocks s = live_blocks s ps fl" unfolding kblocks_def u(1) by (auto simp: live_iff u(2))
qed

section \<open>Correctness of allocation\<close>

lemma live_take:
  assumes h: "heap_rep s ps fl" and p: "p \<in> set ps" and b: "fl p = b # bs"
    and e: "\<And>q. page_of s' q = page_of s q" "\<And>q. class_of s' q = class_of s q" "held_pages s' = held_pages s"
  shows "live_blocks s' ps (fl(p := bs)) = insert (b, bsize s p) (live_blocks s ps fl)" "(b, bsize s p) \<notin> live_blocks s ps fl" "b \<noteq> 0"
proof -
  note r = page_repD [OF heap_repD(10) [OF h p]]
  have kp: "kpage (page_of s p)" by (rule page_rep_kpage [OF heap_repD(1) [OF h] heap_repD(10) [OF h p]])
  have m: "b \<in> pblocks s p" "b \<notin> set bs" using r(4,5) b by auto
  then show "b \<noteq> 0" using block_in_page(3) kp r(1) by blast
  have key: "a \<in> pblocks s q \<and> a \<notin> set ((fl(p := bs)) q) \<and> n = bsize s q \<longleftrightarrow>
      q = p \<and> (a, n) = (b, bsize s p) \<or> a \<in> pblocks s q \<and> a \<notin> set (fl q) \<and> n = bsize s q" for a n q
    using m b by (cases "q = p") auto
  have "(a, n) \<in> live_blocks s' ps (fl(p := bs)) \<longleftrightarrow> (a, n) \<in> insert (b, bsize s p) (live_blocks s ps fl)" for a n
    unfolding live_iff e key insert_iff using p by blast
  then show "live_blocks s' ps (fl(p := bs)) = insert (b, bsize s p) (live_blocks s ps fl)" by (intro set_eqI) (metis surj_pair)
  show "(b, bsize s p) \<notin> live_blocks s ps fl"
  proof
    assume a: "(b, bsize s p) \<in> live_blocks s ps fl"
    obtain g where g: "0 < held_pages s g" "unat g \<le> unat b" "unat b + bsize s p \<le> unat g + PAGE_SIZE * held_pages s g"
        "if g \<in> page_of s ` set ps then \<exists>q \<in> set ps. g = page_of s q \<and> b \<in> pblocks s q \<and> b \<notin> set (fl q) \<and> bsize s p = bsize s q
         else g = b \<and> bsize s p = PAGE_SIZE * held_pages s b"
      using live_region(3) [OF h a] by blast
    have "g = page_of s p"
    proof (rule ccontr)
      assume "g \<noteq> page_of s p"
      then have "apart g (PAGE_SIZE * held_pages s g) (page_of s p) PAGE_SIZE"
        using cm.held_apart [OF heap_repD(1) [OF h] g(1), of "page_of s p"] r(2) by simp
      then have "apart b (bsize s p) b (bsize s p)"
        by (rule apart_sub [OF _ g(2,3) block_in_page(1,2) [OF m(1) kp r(1)]])
      then show False using sizes_facts(1) [OF r(1)] by (simp add: apart_def)
    qed
    then obtain q where "q \<in> set ps" "page_of s p = page_of s q" "b \<notin> set (fl q)" using g(4) p by (auto split: if_splits)
    then show False using inj_onD [OF heap_repD(9) [OF h], of p q] p b by auto
  qed
qed

lemma blocktype_loop_ok:
  "i \<le> j \<Longrightarrow> j < i + n \<Longrightarrow> sz \<le> sizes ! j \<Longrightarrow>
   \<exists>k. blocktype_loop n i sz = Some k \<and> k < i + n \<and> sz \<le> sizes ! k"
proof (induction n arbitrary: i)
  case (Suc n)
  show ?case
  proof (cases "sz \<le> sizes ! i")
    case False
    then have "i \<noteq> j" using Suc.prems(3) by blast
    then show ?thesis using False Suc.IH [of "Suc i"] Suc.prems by auto
  qed auto
qed simp

lemma blocktype_ok: "sz \<le> 2048 \<Longrightarrow> \<exists>k < NSIZES. blocktype sz = Some k \<and> sz \<le> sizes ! k"
  using blocktype_loop_ok [of 0 7 NSIZES sz] unfolding blocktype_def by (auto simp: sizes_def)

text \<open>What an allocation promises: nothing changes, or there is a new block and the others keep their contents.\<close>

definition allocated :: "nat \<Rightarrow> u32 \<Rightarrow> (u32 \<times> nat) set \<Rightarrow> (u32 \<times> nat) set \<Rightarrow> (u32 \<Rightarrow> u32) \<Rightarrow> (u32 \<Rightarrow> u32) \<Rightarrow> bool" where
  "allocated sz a B B' m m' \<longleftrightarrow>
     (if a = 0 then B' = B \<and> m' = m
      else (\<exists>n \<ge> sz. (a, n) \<notin> B \<and> B' = insert (a, n) B \<and> same_contents B m m'))"

lemma doalloc_correct:
  assumes h: "heap_rep s ps fl" and p: "p \<in> set ps" and b: "fl p = b # bs" and spl: "0 \<le> spl"
    and n: "\<And>q. q \<in> set ps \<Longrightarrow> q \<noteq> p \<Longrightarrow> length (fl q) < PAGE_SIZE div bsize s q" and sz: "sz \<le> bsize s p"
  shows "\<exists>s'. doalloc spl p s = Ret b s' \<and> kheap_inv s' \<and> curspl s' = spl \<and> kmem s' = kmem s \<and> b \<noteq> 0 \<and>
     (b, bsize s p) \<notin> live_blocks s ps fl \<and> kblocks s' = insert (b, bsize s p) (live_blocks s ps fl)"
proof -
  obtain rs where rs: "doalloc spl p s = Ret b (splx spl (s\<lparr>pagerefs := rs\<rparr>))" "heap_rep (s\<lparr>pagerefs := rs\<rparr>) ps (fl(p := bs))"
      "\<And>q. same_place (pagerefs s ! q) (rs ! q)"
    using doalloc_ok [OF h p b] by blast
  let ?s = "splx spl (s\<lparr>pagerefs := rs\<rparr>)"
  have "vm_ok ?s" using heap_repD(1) [OF h] spl by (intro vm_ok_spl) simp_all
  then have h': "heap_rep ?s ps (fl(p := bs))" by (rule heap_rep_splx [OF rs(2)])
  have c: "page_of ?s q = page_of s q" "class_of ?s q = class_of s q" for q using same_placeD [OF rs(3)] by simp_all
  have "length bs < PAGE_SIZE div bsize s p" using page_rep_length(1) [OF heap_repD(10) [OF h p]] b by simp
  then have "no_spare ?s ps (fl(p := bs))" using n unfolding no_spare_def c by auto
  note i = kheap_invI [OF h' this]
  have "held_pages ?s = held_pages s" by simp
  note t = live_take [OF h p b c this]
  show ?thesis using rs(1) i t by (intro exI [of _ ?s]) simp
qed

lemma live_spl [simp]: "live_blocks (splx x s) = live_blocks s" "live_blocks (splhigh s) = live_blocks s"
  by (simp_all add: live_blocks_def fun_eq_iff)

lemma heap_rep_inuse:
  assumes h: "heap_rep s ps fl" and u: "length us = INUSE_WORDS" "\<And>j. inuse (s\<lparr>pagerefs_inuse := us\<rparr>) j = inuse s j"
  shows "heap_rep (s\<lparr>pagerefs_inuse := us\<rparr>) ps fl" "live_blocks (s\<lparr>pagerefs_inuse := us\<rparr>) ps fl = live_blocks s ps fl"
proof -
  have "link (s\<lparr>pagerefs_inuse := us\<rparr>) = link s" by (simp add: link_def fun_eq_iff)
  then have "page_rep (s\<lparr>pagerefs_inuse := us\<rparr>) q l = page_rep s q l" for q l
    by (simp add: page_rep_def free_head_def)
  then show "heap_rep (s\<lparr>pagerefs_inuse := us\<rparr>) ps fl" using h u unfolding heap_rep_def by simp
  show "live_blocks (s\<lparr>pagerefs_inuse := us\<rparr>) ps fl = live_blocks s ps fl" by (simp add: live_blocks_def)
qed

text \<open>A page of which every block is free adds no live block.\<close>

lemma live_new:
  assumes p: "p \<notin> set ps" and q: "\<And>q. q \<in> set ps \<Longrightarrow> pagerefs t ! q = pagerefs s ! q"
    and g: "held_pages t = (held_pages s)(page_of t p := 1)" "held_pages s (page_of t p) = 0"
    and f: "set l = pblocks t p" and u: "\<And>q. q \<in> set ps \<Longrightarrow> held_pages s (page_of s q) = 1"
  shows "live_blocks t (p # ps) (fl(p := l)) = live_blocks s ps fl"
proof -
  have "(\<exists>r \<in> set (p # ps). a \<in> pblocks t r \<and> a \<notin> set ((fl(p := l)) r) \<and> n = bsize t r) \<longleftrightarrow>
      (\<exists>r \<in> set ps. a \<in> pblocks s r \<and> a \<notin> set (fl r) \<and> n = bsize s r)" for a n
    using p q f by auto
  moreover have "0 < held_pages t a \<and> a \<notin> page_of t ` set (p # ps) \<and> n = PAGE_SIZE * held_pages t a \<longleftrightarrow>
      0 < held_pages s a \<and> a \<notin> page_of s ` set ps \<and> n = PAGE_SIZE * held_pages s a" for a n
  proof -
    have "page_of t ` set ps = page_of s ` set ps" by (rule image_cong) (simp_all add: q)
    then show ?thesis using g by auto
  qed
  ultimately have "(a, n) \<in> live_blocks t (p # ps) (fl(p := l)) \<longleftrightarrow> (a, n) \<in> live_blocks s ps fl" for a n
    unfolding live_iff by blast
  then show ?thesis by (intro set_eqI) (metis surj_pair)
qed

lemma vm_restD:
  assumes "vm_rest s' = vm_rest (s :: 'z kheap_scheme)"
  shows "pagerefs s' = pagerefs s" "pagerefs_inuse s' = pagerefs_inuse s" "sizebases s' = sizebases s" "allbase s' = allbase s"
    "kmem s' = kmem s" "curspl s' = curspl s"
  using arg_cong [OF assms, of pagerefs] arg_cong [OF assms, of pagerefs_inuse] arg_cong [OF assms, of sizebases]
    arg_cong [OF assms, of allbase] arg_cong [OF assms, of kmem] arg_cong [OF assms, of curspl]
  by (simp_all add: vm_rest_def)

lemma fresh_page_contents:
  fixes s t :: "'z kheap_scheme"
  assumes h: "heap_rep s ps fl" and ok: "vm_ok t" and g: "held_pages s pg = 0" "held_pages t = (held_pages s)(pg := 1)"
    and k: "k < NSIZES" and m: "\<forall>a. a \<notin> block_addrs pg (sizes ! k) \<longrightarrow> m a = kmem s a"
  shows "same_contents (live_blocks s ps fl) (kmem s) m"
  unfolding same_contents_def
proof (clarify)
  fix a n and x :: u32 assume a: "(a, n) \<in> live_blocks s ps fl" and x: "unat a \<le> unat x" "unat x < unat a + n"
  have kp: "kpage pg" using cm.held_page [OF ok, of pg] g(2) by (simp add: kpage_def)
  obtain h' where h': "0 < held_pages s h'" "unat h' \<le> unat a" "unat a + n \<le> unat h' + PAGE_SIZE * held_pages s h'"
    using live_region(3) [OF h a] by blast
  have "apart pg PAGE_SIZE h' (PAGE_SIZE * held_pages s h')" using cm.fresh_apart [OF ok g(2,1) _ h'(1)] by simp
  moreover have "unat pg \<le> unat x" "unat x + sizes ! k \<le> unat pg + PAGE_SIZE" if "x \<in> block_addrs pg (sizes ! k)"
    using block_in_page(1,2) [OF that kp k] by simp_all
  ultimately have "x \<notin> block_addrs pg (sizes ! k)" using h'(2,3) x sizes_facts(1) [OF k] unfolding apart_def by linarith
  then show "m x = kmem s x" using m by blast
qed

text \<open>A page is taken from the page allocator when no page of the size has a free block.\<close>

lemma new_page_alloc:
  fixes s :: "'z kheap_scheme"
  assumes h: "heap_rep s ps fl" and n: "no_spare s ps fl" and k: "k < NSIZES" and sz: "sz \<le> sizes ! k" and spl: "0 \<le> spl"
    and j: "j < NPAGEREFS" "\<not> inuse s j" and us: "length us = INUSE_WORDS"
      "\<And>i. inuse (s\<lparr>pagerefs_inuse := us\<rparr>) i \<longleftrightarrow> inuse s i \<or> i = j"
    and a: "alloc_kpages 1 (s\<lparr>pagerefs_inuse := us\<rparr>) = Ret pg s2" "vm_ok s2" "held_pages s pg = 0"
      "held_pages s2 = (held_pages s)(pg := 1)" "vm_rest s2 = vm_rest (s\<lparr>pagerefs_inuse := us\<rparr>)"
  shows "\<exists>b s'. andthen (new_page j pg k s2) (\<lambda>_ s. doalloc spl j s) = Ret b s' \<and> kheap_inv s' \<and> curspl s' = spl \<and> b \<noteq> 0 \<and>
     allocated sz b (live_blocks s ps fl) (kblocks s') (kmem s) (kmem s')"
proof -
  note v = vm_restD [OF a(5)]
  have jn: "j \<notin> set ps" using heap_repD(6) [OF h] j(2) by blast
  have iu: "inuse s2 i \<longleftrightarrow> inuse s i \<or> i = j" for i using us(2) [of i] v(2) by (simp add: inuse_def)
  have l: "length (pagerefs_inuse s2) = INUSE_WORDS" "pagerefs s2 = pagerefs s" "sizebases s2 = sizebases s"
    "allbase s2 = allbase s" "kmem s2 = kmem s" using v us(1) by simp_all
  obtain m rs bs where t: "new_page j pg k s2 = Ret () (s2\<lparr>kmem := m, pagerefs := rs, sizebases := bs, allbase := Some j\<rparr>)"
      "heap_rep (s2\<lparr>kmem := m, pagerefs := rs, sizebases := bs, allbase := Some j\<rparr>) (j # ps) (fl(j := fresh_blocks pg (sizes ! k)))"
      "PR_PAGEADDR (rs ! j) = pg" "PR_BLOCKTYPE (rs ! j) = k" "\<forall>q. q \<noteq> j \<longrightarrow> rs ! q = pagerefs s ! q"
      "\<forall>a. a \<notin> block_addrs pg (sizes ! k) \<longrightarrow> m a = kmem s a"
    using new_page_rep [OF h a(2) k l(2-5,1) iu j(2,1) a(3,4)] by blast
  define t where "t = s2\<lparr>kmem := m, pagerefs := rs, sizebases := bs, allbase := Some j\<rparr>"
  have tf: "page_of t j = pg" "class_of t j = k" "held_pages t = (held_pages s)(pg := 1)" "kmem t = m"
    "\<And>q. q \<in> set ps \<Longrightarrow> pagerefs t ! q = pagerefs s ! q"
    using t(3,4,5) a(4) jn by (auto simp: t_def)
  have kp: "kpage pg" using cm.held_page [OF a(2), of pg] a(4) by (simp add: kpage_def)
  note fb = fresh_blocks_props [OF kp k]
  have lv: "live_blocks t (j # ps) (fl(j := fresh_blocks pg (sizes ! k))) = live_blocks s ps fl"
    by (rule live_new [OF jn]) (use tf fb(1) a(3) page_repD(2) [OF heap_repD(10) [OF h]] in simp_all)
  obtain b cs where b: "fresh_blocks pg (sizes ! k) = b # cs"
    using fb(3) sizes_facts(4) [OF k] by (cases "fresh_blocks pg (sizes ! k)") auto
  have "length ((fl(j := fresh_blocks pg (sizes ! k))) q) < PAGE_SIZE div bsize t q" if "q \<in> set (j # ps)" "q \<noteq> j" for q
    using that n tf(5) by (auto simp: no_spare_def)
  with doalloc_correct [OF t(2) [folded t_def], of j b cs spl sz] obtain s' where s': "doalloc spl j t = Ret b s'" "kheap_inv s'"
      "curspl s' = spl" "kmem s' = m" "b \<noteq> 0" "(b, sizes ! k) \<notin> live_blocks s ps fl"
      "kblocks s' = insert (b, sizes ! k) (live_blocks s ps fl)"
    using spl sz b lv tf(1,2,4) by auto
  have "same_contents (live_blocks s ps fl) (kmem s) m" by (rule fresh_page_contents [OF h a(2,3,4) k t(6)])
  then show ?thesis using s' sz t(1) unfolding t_def [symmetric] allocated_def by auto
qed

lemma find_SomeD: "List.find P xs = Some x \<Longrightarrow> x \<in> set xs \<and> P x"
  by (induction xs) (auto split: if_splits)

lemma same_contents_refl [simp]: "same_contents B m m"
  by (simp add: same_contents_def)

lemma first_run_fits_upds [simp]:
  "first_run_fits n (s\<lparr>pagerefs_inuse := us\<rparr>) = first_run_fits n s" "first_run_fits n (splhigh s) = first_run_fits n s"
  by (simp_all add: first_run_fits_def page_free_def)

lemma subpage_new:
  fixes s :: "'z kheap_scheme"
  assumes h: "heap_rep s ps fl" and n: "no_spare s ps fl" and k: "k < NSIZES" and sz: "sz \<le> sizes ! k" and spl: "0 \<le> spl"
  shows "\<exists>b s'. andthen (allocpageref s)
       (\<lambda>pr s. case pr of
          None \<Rightarrow> Ret 0 (splx spl s)
        | Some p \<Rightarrow>
            andthen (alloc_kpages 1 s)
             (\<lambda>prpage s.
               if prpage = 0 then andthen (freepageref p s) (\<lambda>_ s. Ret 0 (splx spl s))
               else andthen (new_page p prpage k s) (\<lambda>_ s. doalloc spl p s))) = Ret b s' \<and>
     kheap_inv s' \<and> curspl s' = spl \<and> allocated sz b (live_blocks s ps fl) (kblocks s') (kmem s) (kmem s') \<and>
     (b = 0 \<longrightarrow> length ps = NPAGEREFS \<or> \<not> first_run_fits 1 s)"
proof -
  have stay: "kheap_inv (splx spl t) \<and> kblocks (splx spl t) = live_blocks s ps fl \<and> kmem (splx spl t) = kmem s"
    if t: "heap_rep t ps fl" "live_blocks t ps fl = live_blocks s ps fl" "kmem t = kmem s" "pagerefs t = pagerefs s" for t :: "'z kheap_scheme"
  proof -
    have "heap_rep (splx spl t) ps fl" by (rule heap_rep_splx [OF t(1) vm_ok_spl(2) [OF heap_repD(1) [OF t(1)] spl]])
    moreover have "no_spare (splx spl t) ps fl" using n t(4) by (simp add: no_spare_def)
    ultimately show ?thesis using kheap_invI [of "splx spl t" ps fl] t by simp
  qed
  have z: "0 + INUSE_WORDS \<le> INUSE_WORDS" by simp
  show ?thesis
    using allocpageref_loop_ok [OF heap_repD(3) [OF h] z, folded allocpageref_def]
  proof (elim disjE exE conjE)
    assume a: "allocpageref s = Ret None s" "\<forall>j. 0 * 32 \<le> j \<and> j < (0 + INUSE_WORDS) * 32 \<longrightarrow> inuse s j"
    have "length ps = NPAGEREFS"
      using heap_rep_length [OF h] card_mono [of "set ps" "{..<NPAGEREFS}"] distinct_card [OF heap_repD(5) [OF h]] heap_repD(6) [OF h] a(2)
      by (auto simp: subset_iff)
    then show ?thesis using stay [OF h] a(1) by (simp add: allocated_def)
  next
    fix j us assume j: "j < NPAGEREFS" "\<not> inuse s j" "length us = INUSE_WORDS" "allocpageref s = Ret (Some j) (s\<lparr>pagerefs_inuse := us\<rparr>)"
      "\<forall>i. inuse (s\<lparr>pagerefs_inuse := us\<rparr>) i \<longleftrightarrow> inuse s i \<or> i = j"
    let ?s = "s\<lparr>pagerefs_inuse := us\<rparr>"
    have "vm_ok ?s" using heap_repD(1) [OF h] by simp
    from cm.alloc_new [OF this, of 1] consider "alloc_kpages 1 ?s = Ret 0 ?s"
      | pg s2 where "alloc_kpages 1 ?s = Ret pg s2" "pg \<noteq> 0" "vm_ok s2" "held_pages s pg = 0"
          "held_pages s2 = (held_pages s)(pg := 1)" "vm_rest s2 = vm_rest ?s" by auto
    then show ?thesis
    proof cases
      case 1
      obtain us' where u: "freepageref j ?s = Ret () (?s\<lparr>pagerefs_inuse := us'\<rparr>)" "length us' = INUSE_WORDS"
          "\<forall>i. inuse (?s\<lparr>pagerefs_inuse := us'\<rparr>) i \<longleftrightarrow> inuse ?s i \<and> i \<noteq> j"
        using freepageref_ok [of ?s j] j(3,5) by auto
      have "inuse (s\<lparr>pagerefs_inuse := us'\<rparr>) i = inuse s i" for i using u(3) j(2,5) by auto
      note t = heap_rep_inuse [OF h u(2) this]
      have "\<not> first_run_fits 1 s"
        using 1 alloc_kpages_cases [of ?s 1] \<open>vm_ok ?s\<close> vm_okD [of ?s] page_addr_nonzero [of ?s] by (auto split: if_splits)
      then show ?thesis using stay [OF t] 1 u(1) j(4) by (simp add: allocated_def)
    next
      case 2
      then show ?thesis using new_page_alloc [OF h n k sz spl j(1,2,3) _ 2(1,3-6)] j(4,5) by auto
    qed
  qed
qed

lemma subpage_kmalloc_ok:
  fixes s :: "'z kheap_scheme"
  assumes inv: "kheap_inv s" and sz: "sz \<le> 2048"
  shows "\<exists>b s'. subpage_kmalloc sz s = Ret b s' \<and> kheap_inv s' \<and> curspl s' = curspl s \<and>
     allocated sz b (kblocks s) (kblocks s') (kmem s) (kmem s') \<and>
     (b = 0 \<longrightarrow> length (heap_pages s) = NPAGEREFS \<or> \<not> first_run_fits 1 s)"
proof -
  let ?ps = "heap_pages s" and ?fl = "page_frees s" and ?h = "splhigh s"
  have h0: "heap_rep s ?ps ?fl" and n0: "no_spare s ?ps ?fl" using inv by (simp_all add: kheap_inv_def)
  have ok: "vm_ok s" and spl: "spl_ok s" using heap_repD(1) [OF h0] vm_okD by blast+
  have spl0: "0 \<le> curspl s" using spl by (simp add: spl_ok_def)
  have h: "heap_rep ?h ?ps ?fl" unfolding splhigh_def by (rule heap_rep_splx [OF h0]) (use vm_ok_spl(1) [OF ok] in \<open>simp add: splhigh_def\<close>)
  have n: "no_spare ?h ?ps ?fl" using n0 by (simp add: no_spare_def)
  have lv: "live_blocks ?h ?ps ?fl = kblocks s" by (simp add: kblocks_def)
  obtain k where k: "k < NSIZES" "blocktype sz = Some k" "sz \<le> sizes ! k" using blocktype_ok [OF sz] by blast
  let ?xs = "filter (\<lambda>p. class_of ?h p = k) ?ps"
  have f: "find_page NPAGEREFS k (sizebases ?h ! k) ?h = Ret (List.find (\<lambda>p. nfree (pagerefs ?h ! p) > 0) ?xs) ?h"
    by (rule find_page_eq [OF heap_repD(8) [OF h k(1)]])
       (use order_trans [OF length_filter_le heap_rep_length [OF h]] in auto)
  note sub = subpage_kmalloc_def [of sz s, unfolded k(2) option.case Let_def f andthen.simps]
  have same: "splx (curspl s) ?h = s" by (rule splx_back [OF spl])
  show ?thesis
  proof (cases "List.find (\<lambda>p. nfree (pagerefs ?h ! p) > 0) ?xs")
    case (Some p)
    then have p: "p \<in> set ?ps" "class_of ?h p = k" "nfree (pagerefs ?h ! p) > 0" using find_SomeD [OF Some] by simp_all
    have "length (?fl p) > 0" using page_repD(6) [OF heap_repD(10) [OF h p(1)]] p(3) by (simp add: word_less_nat_alt)
    then obtain b bs where b: "?fl p = b # bs" by (cases "?fl p") auto
    have "length (?fl q) < PAGE_SIZE div bsize ?h q" if "q \<in> set ?ps" "q \<noteq> p" for q using n that by (simp add: no_spare_def)
    then obtain s' where "doalloc (curspl s) p ?h = Ret b s'" "kheap_inv s'" "curspl s' = curspl s" "kmem s' = kmem s" "b \<noteq> 0"
        "(b, sizes ! k) \<notin> kblocks s" "kblocks s' = insert (b, sizes ! k) (kblocks s)"
      using doalloc_correct [OF h p(1) b spl0, of sz] p(2) k(3) lv by auto
    then show ?thesis unfolding sub Some using k(3) by (auto simp: allocated_def)
  next
    case None
    then show ?thesis unfolding sub None option.case using subpage_new [OF h n k(1,3) spl0] lv by simp
  qed
qed

text \<open>A change of the core map that leaves the pages of the heap held.\<close>

lemma heap_rep_held:
  fixes s s' :: "'z kheap_scheme"
  assumes h: "heap_rep s ps fl" and ok: "vm_ok s'" and r: "vm_rest s' = vm_rest s"
    and p: "\<And>q. q \<in> set ps \<Longrightarrow> held_pages s' (page_of s q) = 1"
  shows "heap_rep s' ps fl" "no_spare s ps fl \<Longrightarrow> no_spare s' ps fl"
proof -
  note v = vm_restD [OF r]
  show "heap_rep s' ps fl"
  proof (rule heap_rep_step [OF h ok])
    show "page_rep s' q (fl q)" if "q \<in> set ps" for q
      by (rule page_rep_cong [OF heap_repD(10) [OF h that]])
         (use v p [OF that] page_repD(2) [OF heap_repD(10) [OF h that]] in simp_all)
  qed (simp_all add: v same_place_def)
  show "no_spare s ps fl \<Longrightarrow> no_spare s' ps fl" by (simp add: no_spare_def v(1))
qed

lemma npages_eq:
  assumes "unat (sz :: u32) \<le> 2 ^ 32 - 4096" "2048 \<le> unat sz"
  defines "n \<equiv> (unat sz + 4095) div 4096"
  shows "uint ((sz + 4096 - 1) div 4096) = int n" "0 < n" "n < 2 ^ 31" "unat sz \<le> PAGE_SIZE * n"
proof -
  have "unat (sz + of_nat 4095) = unat sz + 4095" by (rule unat_add_nat) (use assms(1) in simp)
  moreover have "sz + 4096 - 1 = sz + of_nat 4095" by simp
  ultimately have "unat ((sz + 4096 - 1) div 4096) = n" by (simp only: unat_div n_def) simp
  then show "uint ((sz + 4096 - 1) div 4096) = int n" by (simp add: uint_nat)
  show "0 < n" "n < 2 ^ 31" using assms(1,2) by (simp_all add: n_def div_greater_zero_iff less_mult_imp_div_less)
  have "(unat sz + 4095) mod 4096 < 4096" "4096 * ((unat sz + 4095) div 4096) + (unat sz + 4095) mod 4096 = unat sz + 4095"
    by (rule mod_less_divisor, simp) (rule mult_div_mod_eq)
  then show "unat sz \<le> PAGE_SIZE * n" unfolding n_def by linarith
qed

text \<open>
  When a request is refused.  One for whole pages: the first run of free pages is too short for it, whatever later
  runs there are.  One for a block: no page is free, or there is no page reference left for another page of blocks.
\<close>

definition starved :: "u32 \<Rightarrow> 'z kheap_scheme \<Rightarrow> bool" where
  "starved sz s \<longleftrightarrow> (if 2048 \<le> unat sz then \<not> first_run_fits ((unat sz + 4095) div 4096) s
     else length (heap_pages s) = NPAGEREFS \<or> (\<forall>i. \<not> page_free s i))"

lemma kmalloc_ok:
  fixes s :: "'z kheap_scheme"
  assumes inv: "kheap_inv s" and sz: "unat sz \<le> 2 ^ 32 - 4096"
  shows "\<exists>b s'. kmalloc sz s = Ret b s' \<and> kheap_inv s' \<and> curspl s' = curspl s \<and>
     allocated (unat sz) b (kblocks s) (kblocks s') (kmem s) (kmem s') \<and> (b = 0 \<longrightarrow> starved sz s)"
proof (cases "2048 \<le> sz")
  case False
  then show ?thesis using subpage_kmalloc_ok [OF inv, of "unat sz"] by (simp add: kmalloc_def word_le_nat_alt starved_def first_run_fits_1 [unfolded One_nat_def])
next
  case True
  then have "2048 \<le> unat sz" by (simp add: word_le_nat_alt)
  note n = npages_eq [OF sz this]
  let ?ps = "heap_pages s" and ?fl = "page_frees s" and ?n = "(unat sz + 4095) div 4096"
  have h: "heap_rep s ?ps ?fl" and sp: "no_spare s ?ps ?fl" using inv by (simp_all add: kheap_inv_def)
  have k: "kmalloc sz s = alloc_kpages (int ?n) s" using True n(1) by (simp add: kmalloc_def)
  from cm.alloc_new [OF heap_repD(1) [OF h] n(2,3)] show ?thesis
  proof (elim disjE exE conjE)
    assume z: "alloc_kpages (int ?n) s = Ret 0 s"
    have c: "coremap_inv s" "spl_ok s" using vm_okD heap_repD(1) [OF h] by blast+
    have "\<not> first_run_fits ?n s"
      using z alloc_kpages_cases [OF c n(2,3)] page_addr_nonzero [OF c(1)] by (auto split: if_splits)
    then show ?thesis unfolding k using inv z \<open>2048 \<le> unat sz\<close> by (simp add: allocated_def starved_def)
  next
    fix a s' assume a: "alloc_kpages (int ?n) s = Ret a s'" "a \<noteq> 0" "vm_ok s'" "held_pages s a = 0"
      "held_pages s' = (held_pages s)(a := ?n)" "vm_rest s' = vm_rest s"
    note v = vm_restD [OF a(6)]
    have ne: "page_of s q \<noteq> a" "held_pages s (page_of s q) = 1" if "q \<in> set ?ps" for q
      using page_repD(2) [OF heap_repD(10) [OF h that]] a(4) by auto
    have "heap_rep s' ?ps ?fl" "no_spare s' ?ps ?fl" using ne a(5) sp by (auto intro: heap_rep_held [OF h a(3,6)])
    note i = kheap_invI [OF this]
    have nb: "a \<notin> page_of s ` set ?ps" using ne(1) by blast
    have big: "0 < held_pages s' b \<and> b \<notin> page_of s ` set ?ps \<and> m = PAGE_SIZE * held_pages s' b \<longleftrightarrow> (b, m) = (a, PAGE_SIZE * ?n) \<or>
        0 < held_pages s b \<and> b \<notin> page_of s ` set ?ps \<and> m = PAGE_SIZE * held_pages s b" for b m
      using nb n(2) a(4) unfolding a(5) by (cases "b = a") simp_all
    have "(b, m) \<in> live_blocks s' ?ps ?fl \<longleftrightarrow> (b, m) \<in> insert (a, PAGE_SIZE * ?n) (live_blocks s ?ps ?fl)" for b m
      unfolding live_iff v(1) big insert_iff by blast
    then have "live_blocks s' ?ps ?fl = insert (a, PAGE_SIZE * ?n) (kblocks s)"
      unfolding kblocks_def by (intro set_eqI) (metis surj_pair)
    moreover have "(a, PAGE_SIZE * ?n) \<notin> kblocks s"
    proof
      assume "(a, PAGE_SIZE * ?n) \<in> kblocks s"
      then obtain q where q: "q \<in> set ?ps" "PAGE_SIZE * ?n = bsize s q" unfolding kblocks_def live_iff using a(4) by auto
      have "bsize s q \<le> 2048" using page_repD(1) [OF heap_repD(10) [OF h q(1)]] by (rule sizes_cases) simp_all
      then show False using q(2) n(2) by linarith
    qed
    ultimately show ?thesis unfolding k using a(1,2) i v(5,6) n(4) by (auto simp: allocated_def)
  qed
qed

end
