(* ===== verification/Kheap_Free.thy ===== *)
theory Kheap_Free
  imports Kheap_Alloc
begin

text \<open>
  Freeing a block of the kernel heap, and the properties of the heap.
\<close>

section \<open>Putting a block on a free list\<close>

lemma fill_deadbeef_other:
  assumes "unat a + len < 2 ^ 32" "unat x < unat a \<or> unat a + len \<le> unat x"
  shows "fill_deadbeef a len m x = m x"
proof -
  have ne: "x \<noteq> a + of_nat (4 * i)" if "i < len div 4" for i
  proof -
    have "4 * i < len" using that by linarith
    then have "unat (a + of_nat (4 * i)) = unat a + 4 * i" using assms(1) by (intro unat_add_nat) simp
    then show ?thesis using assms(2) \<open>4 * i < len\<close> by auto
  qed
  have "fold (\<lambda>i m. m(a + of_nat (4 * i) := 0xdeadbeef)) [0..<k] m x = m x" if "k \<le> len div 4" for k
    using that by (induction k) (use ne in auto)
  then show ?thesis by (simp add: fill_deadbeef_def)
qed

lemma page_rep_push:
  assumes r: "page_rep s p l" and kp: "kpage (page_of s p)" and a: "a \<in> pblocks s p" "a \<notin> set l"
    and p: "pagerefs s' ! p = (pagerefs s ! p)\<lparr>freelist_offset := ucast (a - page_of s p), nfree := nfree (pagerefs s ! p) + 1\<rparr>"
    and m: "link s' a = free_head s p" "\<And>c. c \<in> set l \<Longrightarrow> kmem s' c = kmem s c" and g: "held_pages s' = held_pages s"
  shows "page_rep s' p (a # l)"
proof -
  note d = page_repD [OF r]
  have e: "page_of s' p = page_of s p" "class_of s' p = class_of s p" using p by (simp_all add: PR_PAGEADDR_def PR_BLOCKTYPE_def)
  have "free_head s' p = Some a" using block_diff(2,3) [OF a(1) kp d(1)] e(1) by (simp add: free_head_def p)
  moreover have "is_chain (link s') (free_head s p) l = is_chain (link s) (free_head s p) l"
    by (rule is_chain_cong) (simp add: link_def m(2))
  moreover have "unat (nfree (pagerefs s ! p) + 1) = Suc (length l)"
    using d(6) page_rep_length(2) [OF r] by (simp add: unat_word_ariths)
  ultimately show ?thesis unfolding page_rep_def e g using d a m(1) p by simp
qed

lemma page_push_length:
  assumes r: "page_rep s p l" and a: "a \<in> pblocks s p" "a \<notin> set l"
  shows "Suc (length l) \<le> PAGE_SIZE div bsize s p"
proof -
  have "card (insert a (set l)) \<le> card (pblocks s p)" using page_repD(5) [OF r] a(1) finite_block_addrs(1) by (intro card_mono) auto
  then show ?thesis
    using finite_block_addrs(2) [of "page_of s p" "bsize s p"] distinct_card [OF page_repD(4) [OF r]] a(2) by simp
qed

section \<open>Taking a page off the lists\<close>

lemma remove_lists_ok:
  assumes h: "heap_rep s (ys @ p # zs) fl"
  shows "\<exists>rs bs ab. remove_lists p (class_of s p) s = Ret () (s\<lparr>pagerefs := rs, sizebases := bs, allbase := ab\<rparr>) \<and>
     length rs = length (pagerefs s) \<and> length bs = length (sizebases s) \<and>
     (\<forall>q. pageaddr_and_blocktype (rs ! q) = pageaddr_and_blocktype (pagerefs s ! q) \<and>
          freelist_offset (rs ! q) = freelist_offset (pagerefs s ! q) \<and> nfree (rs ! q) = nfree (pagerefs s ! q)) \<and>
     is_chain (\<lambda>q. next_all (rs ! q)) ab (ys @ zs) \<and>
     (\<forall>i < NSIZES. is_chain (\<lambda>q. next_samesize (rs ! q)) (bs ! i) (filter (\<lambda>q. class_of s q = i) (ys @ zs)))"
proof -
  let ?k = "class_of s p"
  let ?F = "\<lambda>i. filter (\<lambda>q. class_of s q = i)"
  note hd = heap_repD [OF h]
  have k: "?k < NSIZES" using page_repD(1) [OF hd(10), of p] by simp
  have d: "distinct (ys @ p # zs)" by (rule hd(5))
  have c: "is_chain (\<lambda>q. next_samesize (pagerefs s ! q)) (sizebases s ! ?k) (?F ?k ys @ p # ?F ?k zs)" using hd(8) [OF k] by simp
  have l: "length (?F ?k ys @ p # ?F ?k zs) \<le> NPAGEREFS"
    using heap_rep_length [OF h] length_filter_le [of "\<lambda>q. class_of s q = ?k" ys] length_filter_le [of "\<lambda>q. class_of s q = ?k" zs]
    by (simp only: length_append list.size)
  have f1: "find_link NPAGEREFS next_samesize p None (sizebases s ! ?k) s = Ret (Some (if ?F ?k ys = [] then None else Some (last (?F ?k ys)))) s"
    by (rule find_link_eq [OF c _ l]) (use d in auto)
  let ?nx = "\<lambda>q. next_samesize (pagerefs s ! q)" and ?na = "\<lambda>q. next_all (pagerefs s ! q)"
  let ?g = "last (?F ?k ys)" and ?e = "last ys"
  define rs1 where "rs1 = (if ?F ?k ys = [] then pagerefs s else (pagerefs s)[?g := (pagerefs s ! ?g)\<lparr>next_samesize := ?nx p\<rparr>])"
  define bs where "bs = (if ?F ?k ys = [] then (sizebases s)[?k := ?nx p] else sizebases s)"
  let ?s1 = "s\<lparr>pagerefs := rs1, sizebases := bs\<rparr>"
  have lg: "?g < length (pagerefs s)" if "?F ?k ys \<noteq> []"
  proof -
    have "?g \<in> set ys" using last_in_set [OF that] by simp
    then show ?thesis using hd(2) hd(11) [of ?g] by simp
  qed
  have le: "?e < length (pagerefs s)" if "ys \<noteq> []" using last_in_set [OF that] hd(2) hd(11) [of ?e] by simp
  have r1: "next_all (rs1 ! q) = ?na q" "next_samesize (rs1 ! q) = (if ?F ?k ys = [] then ?nx else ?nx(?g := ?nx p)) q" for q
    using lg by (auto simp: rs1_def nth_list_update)
  have c2: "is_chain (\<lambda>q. next_all (pagerefs ?s1 ! q)) (allbase ?s1) (ys @ p # zs)" using hd(7) r1(1) by simp
  have f2: "find_link NPAGEREFS next_all p None (allbase ?s1) ?s1 = Ret (Some (if ys = [] then None else Some ?e)) ?s1"
    by (rule find_link_eq [OF c2]) (use d heap_rep_length [OF h] in auto)
  define rs where "rs = (if ys = [] then rs1 else rs1[?e := (rs1 ! ?e)\<lparr>next_all := ?na p\<rparr>])"
  define ab where "ab = (if ys = [] then ?na p else allbase s)"
  have "remove_lists p ?k s = andthen (find_link NPAGEREFS next_all p None (allbase ?s1) ?s1) (\<lambda>guy s.
      let nx = next_all (pagerefs s ! p)
      in Ret () (case guy of None \<Rightarrow> s | Some None \<Rightarrow> s\<lparr>allbase := nx\<rparr> | Some (Some g) \<Rightarrow> upd_pr g (\<lambda>r. r\<lparr>next_all := nx\<rparr>) s))"
    unfolding remove_lists_def f1 andthen.simps Let_def using k by (cases "?F ?k ys = []") (simp_all add: rs1_def bs_def upd_pr_def)
  then have eq: "remove_lists p ?k s = Ret () (s\<lparr>pagerefs := rs, sizebases := bs, allbase := ab\<rparr>)"
    unfolding f2 using r1(1) [of p] by (cases "ys = []") (simp_all add: rs_def ab_def upd_pr_def)
  have l1: "length rs1 = length (pagerefs s)" by (simp add: rs1_def)
  have r: "next_samesize (rs ! q) = (if ?F ?k ys = [] then ?nx else ?nx(?g := ?nx p)) q" "next_all (rs ! q) = (if ys = [] then ?na else ?na(?e := ?na p)) q"
    "pageaddr_and_blocktype (rs ! q) = pageaddr_and_blocktype (pagerefs s ! q)"
    "freelist_offset (rs ! q) = freelist_offset (pagerefs s ! q)" "nfree (rs ! q) = nfree (pagerefs s ! q)" for q
    using r1 [of q] le l1 lg by (auto simp: rs_def rs1_def nth_list_update)
  have ca: "is_chain (\<lambda>q. next_all (rs ! q)) ab (ys @ zs)"
    using is_chain_unlink [OF hd(7) d] unfolding r ab_def by (cases "ys = []") (simp_all add: fun_upd_def)
  have cs: "is_chain (\<lambda>q. next_samesize (rs ! q)) (bs ! i) (?F i (ys @ zs))" if i: "i < NSIZES" for i
  proof (cases "i = ?k")
    case True
    have "distinct (?F ?k ys @ p # ?F ?k zs)" using d by auto
    then show ?thesis using is_chain_unlink [OF c] True k hd(4) unfolding r bs_def by (cases "?F ?k ys = []") (simp_all add: fun_upd_def)
  next
    case False
    have n: "?nx q = next_samesize (rs ! q)" if "q \<in> set (?F i (ys @ zs))" for q
    proof -
      have "q \<noteq> ?g" if "?F ?k ys \<noteq> []" using last_in_set [OF that] \<open>q \<in> set (?F i (ys @ zs))\<close> False by auto
      then show ?thesis unfolding r by auto
    qed
    have "is_chain ?nx (sizebases s ! i) (?F i (ys @ zs)) = is_chain (\<lambda>q. next_samesize (rs ! q)) (sizebases s ! i) (?F i (ys @ zs))"
      by (rule is_chain_cong, rule n)
    then show ?thesis using hd(8) [OF i] False by (simp add: bs_def)
  qed
  have "length rs = length (pagerefs s)" "length bs = length (sizebases s)" using l1 by (simp_all add: rs_def bs_def)
  then show ?thesis
    by (intro exI [of _ rs] exI [of _ bs] exI [of _ ab] conjI allI impI) (rule eq r(3-5) ca cs | assumption)+
qed
text \<open>Giving back a page: it leaves the lists, its run is released, and its page reference is free again.\<close>

lemma drop_page_ok:
  fixes s :: "'z kheap_scheme"
  assumes h: "heap_rep s (ys @ p # zs) fl"
  shows "\<exists>s'. andthen (remove_lists p (class_of s p) s)
       (\<lambda>_ t. andthen (free_kpages (page_of s p) t) (\<lambda>_ t. freepageref p t)) = Ret () s' \<and>
     heap_rep s' (ys @ zs) fl \<and> kmem s' = kmem s \<and> curspl s' = curspl s \<and> held_pages s' = (held_pages s)(page_of s p := 0) \<and>
     (\<forall>q. page_of s' q = page_of s q \<and> class_of s' q = class_of s q)"
proof -
  note hd = heap_repD [OF h]
  obtain rs bs ab where r: "remove_lists p (class_of s p) s = Ret () (s\<lparr>pagerefs := rs, sizebases := bs, allbase := ab\<rparr>)"
      "length rs = length (pagerefs s)" "length bs = length (sizebases s)"
      "\<And>q. pageaddr_and_blocktype (rs ! q) = pageaddr_and_blocktype (pagerefs s ! q)"
      "\<And>q. freelist_offset (rs ! q) = freelist_offset (pagerefs s ! q)" "\<And>q. nfree (rs ! q) = nfree (pagerefs s ! q)"
      "is_chain (\<lambda>q. next_all (rs ! q)) ab (ys @ zs)"
      "\<And>i. i < NSIZES \<Longrightarrow> is_chain (\<lambda>q. next_samesize (rs ! q)) (bs ! i) (filter (\<lambda>q. class_of s q = i) (ys @ zs))"
    using remove_lists_ok [OF h] by blast
  let ?s1 = "s\<lparr>pagerefs := rs, sizebases := bs, allbase := ab\<rparr>"
  have pc: "PR_PAGEADDR (rs ! q) = page_of s q" "PR_BLOCKTYPE (rs ! q) = class_of s q" for q
    using r(4) by (simp_all add: PR_PAGEADDR_def PR_BLOCKTYPE_def)
  have hp: "held_pages s (page_of s q) = 1" if "q \<in> set (ys @ p # zs)" for q by (rule page_repD(2) [OF hd(10) [OF that]])
  have ok1: "vm_ok ?s1" using hd(1) by simp
  have "0 < held_pages ?s1 (page_of s p)" using hp [of p] by simp
  then obtain s2 where s2: "free_kpages (page_of s p) ?s1 = Ret () s2" "vm_ok s2" "held_pages s2 = (held_pages s)(page_of s p := 0)"
      "vm_rest s2 = vm_rest ?s1" using cm.release_held [OF ok1] by auto
  note v = vm_restD [OF s2(4)]
  have iu: "inuse s2 j \<longleftrightarrow> j \<in> set (ys @ p # zs)" for j using hd(6) [of j] v(2) by (simp add: inuse_def)
  have "length (pagerefs_inuse s2) = INUSE_WORDS" "inuse s2 p" using v(2) hd(3) iu by simp_all
  then obtain us where us: "freepageref p s2 = Ret () (s2\<lparr>pagerefs_inuse := us\<rparr>)" "length us = INUSE_WORDS"
      "\<forall>j. inuse (s2\<lparr>pagerefs_inuse := us\<rparr>) j \<longleftrightarrow> inuse s2 j \<and> j \<noteq> p" using freepageref_ok by blast
  define t where "t = s2\<lparr>pagerefs_inuse := us\<rparr>"
  have tf: "pagerefs t = rs" "sizebases t = bs" "allbase t = ab" "kmem t = kmem s" "curspl t = curspl s" "vm_ok t"
    "held_pages t = (held_pages s)(page_of s p := 0)" "length (pagerefs_inuse t) = INUSE_WORDS"
    using v s2(2,3) us(2) by (simp_all add: t_def)
  have d: "distinct (ys @ p # zs)" by (rule hd(5))
  have "page_rep t q (fl q)" if q: "q \<in> set (ys @ zs)" for q
  proof -
    have "page_of s q \<noteq> page_of s p" using inj_onD [OF hd(9), of q p] q d by auto
    moreover have "link t = link s" "free_head t q = free_head s q" by (simp_all add: link_def free_head_def tf(1,4) r(5) pc fun_eq_iff)
    ultimately show ?thesis using page_repD [OF hd(10), of q] q unfolding page_rep_def tf(1,7) pc r(6) by simp
  qed
  moreover have "inuse t j \<longleftrightarrow> j \<in> set (ys @ zs)" for j using us(3) iu d unfolding t_def by auto
  ultimately have "heap_rep t (ys @ zs) fl"
    unfolding heap_rep_def tf(1-3) pc using hd(2,4,9) d r(2,3,7,8) tf(6,8) by (auto intro: inj_on_subset)
  then show ?thesis unfolding r(1) andthen.simps s2(1) us(1) using tf pc by (intro exI [of _ t]) (simp add: t_def)
qed

section \<open>Correctness of freeing\<close>

definition push_block :: "u32 \<Rightarrow> nat \<Rightarrow> 'z kheap_scheme \<Rightarrow> 'z kheap_scheme" where
  "push_block a p s = s\<lparr>kmem := (fill_deadbeef a (bsize s p) (kmem s))
       (a := if freelist_offset (pagerefs s ! p) = INVALID_OFFSET then 0 else page_of s p + ucast (freelist_offset (pagerefs s ! p))),
     pagerefs := (pagerefs s)[p := (pagerefs s ! p)\<lparr>freelist_offset := ucast (a - page_of s p), nfree := nfree (pagerefs s ! p) + 1\<rparr>]\<rparr>"

lemma push_block_fields [simp]:
  "held_pages (push_block a p s) = held_pages s" "curspl (push_block a p s) = curspl s" "vm_ok (push_block a p s) = vm_ok s"
  "pagerefs_inuse (push_block a p s) = pagerefs_inuse s" "sizebases (push_block a p s) = sizebases s"
  "allbase (push_block a p s) = allbase s" "length (pagerefs (push_block a p s)) = length (pagerefs s)"
  by (simp_all add: push_block_def)

text \<open>A free block has no byte in common with one that is allocated.\<close>

lemma free_block_apart:
  assumes h: "heap_rep s ps fl" and p: "p \<in> set ps" and a: "a \<in> pblocks s p" "a \<notin> set (fl p)"
    and q: "q \<in> set ps" "c \<in> set (fl q)"
  shows "apart c (bsize s q) a (bsize s p)"
proof -
  note hd = heap_repD [OF h]
  note r = page_repD [OF hd(10) [OF p]] and t = page_repD [OF hd(10) [OF q(1)]]
  have kp: "kpage (page_of s p)" "kpage (page_of s q)" using page_rep_kpage hd(1,10) p q(1) by blast+
  have c: "c \<in> pblocks s q" using t(5) q(2) by blast
  show ?thesis
  proof (cases "q = p")
    case True
    then show ?thesis using blocks_apart [OF _ a(1) _ kp(1) r(1), of c] c q(2) a(2) by auto
  next
    case False
    then have "apart (page_of s q) PAGE_SIZE (page_of s p) PAGE_SIZE"
      using cm.held_apart [OF hd(1), of "page_of s q" "page_of s p"] inj_onD [OF hd(9) _ q(1) p] t(2) r(2) by auto
    then show ?thesis by (rule block_pages_apart [OF c a(1) _ kp(2,1) t(1) r(1)])
  qed
qed

lemma push_block_ok:
  assumes h: "heap_rep s ps fl" and p: "p \<in> set ps" and a: "a \<in> pblocks s p" "a \<notin> set (fl p)"
  shows "heap_rep (push_block a p s) ps (fl(p := a # fl p))"
    "\<And>q. same_place (pagerefs s ! q) (pagerefs (push_block a p s) ! q)"
    "live_blocks (push_block a p s) ps (fl(p := a # fl p)) = live_blocks s ps fl - {(a, bsize s p)}"
    "same_contents (live_blocks s ps fl - {(a, bsize s p)}) (kmem s) (kmem (push_block a p s))"
proof -
  let ?t = "push_block a p s"
  note hd = heap_repD [OF h]
  note r = page_repD [OF hd(10) [OF p]]
  have kp: "kpage (page_of s p)" by (rule page_rep_kpage [OF hd(1) hd(10) [OF p]])
  have p': "p < length (pagerefs s)" using hd(2,11) p by simp
  have in_live: "(a, bsize s p) \<in> live_blocks s ps fl" unfolding live_iff using p a by blast
  have rng: "unat a + bsize s p < 2 ^ 32" using block_in_page(2) [OF a(1) kp r(1)] kp by (simp add: kpage_def)
  have out: "kmem ?t x = kmem s x" if "unat x < unat a \<or> unat a + bsize s p \<le> unat x" for x
    using fill_deadbeef_other [OF rng that] that sizes_facts(1) [OF r(1)] by (auto simp: push_block_def)
  show sp: "same_place (pagerefs s ! q) (pagerefs ?t ! q)" for q
    using p' by (cases "q = p") (simp_all add: push_block_def same_place_def)
  have others: "kmem ?t c = kmem s c" if q: "q \<in> set ps" "c \<in> set (fl q)" for q c
  proof (rule out)
    have "apart c (bsize s q) a (bsize s p)" by (rule free_block_apart [OF h p a q])
    then show "unat c < unat a \<or> unat a + bsize s p \<le> unat c"
      using sizes_facts(1) [OF page_repD(1) [OF hd(10) [OF q(1)]]] unfolding apart_def by linarith
  qed
  have lk: "link ?t a = free_head s p"
  proof (cases "fl p")
    case Nil
    then show ?thesis using r(3) by (auto simp: link_def free_head_def push_block_def split: if_splits)
  next
    case (Cons c cs)
    then have f: "free_head s p = Some c" and "c \<in> pblocks s p" using r(3,5) by auto
    then have "c \<noteq> 0" using block_in_page(3) [OF _ kp r(1)] by blast
    then show ?thesis using f by (auto simp: link_def free_head_def push_block_def split: if_splits)
  qed
  show h2: "heap_rep ?t ps (fl(p := a # fl p))"
  proof (rule heap_rep_step [OF h _ _ sp])
    fix q assume q: "q \<in> set ps"
    show "page_rep ?t q ((fl(p := a # fl p)) q)"
    proof (cases "q = p")
      case True
      then show ?thesis using page_rep_push [OF hd(10) [OF p] kp a, of ?t] p' lk others [OF p] by (simp add: push_block_def)
    next
      case False
      then show ?thesis using page_rep_cong [OF hd(10) [OF q], of ?t] others [OF q] by (simp add: push_block_def)
    qed
  qed (use hd(1) in simp_all)
  have "page_of s q = page_of ?t q" "class_of s q = class_of ?t q" for q using same_placeD(3,4) [OF sp] by simp_all
  note t = live_take [OF h2 p _ this]
  show lv: "live_blocks ?t ps (fl(p := a # fl p)) = live_blocks s ps fl - {(a, bsize s p)}"
    using t(1,2) [of a "fl p"] same_placeD(3) [OF sp, of p] by auto
  have key: "kmem ?t x = kmem s x"
    if b: "(b, n) \<in> live_blocks s ps fl" "(b, n) \<noteq> (a, bsize s p)" "unat b \<le> unat x" "unat x < unat b + n" for b n x
    by (rule out) (use live_apart [OF h b(1) in_live b(2)] b(3,4) in \<open>auto simp: apart_def\<close>)
  show "same_contents (live_blocks s ps fl - {(a, bsize s p)}) (kmem s) (kmem ?t)"
    unfolding same_contents_def using key by auto
qed

lemma find_only: "x \<in> set xs \<Longrightarrow> P x \<Longrightarrow> \<forall>y \<in> set xs. P y \<longrightarrow> y = x \<Longrightarrow> List.find P xs = Some x"
proof (induction xs)
  case (Cons z xs)
  show ?case
  proof (cases "P z")
    case True
    then have "z = x" using Cons.prems(3) by simp
    then show ?thesis using True by simp
  next
    case False
    then have "x \<in> set xs" using Cons.prems(1,2) by auto
    moreover have "\<forall>y \<in> set xs. P y \<longrightarrow> y = x" using Cons.prems(3) by simp
    ultimately have "List.find P xs = Some x" using Cons.IH Cons.prems(2) by blast
    then show ?thesis using False by simp
  qed
qed simp

lemma find_owner_rep:
  assumes h: "heap_rep s ps fl"
  shows "find_owner NPAGEREFS a (allbase s) s =
     Ret (List.find (\<lambda>p. unat (page_of s p) \<le> unat a \<and> unat a < unat (page_of s p) + PAGE_SIZE) ps) s"
proof -
  note hd = heap_repD [OF h]
  have c: "\<forall>p \<in> set ps. class_of s p < NSIZES" using page_repD(1) hd(10) by blast
  have w: "(page_of s p \<le> a \<and> a < page_of s p + 4096) = (unat (page_of s p) \<le> unat a \<and> unat a < unat (page_of s p) + PAGE_SIZE)"
    if p: "p \<in> set ps" for p
  proof -
    have "kpage (page_of s p)" by (rule page_rep_kpage [OF hd(1) hd(10) [OF p]])
    then have "unat (page_of s p + of_nat 4096) = unat (page_of s p) + 4096" unfolding kpage_def by (intro unat_add_nat) blast
    then show ?thesis unfolding word_le_nat_alt word_less_nat_alt by simp
  qed
  have "List.find (\<lambda>p. page_of s p \<le> a \<and> a < page_of s p + 4096) ps =
      List.find (\<lambda>p. unat (page_of s p) \<le> unat a \<and> unat a < unat (page_of s p) + PAGE_SIZE) ps"
    by (rule find_cong [OF refl], rule w)
  then show ?thesis unfolding find_owner_eq [OF hd(7) c heap_rep_length [OF h]] by (simp only:)
qed

text \<open>The page that holds an address is the only one.\<close>

lemma held_at:
  assumes ok: "vm_ok s" and g: "0 < held_pages s g" "unat g \<le> unat a" "unat a < unat g + PAGE_SIZE * held_pages s g"
    and k: "0 < held_pages s k" "unat k \<le> unat a" "unat a < unat k + PAGE_SIZE * held_pages s k"
  shows "g = k"
proof (rule ccontr)
  assume "g \<noteq> k"
  then show False using cm.held_apart [OF ok g(1) k(1)] g(2,3) k(2,3) unfolding apart_def by linarith
qed

lemma owner_of_block:
  assumes h: "heap_rep s ps fl" and p: "p \<in> set ps" and a: "a \<in> pblocks s p"
  shows "find_owner NPAGEREFS a (allbase s) s = Ret (Some p) s"
proof -
  note hd = heap_repD [OF h]
  note r = page_repD [OF hd(10) [OF p]]
  have kp: "kpage (page_of s p)" by (rule page_rep_kpage [OF hd(1) hd(10) [OF p]])
  have i: "unat (page_of s p) \<le> unat a" "unat a < unat (page_of s p) + PAGE_SIZE"
    using block_in_page(1,2) [OF a kp r(1)] sizes_facts(1) [OF r(1)] by linarith+
  have u: "q = p" if q: "q \<in> set ps" "unat (page_of s q) \<le> unat a" "unat a < unat (page_of s q) + PAGE_SIZE" for q
    using held_at [OF hd(1), of "page_of s q" a "page_of s p"] page_repD(2) [OF hd(10) [OF q(1)]] r(2) q i
      inj_onD [OF hd(9) _ q(1) p] by simp
  show ?thesis unfolding find_owner_rep [OF h] by (subst find_only [OF p]) (use i u in blast)+
qed

lemma owner_of_run:
  assumes h: "heap_rep s ps fl" and a: "0 < held_pages s a" "a \<notin> page_of s ` set ps"
  shows "find_owner NPAGEREFS a (allbase s) s = Ret None s"
proof -
  note hd = heap_repD [OF h]
  have "\<not> (unat (page_of s q) \<le> unat a \<and> unat a < unat (page_of s q) + PAGE_SIZE)" if q: "q \<in> set ps" for q
    using held_at [OF hd(1), of "page_of s q" a a] page_repD(2) [OF hd(10) [OF q]] a q by auto
  then show ?thesis unfolding find_owner_rep [OF h] by (simp add: find_None_iff)
qed

lemma subpage_kfree_eq:
  assumes h: "heap_rep (splhigh s) ps fl" and p: "p \<in> set ps" and a: "a \<in> pblocks s p" "a \<notin> set (fl p)"
  shows "subpage_kfree a s =
     andthen (if Suc (length (fl p)) = PAGE_SIZE div bsize s p
              then andthen (remove_lists p (class_of s p) (push_block a p (splhigh s)))
                    (\<lambda>_ t. andthen (free_kpages (page_of s p) t) (\<lambda>_ t. freepageref p t))
              else Ret () (push_block a p (splhigh s)))
      (\<lambda>_ t. Ret True (splx (curspl s) t))"
proof -
  let ?h = "splhigh s"
  note hd = heap_repD [OF h]
  have e: "page_of ?h q = page_of s q" "class_of ?h q = class_of s q" for q by simp_all
  note r = page_repD [OF hd(10) [OF p], unfolded e]
  have kp: "kpage (page_of s p)" using page_rep_kpage [OF hd(1) hd(10) [OF p]] by simp
  have p': "p < length (pagerefs s)" using hd(2,11) p by simp
  have f: "find_owner NPAGEREFS a (allbase ?h) ?h = Ret (Some p) ?h" by (rule owner_of_block [OF h p]) (use a in simp)
  note d = block_diff [OF a(1) kp r(1)]
  have n: "unat (nfree (pagerefs s ! p) + 1) = Suc (length (fl p))"
    using r(6) page_rep_length(2) [OF hd(10) [OF p]] by (simp add: unat_word_ariths)
  have l: "Suc (length (fl p)) \<le> PAGE_SIZE div bsize s p" using page_push_length [OF hd(10) [OF p], of a] a by simp
  show ?thesis
    unfolding subpage_kfree_def Let_def f andthen.simps option.case
    using d(1,5) n l p' by (simp add: push_block_def upd_pr_def not_le)
qed

text \<open>A page that is entirely free holds no live block.\<close>

lemma live_drop:
  assumes h: "heap_rep t (ys @ p # zs) fl" and n: "length (fl p) = PAGE_SIZE div bsize t p"
    and e: "held_pages u = (held_pages t)(page_of t p := 0)" "\<And>q. page_of u q = page_of t q" "\<And>q. class_of u q = class_of t q"
  shows "live_blocks u (ys @ zs) fl = live_blocks t (ys @ p # zs) fl"
proof -
  have r: "page_rep t p (fl p)" using heap_repD(10) [OF h] by simp
  have "card (pblocks t p) \<le> card (set (fl p))"
    using finite_block_addrs(2) n distinct_card [OF page_repD(4) [OF r]] by simp
  then have f: "set (fl p) = pblocks t p" by (intro card_seteq finite_block_addrs(1) page_repD(5) [OF r])
  have "(b, m) \<in> live_blocks u (ys @ zs) fl \<longleftrightarrow> (b, m) \<in> live_blocks t (ys @ p # zs) fl" for b m
  proof (cases "b = page_of t p")
    case True
    then show ?thesis unfolding live_iff e using f by auto
  next
    case False
    then show ?thesis unfolding live_iff e using f by auto
  qed
  then show ?thesis by (intro set_eqI) (metis surj_pair)
qed

text \<open>What freeing a block promises.\<close>

definition freed :: "u32 \<Rightarrow> nat \<Rightarrow> 'z kheap_scheme \<Rightarrow> 'z kheap_scheme \<Rightarrow> bool" where
  "freed a n s s' \<longleftrightarrow> kheap_inv s' \<and> curspl s' = curspl s \<and> kblocks s' = kblocks s - {(a, n)} \<and>
     same_contents (kblocks s') (kmem s) (kmem s')"

lemma subpage_kfree_ok:
  fixes s :: "'z kheap_scheme"
  assumes inv: "kheap_inv s" and p: "p \<in> set (heap_pages s)" and a: "a \<in> pblocks s p" "a \<notin> set (page_frees s p)"
  shows "\<exists>s'. subpage_kfree a s = Ret True s' \<and> freed a (bsize s p) s s'"
proof -
  let ?ps = "heap_pages s" and ?fl = "page_frees s" and ?h = "splhigh s"
  have h0: "heap_rep s ?ps ?fl" and n0: "no_spare s ?ps ?fl" using inv by (simp_all add: kheap_inv_def)
  have ok: "vm_ok s" and spl: "0 \<le> curspl s" using heap_repD(1) [OF h0] vm_okD(2) [of s] by (auto simp: spl_ok_def)
  have h: "heap_rep ?h ?ps ?fl" unfolding splhigh_def by (rule heap_rep_splx [OF h0]) (use vm_ok_spl(1) [OF ok] in \<open>simp add: splhigh_def\<close>)
  let ?t = "push_block a p ?h" and ?fl' = "?fl(p := a # ?fl p)" and ?n = "PAGE_SIZE div bsize s p"
  have ah: "a \<in> pblocks ?h p" using a by simp
  note t = push_block_ok [OF h p ah a(2)]
  have c: "page_of ?t q = page_of s q" "class_of ?t q = class_of s q" for q using same_placeD(3,4) [OF t(2)] by simp_all
  have lv: "live_blocks ?t ?ps ?fl' = kblocks s - {(a, bsize s p)}" using t(3) by (simp add: kblocks_def)
  have fin: "freed a (bsize s p) s (splx (curspl s) u)"
    if u: "heap_rep u ps' fl''" "no_spare u ps' fl''" "live_blocks u ps' fl'' = kblocks s - {(a, bsize s p)}" "kmem u = kmem ?t" for u :: "'z kheap_scheme" and ps' fl''
  proof -
    have "heap_rep (splx (curspl s) u) ps' fl''" by (rule heap_rep_splx [OF u(1) vm_ok_spl(2) [OF heap_repD(1) [OF u(1)] spl]])
    moreover have "no_spare (splx (curspl s) u) ps' fl''" using u(2) by (simp add: no_spare_def)
    ultimately show ?thesis using kheap_invI [of "splx (curspl s) u" ps' fl''] u(3,4) t(4) by (simp add: freed_def kblocks_def)
  qed
  note eq = subpage_kfree_eq [OF h p a]
  show ?thesis
  proof (cases "Suc (length (?fl p)) = ?n")
    case False
    then have "Suc (length (?fl p)) < ?n" using page_push_length [OF heap_repD(10) [OF h p] ah a(2)] by simp
    then have "no_spare ?t ?ps ?fl'" using n0 by (simp add: no_spare_def c)
    then show ?thesis unfolding eq using False fin [OF t(1) _ lv] by simp
  next
    case True
    obtain ys zs where ps: "?ps = ys @ p # zs" using split_list [OF p] by blast
    note t1 = t(1) [unfolded ps]
    obtain u where u: "andthen (remove_lists p (class_of s p) ?t) (\<lambda>_ t. andthen (free_kpages (page_of s p) t) (\<lambda>_ t. freepageref p t)) = Ret () u"
        "heap_rep u (ys @ zs) ?fl'" "kmem u = kmem ?t" "held_pages u = (held_pages s)(page_of s p := 0)"
        "\<And>q. page_of u q = page_of s q" "\<And>q. class_of u q = class_of s q"
      using drop_page_ok [OF t1] c by auto
    have "no_spare u (ys @ zs) ?fl'" using n0 heap_repD(5) [OF h0] unfolding no_spare_def ps u(6) by auto
    moreover have "live_blocks u (ys @ zs) ?fl' = kblocks s - {(a, bsize s p)}"
      unfolding lv [symmetric] ps by (rule live_drop [OF t1]) (use True u(4-6) c in simp_all)
    ultimately show ?thesis unfolding eq using True u(1) fin [OF u(2) _ _ u(3)] by simp
  qed
qed

lemma kfree_ok:
  fixes s :: "'z kheap_scheme"
  assumes inv: "kheap_inv s" and a: "(a, n) \<in> kblocks s"
  shows "\<exists>s'. kfree a s = Ret () s' \<and> freed a n s s'"
proof -
  let ?ps = "heap_pages s" and ?fl = "page_frees s" and ?h = "splhigh s"
  have h: "heap_rep s ?ps ?fl" and sp: "no_spare s ?ps ?fl" using inv by (simp_all add: kheap_inv_def)
  have ok: "vm_ok s" by (rule heap_repD(1) [OF h])
  have a': "(a, n) \<in> live_blocks s ?ps ?fl" using a by (simp add: kblocks_def)
  have nz: "a \<noteq> 0" by (rule live_region(2) [OF h a'])
  from a' show ?thesis unfolding live_iff
  proof (elim disjE bexE conjE)
    fix p assume "p \<in> set ?ps" "a \<in> pblocks s p" "a \<notin> set (?fl p)" "n = bsize s p"
    then show ?thesis using subpage_kfree_ok [OF inv, of p a] nz by (auto simp: kfree_def)
  next
    assume g: "0 < held_pages s a" "a \<notin> page_of s ` set ?ps" "n = PAGE_SIZE * held_pages s a"
    have hh: "heap_rep ?h ?ps ?fl" unfolding splhigh_def by (rule heap_rep_splx [OF h]) (use vm_ok_spl(1) [OF ok] in \<open>simp add: splhigh_def\<close>)
    have "find_owner NPAGEREFS a (allbase ?h) ?h = Ret None ?h" by (rule owner_of_run [OF hh]) (use g in simp_all)
    then have "subpage_kfree a s = Ret False s" using splx_back [OF vm_okD(2) [OF ok]] by (simp add: subpage_kfree_def Let_def)
    moreover obtain s' where s': "free_kpages a s = Ret () s'" "vm_ok s'" "held_pages s' = (held_pages s)(a := 0)" "vm_rest s' = vm_rest s"
      using cm.release_held [OF ok g(1)] by blast
    moreover have "unat a mod PAGE_SIZE = 0" using cm.held_page [OF ok g(1)] by simp
    ultimately have eq: "kfree a s = Ret () s'" using nz by (simp add: kfree_def)
    note v = vm_restD [OF s'(4)]
    have ne: "page_of s q \<noteq> a" "held_pages s (page_of s q) = 1" if "q \<in> set ?ps" for q
      using g(2) that page_repD(2) [OF heap_repD(10) [OF h that]] by auto
    have "heap_rep s' ?ps ?fl" "no_spare s' ?ps ?fl" using ne s'(3) sp by (auto intro: heap_rep_held [OF h s'(2,4)])
    note i = kheap_invI [OF this]
    have small: "bsize s q \<noteq> n" if "q \<in> set ?ps" for q
      by (rule sizes_cases [OF page_repD(1) [OF heap_repD(10) [OF h that]]]) (use g(1,3) in simp_all)
    have "(b, m) \<in> live_blocks s' ?ps ?fl \<longleftrightarrow> (b, m) \<in> live_blocks s ?ps ?fl - {(a, n)}" for b m
    proof (cases "b = a")
      case True
      then show ?thesis unfolding Diff_iff live_iff v(1) s'(3) using g(3) small by auto
    next
      case False
      then show ?thesis unfolding Diff_iff live_iff v(1) s'(3) by simp
    qed
    then have "live_blocks s' ?ps ?fl = kblocks s - {(a, n)}" unfolding kblocks_def by (intro set_eqI) (metis surj_pair)
    then show ?thesis using eq i v(5,6) by (simp add: freed_def)
  qed
qed

section \<open>Properties\<close>

text \<open>A sample heap after boot.\<close>

definition sample_heap :: "coremap_entry list \<Rightarrow> kheap" where
  "sample_heap es = sample_vm es
     \<lparr>kheap.pagerefs = replicate NPAGEREFS \<lparr>next_samesize = None, next_all = None, pageaddr_and_blocktype = 0, freelist_offset = 0, nfree = 0\<rparr>,
      pagerefs_inuse = replicate INUSE_WORDS 0, sizebases = replicate NSIZES None, allbase = None\<rparr>"

lemma sample_heap_inv:
  assumes es: "\<forall>e \<in> set es. e = free_entry \<or> e = free_entry\<lparr>ce_allocated := 1\<rparr>" "length es < 100"
  shows "kheap_inv (sample_heap es)" "kblocks (sample_heap es) = {}"
proof -
  let ?s = "sample_heap es"
  have f: "allbase ?s = None" "pagerefs_inuse ?s = replicate INUSE_WORDS 0" "sizebases ?s = replicate NSIZES None"
    "length (pagerefs ?s) = NPAGEREFS"
    by (simp_all add: sample_heap_def sample_vm_def sample_sys_def)
  have "\<not> inuse ?s j" for j by (simp add: inuse_def f)
  moreover have "vm_ok ?s" and z: "held_pages ?s a = 0" for a unfolding sample_heap_def by (rule sample_vm_ok [OF es])+
  ultimately have h: "heap_rep ?s [] (\<lambda>_. [])" using f by (simp add: heap_rep_def)
  then show "kheap_inv ?s" "kblocks ?s = {}" using kheap_invI [OF h] z by (simp_all add: no_spare_def live_blocks_def)
qed

lemma sample_heap_boot: "kheap_inv (sample_heap [free_entry, free_entry])" "kblocks (sample_heap [free_entry, free_entry]) = {}"
  by (rule sample_heap_inv; simp)+

lemma same_contentsD:
  "same_contents B m m' \<Longrightarrow> (q, n) \<in> B \<Longrightarrow> unat q \<le> unat x \<Longrightarrow> unat x < unat q + n \<Longrightarrow> m' x = m x"
  unfolding same_contents_def by blast

text \<open>
  C13. Memory that \<^verbatim>\<open>kmalloc\<close> hands out is new.  In a consistent heap a request of up to 4 GB less a page returns.
  The result is \<^verbatim>\<open>NULL\<close> only if, for a block of less than half a page, no page is free or all page references are
  in use, or, for whole pages, the first run of free pages is too short (later runs are not considered); then nothing
  has changed.  Otherwise it is a block of at least the requested size that has no byte in common with any block
  allocated before, those keep their contents, and the heap is consistent again.
\<close>

theorem kmalloc_fresh_block:
  fixes s :: "'z kheap_scheme"
  assumes "kheap_inv s" "unat sz \<le> 2 ^ 32 - 4096"
  shows "\<exists>p s'. kmalloc sz s = Ret p s' \<and> kheap_inv s' \<and> curspl s' = curspl s \<and>
     (if p = 0 then starved sz s \<and> kblocks s' = kblocks s \<and> kmem s' = kmem s
      else (\<exists>n \<ge> unat sz. kblocks s' = insert (p, n) (kblocks s) \<and>
         (\<forall>q m. (q, m) \<in> kblocks s \<longrightarrow> apart p n q m \<and> (\<forall>x. unat q \<le> unat x \<and> unat x < unat q + m \<longrightarrow> kmem s' x = kmem s x))))"
proof -
  obtain p s' where k: "kmalloc sz s = Ret p s'" "kheap_inv s'" "curspl s' = curspl s"
      "allocated (unat sz) p (kblocks s) (kblocks s') (kmem s) (kmem s')" "p = 0 \<longrightarrow> starved sz s"
    using kmalloc_ok [OF assms] by blast
  show ?thesis
  proof (cases "p = 0")
    case False
    then obtain n where n: "unat sz \<le> n" "(p, n) \<notin> kblocks s" "kblocks s' = insert (p, n) (kblocks s)"
        "same_contents (kblocks s) (kmem s) (kmem s')" using k(4) by (auto simp: allocated_def)
    have "apart p n q m" if "(q, m) \<in> kblocks s" for q m
      using live_apart [of s' "heap_pages s'" "page_frees s'" p n q m] k(2) n(2,3) that
      by (auto simp: kheap_inv_def kblocks_def)
    moreover note same_contentsD [OF n(4)]
    ultimately show ?thesis using k(1-3) False n(1,3) by (intro exI [of _ p] exI [of _ s']) auto
  qed (use k in \<open>auto simp: allocated_def\<close>)
qed

lemma sample_heap_room: "\<not> starved 100 (sample_heap [free_entry, free_entry])" "first_run_fits 1 (sample_heap [free_entry, free_entry])"
proof -
  have p: "page_free (sample_heap [free_entry, free_entry]) 0"
    by (simp add: sample_heap_def sample_vm_def sample_sys_def page_free_def free_entry_def)
  then show "first_run_fits 1 (sample_heap [free_entry, free_entry])" unfolding first_run_fits_1 by blast
  have "heap_pages (sample_heap [free_entry, free_entry]) = []"
    by (simp add: heap_pages_def sample_heap_def sample_vm_def sample_sys_def chain_of_eq)
  then show "\<not> starved 100 (sample_heap [free_entry, free_entry])" using p by (auto simp: starved_def)
qed

theorem kmalloc_fresh_block_witness:
  "\<exists>p s'. kmalloc 100 (sample_heap [free_entry, free_entry]) = Ret p s' \<and> p \<noteq> 0 \<and> (\<exists>n \<ge> 100. kblocks s' = {(p, n)})"
proof -
  have "unat (100 :: u32) \<le> 2 ^ 32 - 4096" by simp
  from kmalloc_fresh_block [OF sample_heap_boot(1) this] show ?thesis
    using sample_heap_room(1) unfolding sample_heap_boot(2) by (auto split: if_splits)
qed

text \<open>
  C14. \<^verbatim>\<open>kfree\<close> of an allocated block takes exactly this block out of the heap: no other block is freed or
  changes its contents, and the heap is consistent again.
\<close>

theorem kfree_releases_block:
  fixes s :: "'z kheap_scheme"
  assumes "kheap_inv s" "(p, n) \<in> kblocks s"
  shows "\<exists>s'. kfree p s = Ret () s' \<and> kheap_inv s' \<and> curspl s' = curspl s \<and> kblocks s' = kblocks s - {(p, n)} \<and>
     (\<forall>q m x. (q, m) \<in> kblocks s' \<longrightarrow> unat q \<le> unat x \<and> unat x < unat q + m \<longrightarrow> kmem s' x = kmem s x)"
proof -
  obtain s' where s': "kfree p s = Ret () s'" "freed p n s s'" using kfree_ok [OF assms] by blast
  then show ?thesis using same_contentsD [of "kblocks s'"] unfolding freed_def by metis
qed

lemma sample_kmalloc: "\<exists>p s' n. kmalloc 100 (sample_heap [free_entry, free_entry]) = Ret p s' \<and> kheap_inv s' \<and> kblocks s' = {(p, n)}"
proof -
  have "unat (100 :: u32) \<le> 2 ^ 32 - 4096" by simp
  from kmalloc_ok [OF sample_heap_boot(1) this] show ?thesis
    using sample_heap_room(1) by (auto simp: allocated_def sample_heap_boot(2) split: if_splits)
qed

theorem kfree_releases_block_witness:
  "\<exists>p s' s''. kmalloc 100 (sample_heap [free_entry, free_entry]) = Ret p s' \<and> kblocks s' \<noteq> {} \<and> kfree p s' = Ret () s'' \<and> kblocks s'' = {}"
proof -
  obtain p s' n where k: "kmalloc 100 (sample_heap [free_entry, free_entry]) = Ret p s'" "kheap_inv s'" "kblocks s' = {(p, n)}"
    using sample_kmalloc by blast
  then show ?thesis using kfree_releases_block [OF k(2), of p n] by auto
qed

text \<open>A request of more than 4 GB less a page is taken for zero pages and changes nothing.\<close>

lemma kmalloc_huge:
  fixes s :: "'z kheap_scheme"
  assumes "kheap_inv s" "2 ^ 32 - 4096 < unat sz"
  defines "i \<equiv> skip_allocated (cm_entries s)"
  shows "kmalloc sz s = Ret (if page_free s i then page_addr s i else 0) s"
proof -
  have h: "heap_rep s (heap_pages s) (page_frees s)" using assms(1) by (simp add: kheap_inv_def)
  have c: "coremap_inv s" "spl_ok s" using vm_okD heap_repD(1) [OF h] by blast+
  have "unat sz < 2 ^ 32" using unsigned_less [of sz] by simp
  then have "(unat sz + 4095) mod 2 ^ 32 = unat sz + 4095 - 2 ^ 32" using assms(2) by (simp add: mod_if)
  then have "unat (sz + 4095) < 4096" using assms(2) \<open>unat sz < 2 ^ 32\<close> by (simp add: unat_word_ariths)
  then have "unat ((sz + 4095) div 4096) = 0" by (simp add: unat_div)
  then have "(sz + 4096 - 1) div 4096 = 0" by (simp add: unat_eq_0 add.commute)
  then have k: "kmalloc sz s = alloc_kpages 0 s" using assms(2) by (simp add: kmalloc_def word_le_nat_alt)
  have nz: "free_pages_str s + of_nat i * 4096 \<noteq> 0" unfolding i_def by (rule paddr_nonzero [OF c(1) skip_allocated_le])
  show ?thesis
  proof (cases "i < length (cm_entries s)")
    case True
    have d: "drop i (cm_entries s) = cm_entries s ! i # drop (Suc i) (cm_entries s)" using True by (rule Cons_nth_drop_Suc [symmetric])
    have f: "page_free s i" "ce_allocated (cm_entries s ! i) = 0"
      using skip_allocated_stop [of "cm_entries s"] coremap_invD(6) [OF c(1) True] True
      unfolding i_def [symmetric] by (auto simp: entry_ok_def page_free_def)
    then have z: "ce_continuous (cm_entries s ! i) = 0" using entry_okD(3) [OF coremap_invD(6) [OF c(1) True]] by simp
    have e: "(cm_entries s ! i)\<lparr>ce_continuous := 0\<rparr> = cm_entries s ! i" using z by (cases "cm_entries s ! i") simp
    show ?thesis unfolding k using nz c(2) coremap_invD(1,2) [OF c(1)] f
      by (simp add: alloc_kpages_def getppages_def Let_def d e page_addr_def flip: i_def)
  next
    case False
    then show ?thesis unfolding k using nz c(2) coremap_invD(1,2) [OF c(1)]
      by (simp add: alloc_kpages_def getppages_def Let_def page_free_def flip: i_def)
  qed
qed

text \<open>
  C35. The rounding of \<^verbatim>\<open>kmalloc\<close> wraps around: a request of more than 4 GB less a page is taken for zero pages.  Instead of
  failing it returns the address of the first free page, which stays free, so a later request gets the same memory.
\<close>

theorem kmalloc_huge_wraps:
  fixes s :: "'z kheap_scheme"
  assumes "kheap_inv s" "2 ^ 32 - 4096 < unat sz" "first_run_fits 1 s"
  shows "\<exists>p s'. kmalloc sz s = Ret p s' \<and> p \<noteq> 0 \<and> kblocks s' = kblocks s \<and>
     page_free s' (skip_allocated (cm_entries s')) \<and> p = page_addr s' (skip_allocated (cm_entries s'))"
proof -
  have h: "heap_rep s (heap_pages s) (page_frees s)" using assms(1) by (simp add: kheap_inv_def)
  have c: "coremap_inv s" using vm_okD heap_repD(1) [OF h] by blast
  have "page_free s (skip_allocated (cm_entries s))" using assms(3) first_run_fits_skip [OF c, of 1] by simp
  then show ?thesis using kmalloc_huge [OF assms(1,2)] page_addr_nonzero [OF c] by simp
qed

theorem kmalloc_huge_wraps_witness:
  "\<exists>p s'. kmalloc 0xffffffff (sample_heap [free_entry, free_entry]) = Ret p s' \<and> p \<noteq> 0 \<and> kblocks s' = {}"
proof -
  have "2 ^ 32 - 4096 < unat (0xffffffff :: u32)" by simp
  from kmalloc_huge_wraps [OF sample_heap_boot(1) this sample_heap_room(2)] show ?thesis unfolding sample_heap_boot(2) by auto
qed

text \<open>
  The uses of the heap: requests of any size, and freeing blocks that are allocated.  What a request whose size wraps
  around is given is no block, so that it is not freed.
\<close>

inductive heap_step :: "'z kheap_scheme \<Rightarrow> 'z kheap_scheme \<Rightarrow> bool" where
  malloc: "kmalloc sz s = Ret p s' \<Longrightarrow> heap_step s s'"
| free: "(p, n) \<in> kblocks s \<Longrightarrow> kfree p s = Ret () s' \<Longrightarrow> heap_step s s'"

lemma kmalloc_returns:
  fixes s :: "'z kheap_scheme"
  assumes "kheap_inv s"
  shows "\<exists>p s'. kmalloc sz s = Ret p s' \<and> kheap_inv s'"
  using kmalloc_ok [OF assms, of sz] kmalloc_huge [OF assms, of sz] assms by (cases "unat sz \<le> 2 ^ 32 - 4096") auto

lemma heap_step_inv: "heap_step s s' \<Longrightarrow> kheap_inv s \<Longrightarrow> kheap_inv s'"
proof (induction rule: heap_step.induct)
  case (malloc sz s p s')
  then show ?case using kmalloc_returns [of s sz] by auto
next
  case (free p n s s')
  then show ?case using kfree_ok [of s p n] by (auto simp: freed_def)
qed

text \<open>
  C15. The heap never panics and its blocks stay apart: after any sequence of requests, of any size, and frees of allocated
  blocks, no two allocated blocks have a byte in common, and every further request and every free of an allocated block
  returns.  (What a request of more than 4 GB less a page is given is not counted as a block; see \<open>kmalloc_huge\<close>.)
\<close>

theorem heap_stays_consistent:
  assumes "kheap_inv s" "heap_step\<^sup>*\<^sup>* s s'"
  shows "kheap_inv s' \<and> (\<forall>a m b n. (a, m) \<in> kblocks s' \<and> (b, n) \<in> kblocks s' \<and> (a, m) \<noteq> (b, n) \<longrightarrow> apart a m b n) \<and>
     (\<forall>sz. \<exists>p t. kmalloc sz s' = Ret p t \<and> heap_step s' t) \<and>
     (\<forall>p n. (p, n) \<in> kblocks s' \<longrightarrow> (\<exists>t. kfree p s' = Ret () t \<and> heap_step s' t))"
proof -
  have inv: "kheap_inv s'" using assms(2,1) by (induction rule: rtranclp_induct) (auto intro: heap_step_inv)
  then have "heap_rep s' (heap_pages s') (page_frees s')" by (simp add: kheap_inv_def)
  note apart = live_apart [OF this, folded kblocks_def]
  show ?thesis
  proof (intro conjI allI impI)
    show "kheap_inv s'" by (rule inv)
    show "apart a m b n" if "(a, m) \<in> kblocks s' \<and> (b, n) \<in> kblocks s' \<and> (a, m) \<noteq> (b, n)" for a m b n
      using apart that by blast
    show "\<exists>p t. kmalloc sz s' = Ret p t \<and> heap_step s' t" for sz
      using kmalloc_returns [OF inv, of sz] heap_step.malloc by blast
    show "\<exists>t. kfree p s' = Ret () t \<and> heap_step s' t" if "(p, n) \<in> kblocks s'" for p n
      using kfree_ok [OF inv that] heap_step.free [OF that] by blast
  qed
qed

theorem heap_stays_consistent_witness:
  "\<exists>p s'. kmalloc 100 (sample_heap [free_entry, free_entry]) = Ret p s' \<and> (\<exists>n t. (p, n) \<in> kblocks s' \<and> kfree p s' = Ret () t)"
proof -
  obtain p s' n where k: "kmalloc 100 (sample_heap [free_entry, free_entry]) = Ret p s'" "kblocks s' = {(p, n)}"
    using sample_kmalloc by blast
  have "heap_step\<^sup>*\<^sup>* (sample_heap [free_entry, free_entry]) s'" using heap_step.malloc k(1) by blast
  from heap_stays_consistent [OF sample_heap_boot(1) this] show ?thesis using k by auto
qed

end
