(* ===== verification/Uio.thy ===== *)
theory Uio
  imports OS161_Prelude
begin

text \<open>
  Copying between the kernel and user memory (\<^verbatim>\<open>kern/lib/copyinout.c\<close>) and the \<^verbatim>\<open>uio\<close>
  abstraction on top of it (\<^verbatim>\<open>kern/userprog/uio.c\<close>), with 32-bit addresses.
\<close>

section \<open>Memory\<close>

text \<open>
  The memory a copy touches: its bytes, the user addresses at which an access faults fatally
  (the recovery through \<^verbatim>\<open>pcb_badfaultfunc\<close> and \<^verbatim>\<open>longjmp\<close> is then taken), and the current
  address space.
\<close>

record vmem =
  vm_byte :: "u32 \<Rightarrow> u8"
  vm_fault :: "u32 \<Rightarrow> bool"
  vm_space :: "nat option"

abbreviation USERTOP :: u32 where "USERTOP \<equiv> 0x80000000"

definition addrs :: "u32 \<Rightarrow> nat \<Rightarrow> u32 list" where
  "addrs a n = map (\<lambda>i. a + of_nat i) [0..<n]"

definition load :: "vmem \<Rightarrow> u32 \<Rightarrow> nat \<Rightarrow> u8 list" where
  "load m a n = map (vm_byte m) (addrs a n)"

text \<open>Storing bytes in ascending order.\<close>

fun store :: "vmem \<Rightarrow> u32 \<Rightarrow> u8 list \<Rightarrow> vmem" where
  "store m a [] = m"
| "store m a (b # bs) = store (m\<lparr>vm_byte := (vm_byte m)(a := b)\<rparr>) (a + 1) bs"

section \<open>Copying in and out\<close>

definition copycheck :: "u32 \<Rightarrow> u32 \<Rightarrow> u32 option" where
  "copycheck userptr len =
     (let bot = userptr; top = bot + len - 1 in
      if top < bot then None
      else if bot \<ge> USERTOP then None
      else if top \<ge> USERTOP then Some (USERTOP - bot)
      else Some len)"

definition copyin :: "u32 \<Rightarrow> u32 \<Rightarrow> vmem \<Rightarrow> (vmem, u8 list) outcome" where
  "copyin usersrc len m =
     (case copycheck usersrc len of None \<Rightarrow> Err EFAULT m
      | Some stoplen \<Rightarrow>
          if stoplen \<noteq> len then Err EFAULT m
          else if list_ex (vm_fault m) (addrs usersrc (unat len)) then Err EFAULT m
          else Ret (load m usersrc (unat len)) m)"

text \<open>
  \<^verbatim>\<open>copyout\<close>: the bytes before the first faulting address have been written when the copy is
  abandoned.
\<close>

definition copyout :: "u8 list \<Rightarrow> u32 \<Rightarrow> vmem \<Rightarrow> (vmem, unit) outcome" where
  "copyout src userdest m =
     (case copycheck userdest (of_nat (length src)) of None \<Rightarrow> Err EFAULT m
      | Some stoplen \<Rightarrow>
          if stoplen \<noteq> of_nat (length src) then Err EFAULT m
          else
            (let ok = takeWhile (\<lambda>a. \<not> vm_fault m a) (addrs userdest (length src)) in
             if length ok < length src then Err EFAULT (store m userdest (take (length ok) src))
             else Ret () (store m userdest src)))"

text \<open>
  The loop of \<^verbatim>\<open>copystr\<close>: \<open>src i\<close> is byte \<open>i\<close> of the source or \<open>None\<close> if reading or storing it
  faults; the result is the bytes copied so far and how the loop ended.
\<close>

datatype strend = Terminated | Limit | Faulted

function copystr_loop :: "(nat \<Rightarrow> u8 option) \<Rightarrow> nat \<Rightarrow> nat \<Rightarrow> nat \<Rightarrow> u8 list \<times> strend" where
  "copystr_loop src maxlen stoplen i =
     (if i < maxlen \<and> i < stoplen then
        (case src i of None \<Rightarrow> ([], Faulted)
         | Some b \<Rightarrow> if b = 0 then ([b], Terminated)
                     else (let (bs, e) = copystr_loop src maxlen stoplen (i + 1) in (b # bs, e)))
      else ([], Limit))"
  by pat_completeness auto
termination
  by (relation "measure (\<lambda>(src, maxlen, stoplen, i). maxlen - i)") auto

declare copystr_loop.simps [simp del]

text \<open>\<^verbatim>\<open>copystr\<close>: the bytes stored in the destination, and the error if there is one.\<close>

definition copystr :: "(nat \<Rightarrow> u8 option) \<Rightarrow> nat \<Rightarrow> nat \<Rightarrow> u8 list \<times> errno option" where
  "copystr src maxlen stoplen =
     (case copystr_loop src maxlen stoplen 0 of
        (bs, Terminated) \<Rightarrow> (bs, None)
      | (bs, Faulted) \<Rightarrow> (bs, Some EFAULT)
      | (bs, Limit) \<Rightarrow> (bs, Some (if stoplen < maxlen then EFAULT else ENAMETOOLONG)))"

text \<open>The result of \<^verbatim>\<open>copyinstr\<close> is the string with its terminator; its length is \<^verbatim>\<open>*actual\<close>.\<close>

definition copyinstr :: "u32 \<Rightarrow> u32 \<Rightarrow> vmem \<Rightarrow> (vmem, u8 list) outcome" where
  "copyinstr usersrc len m =
     (case copycheck usersrc len of None \<Rightarrow> Err EFAULT m
      | Some stoplen \<Rightarrow>
          (case copystr (\<lambda>i. let a = usersrc + of_nat i in if vm_fault m a then None else Some (vm_byte m a))
                  (unat len) (unat stoplen) of
             (bs, None) \<Rightarrow> Ret bs m
           | (bs, Some e) \<Rightarrow> Err e m))"

text \<open>The source of \<^verbatim>\<open>copyoutstr\<close> is a kernel string of at least \<^verbatim>\<open>len\<close> bytes or a terminator.\<close>

definition copyoutstr :: "(nat \<Rightarrow> u8) \<Rightarrow> u32 \<Rightarrow> u32 \<Rightarrow> vmem \<Rightarrow> (vmem, nat) outcome" where
  "copyoutstr src userdest len m =
     (case copycheck userdest len of None \<Rightarrow> Err EFAULT m
      | Some stoplen \<Rightarrow>
          (case copystr (\<lambda>i. if vm_fault m (userdest + of_nat i) then None else Some (src i))
                  (unat len) (unat stoplen) of
             (bs, None) \<Rightarrow> Ret (length bs) (store m userdest bs)
           | (bs, Some e) \<Rightarrow> Err e (store m userdest bs)))"

section \<open>The uio structure\<close>

datatype uio_rw = UIO_READ | UIO_WRITE

datatype uio_seg = UIO_USERSPACE | UIO_SYSSPACE | UIO_USERISPACE

record uio =
  iov_base :: u32
  iov_len :: nat
  uio_offset :: int
  uio_resid :: nat
  uio_segflg :: uio_seg
  uio_rw :: uio_rw
  uio_space :: "nat option"

text \<open>An I/O in progress: the \<^verbatim>\<open>uio\<close> and the memory it points into.\<close>

record io_state =
  io_uio :: uio
  io_mem :: vmem

definition mk_kuio :: "u32 \<Rightarrow> nat \<Rightarrow> int \<Rightarrow> uio_rw \<Rightarrow> uio" where
  "mk_kuio kbuf len pos rw =
     \<lparr>iov_base = kbuf, iov_len = len, uio_offset = pos, uio_resid = len,
      uio_segflg = UIO_SYSSPACE, uio_rw = rw, uio_space = None\<rparr>"

text \<open>
  One transfer of \<open>size\<close> bytes between the kernel buffer and the iovec.  The result is the
  kernel buffer's bytes: those given when reading (the data goes out to the iovec), those
  fetched when writing.
\<close>

definition iov_transfer :: "u8 list \<Rightarrow> nat \<Rightarrow> io_state \<Rightarrow> (io_state, u8 list) outcome" where
  "iov_transfer chunk sz s =
     (let u = io_uio s; m = io_mem s in
      if uio_segflg u = UIO_SYSSPACE then
        (if uio_rw u = UIO_READ then Ret chunk (s\<lparr>io_mem := store m (iov_base u) chunk\<rparr>)
         else Ret (load m (iov_base u) sz) s)
      else
        (if uio_rw u = UIO_READ
         then andthen (within (\<lambda>m. s\<lparr>io_mem := m\<rparr>) (copyout chunk (iov_base u) m)) (\<lambda>_ s. Ret chunk s)
         else within (\<lambda>m. s\<lparr>io_mem := m\<rparr>) (copyin (iov_base u) (of_nat sz) m)))"

text \<open>The bookkeeping after a transfer; \<^verbatim>\<open>uio_resid\<close> is an unsigned 32-bit number and wraps.\<close>

definition uio_advance :: "nat \<Rightarrow> uio \<Rightarrow> uio" where
  "uio_advance sz u = u\<lparr>iov_base := iov_base u + of_nat sz, iov_len := iov_len u - sz,
     uio_resid := nat ((int (uio_resid u) - int sz) mod 2 ^ 32),
     uio_offset := uio_offset u + int sz\<rparr>"

text \<open>
  The loop of \<^verbatim>\<open>uiomove\<close>: \<open>buf\<close> is what is left of the kernel buffer, \<open>n\<close> the number of
  bytes still asked for.  The result is the new contents of that part of the buffer.
\<close>

function uiomove_loop :: "u8 list \<Rightarrow> nat \<Rightarrow> io_state \<Rightarrow> (io_state, u8 list) outcome" where
  "uiomove_loop buf n s =
     (if n > 0 \<and> uio_resid (io_uio s) > 0 then
        (let sz = min (iov_len (io_uio s)) n in
         if sz = 0 then Panic
         else defined_if (sz \<le> length buf \<and> uio_offset (io_uio s) + int sz \<le> INT_MAX)
           (andthen (iov_transfer (take sz buf) sz s)
             (\<lambda>chunk s. andthen
                (uiomove_loop (drop sz buf) (n - sz) (s\<lparr>io_uio := uio_advance sz (io_uio s)\<rparr>))
                (\<lambda>rest s. Ret (chunk @ rest) s))))
      else Ret buf s)"
  by pat_completeness auto
termination
  by (relation "measure (\<lambda>(buf, n, s). n)") (auto simp: min_def split: if_splits)

declare uiomove_loop.simps [simp del]

definition uiomove :: "u8 list \<Rightarrow> nat \<Rightarrow> io_state \<Rightarrow> (io_state, u8 list) outcome" where
  "uiomove buf n s =
     kassert (if uio_segflg (io_uio s) = UIO_SYSSPACE then uio_space (io_uio s) = None
              else uio_space (io_uio s) = vm_space (io_mem s))
      (uiomove_loop buf n s)"

function uiomovezeros_loop :: "nat \<Rightarrow> io_state \<Rightarrow> (io_state, unit) outcome" where
  "uiomovezeros_loop n s =
     (if n > 0 then
        (let amt = min 16 n in
         andthen (uiomove (replicate 16 0) amt s) (\<lambda>_ s. uiomovezeros_loop (n - amt) s))
      else Ret () s)"
  by pat_completeness auto
termination
  by (relation "measure (\<lambda>(n, s). n)") auto

declare uiomovezeros_loop.simps [simp del]

definition uiomovezeros :: "nat \<Rightarrow> io_state \<Rightarrow> (io_state, unit) outcome" where
  "uiomovezeros n s = kassert (uio_rw (io_uio s) = UIO_READ) (uiomovezeros_loop n s)"

section \<open>Memory facts\<close>

lemma length_addrs [simp]: "length (addrs a n) = n"
  by (simp add: addrs_def)

lemma length_load [simp]: "length (load m a n) = n"
  by (simp add: load_def)

lemma store_append: "store m a (xs @ ys) = store (store m a xs) (a + of_nat (length xs)) ys"
  by (induction xs arbitrary: m a) (simp_all add: algebra_simps)

lemma store_fields [simp]: "vm_fault (store m a bs) = vm_fault m" "vm_space (store m a bs) = vm_space m"
  by (induction bs arbitrary: m a) simp_all

lemma store_byte:
  assumes "length bs \<le> 2 ^ 32"
  shows "vm_byte (store m a bs) x = (if unat (x - a) < length bs then bs ! unat (x - a) else vm_byte m x)"
  using assms
proof (induction bs arbitrary: m a)
  case (Cons b bs)
  show ?case
  proof (cases "x = a")
    case True
    have "unat (x - (a + 1)) = 2 ^ 32 - 1" using True by (simp add: unsigned_minus_1_eq_mask mask_eq_exp_minus_1)
    then have "\<not> unat (x - (a + 1)) < length bs" using Cons.prems by simp
    then show ?thesis using True Cons by simp
  next
    case False
    then have "x - a \<noteq> 0" by simp
    then have "unat (x - a - 1) = unat (x - a) - 1" "0 < unat (x - a)"
      by (simp_all add: unat_minus_one unat_gt_0)
    then have "unat (x - a) = Suc (unat (x - (a + 1)))" by (simp add: diff_diff_eq)
    then show ?thesis using False Cons by simp
  qed
qed simp

lemma load_store_same:
  assumes "length bs \<le> 2 ^ 32"
  shows "load (store m a bs) a (length bs) = bs"
proof (rule nth_equalityI)
  fix i assume i: "i < length (load (store m a bs) a (length bs))"
  then have "unat (of_nat i :: u32) = i" using assms by (simp add: unat_of_nat)
  then show "load (store m a bs) a (length bs) ! i = bs ! i"
    using i assms by (simp add: load_def addrs_def store_byte)
qed simp

section \<open>Region checks\<close>

lemma unat_u32_less: "unat (p :: u32) < 2 ^ 32"
  using unsigned_less [of p] by simp

lemma unat_top:
  fixes p len :: u32
  assumes "0 < unat len"
  shows "unat (p + len - 1) = (unat p + unat len - 1) mod 2 ^ 32"
proof -
  have "unat (len - 1) = unat len - 1" using assms by (simp add: unat_minus_one unat_gt_0)
  moreover have "unat (p + (len - 1)) = (unat p + unat (len - 1)) mod 2 ^ 32"
    by (simp add: unat_word_ariths)
  ultimately show ?thesis using assms by (simp add: add_diff_eq)
qed

lemma copycheck_nat:
  "copycheck p len =
     (if unat len = 0 then (if p = 0 then Some USERTOP else None)
      else if 2 ^ 32 \<le> unat p + unat len - 1 then None
      else if 2 ^ 31 \<le> unat p then None
      else if 2 ^ 31 < unat p + unat len then Some (USERTOP - p) else Some len)"
proof (cases "unat len = 0")
  case True
  then have "len = 0" by (simp add: unat_eq_zero)
  moreover have "p - 1 < p" if "p \<noteq> 0" using that by (simp add: word_less_nat_alt unat_minus_one unat_gt_0)
  ultimately show ?thesis by (auto simp: copycheck_def Let_def)
next
  case False
  then have top: "unat (p + len - 1) = (unat p + unat len - 1) mod 2 ^ 32" by (intro unat_top) simp
  have bnd: "unat p < 2 ^ 32" "unat len < 2 ^ 32" by (rule unat_u32_less)+
  have bot: "p \<ge> USERTOP \<longleftrightarrow> 2 ^ 31 \<le> unat p" by (simp add: word_le_nat_alt)
  show ?thesis
  proof (cases "2 ^ 32 \<le> unat p + unat len - 1")
    case True
    have "(unat p + unat len - 1) mod 2 ^ 32 = unat p + unat len - 1 - 2 ^ 32"
      using True bnd by (subst le_mod_geq) auto
    then have "p + len - 1 < p" using top bnd True unfolding word_less_nat_alt by linarith
    then show ?thesis using True False by (simp add: copycheck_def Let_def)
  next
    case f: False
    then have t: "unat (p + len - 1) = unat p + unat len - 1" using top by simp
    then have "\<not> p + len - 1 < p" using False unfolding word_less_nat_alt by linarith
    moreover have "p + len - 1 \<ge> USERTOP \<longleftrightarrow> 2 ^ 31 < unat p + unat len"
      using t False by (simp add: word_le_nat_alt) linarith
    ultimately show ?thesis using False f bot by (simp add: copycheck_def Let_def)
  qed
qed

lemma copycheck_full:
  "copycheck p len = Some len \<longleftrightarrow> 0 < unat len \<and> unat p + unat len \<le> 2 ^ 31"
proof -
  have "unat (USERTOP - p) = 2 ^ 31 - unat p" if "unat p < 2 ^ 31"
    using that by (simp add: unat_sub word_le_nat_alt)
  then have "USERTOP - p \<noteq> len" if "unat p < 2 ^ 31" "2 ^ 31 < unat p + unat len"
    using that by auto
  moreover have "USERTOP \<noteq> len" if "unat len = 0" using that by auto
  ultimately show ?thesis by (auto simp: copycheck_nat)
qed

section \<open>Moving data\<close>

lemma uiomove_loop_0 [simp]: "uiomove_loop buf 0 s = Ret buf s"
  by (simp add: uiomove_loop.simps)

lemma uio_advance_0 [simp]: "uio_resid u < 2 ^ 32 \<Longrightarrow> uio_advance 0 u = u"
  by (simp add: uio_advance_def)

lemma uio_advance_add:
  "a + b \<le> uio_resid u \<Longrightarrow> uio_resid u < 2 ^ 32 \<Longrightarrow>
   uio_advance b (uio_advance a u) = uio_advance (a + b) u"
  by (simp add: uio_advance_def add.assoc)

lemma uio_advance_simps [simp]:
  "uio_segflg (uio_advance n u) = uio_segflg u" "uio_rw (uio_advance n u) = uio_rw u"
  "uio_space (uio_advance n u) = uio_space u" "iov_len (uio_advance n u) = iov_len u - n"
  "uio_offset (uio_advance n u) = uio_offset u + int n"
  "iov_base (uio_advance n u) = iov_base u + of_nat n"
  by (simp_all add: uio_advance_def)

lemma uio_advance_resid:
  "n \<le> uio_resid u \<Longrightarrow> uio_resid u < 2 ^ 32 \<Longrightarrow> uio_resid (uio_advance n u) = uio_resid u - n"
  by (simp add: uio_advance_def)

text \<open>A request that fits the iovec is served by one transfer.\<close>

lemma uiomove_loop_once:
  assumes "0 < n" "n \<le> iov_len (io_uio s)" "0 < uio_resid (io_uio s)" "n \<le> length buf"
    and "uio_offset (io_uio s) + int n \<le> INT_MAX"
  shows "uiomove_loop buf n s = andthen (iov_transfer (take n buf) n s)
           (\<lambda>chunk s. Ret (chunk @ drop n buf) (s\<lparr>io_uio := uio_advance n (io_uio s)\<rparr>))"
  using assms by (subst uiomove_loop.simps) (simp add: Let_def min_def)

text \<open>The user region of a transfer: it lies below \<^verbatim>\<open>USERTOP\<close> and no address in it faults.\<close>

definition user_region :: "vmem \<Rightarrow> u32 \<Rightarrow> nat \<Rightarrow> bool" where
  "user_region m p n \<longleftrightarrow> unat p + n \<le> 2 ^ 31 \<and> (\<forall>k<n. \<not> vm_fault m (p + of_nat k))"

lemma faults_in_addrs: "list_ex (vm_fault m) (addrs p n) \<longleftrightarrow> \<not> (\<forall>k<n. \<not> vm_fault m (p + of_nat k))"
  by (auto simp: list_ex_iff addrs_def)

lemma copyin_region:
  assumes "0 < n" "n < 2 ^ 32"
  shows "copyin p (of_nat n) m = (if user_region m p n then Ret (load m p n) m else Err EFAULT m)"
proof -
  have n: "unat (of_nat n :: u32) = n" using assms by (simp add: unat_of_nat)
  show ?thesis
  proof (cases "copycheck p (of_nat n) = Some (of_nat n)")
    case True
    then have "unat p + n \<le> 2 ^ 31" using n by (simp add: copycheck_full)
    then show ?thesis using n True by (simp add: copyin_def user_region_def faults_in_addrs)
  next
    case False
    then have "\<not> unat p + n \<le> 2 ^ 31" using n assms(1) by (simp add: copycheck_full)
    then show ?thesis using False by (auto simp: copyin_def user_region_def split: option.split)
  qed
qed

lemma copyout_region:
  assumes "0 < length src" "length src < 2 ^ 32"
  shows "if user_region m p (length src) then copyout src p m = Ret () (store m p src)
         else \<exists>k<length src. copyout src p m = Err EFAULT (store m p (take k src))"
proof -
  have n: "unat (of_nat (length src) :: u32) = length src" using assms by (simp add: unat_of_nat)
  show ?thesis
  proof (cases "copycheck p (of_nat (length src)) = Some (of_nat (length src))")
    case True
    let ?ok = "takeWhile (\<lambda>a. \<not> vm_fault m a) (addrs p (length src))"
    have "\<not> length ?ok < length src \<longleftrightarrow> ?ok = addrs p (length src)"
      by (metis length_addrs length_takeWhile_le linorder_neqE_nat not_le takeWhile_eq_take take_all_iff)
    also have "\<dots> \<longleftrightarrow> (\<forall>k<length src. \<not> vm_fault m (p + of_nat k))"
      by (auto simp: takeWhile_eq_all_conv addrs_def)
    finally have "\<not> length ?ok < length src \<longleftrightarrow> user_region m p (length src)"
      using True n assms(1) by (simp add: user_region_def copycheck_full)
    then show ?thesis using True by (auto simp: copyout_def Let_def)
  next
    case False
    then have "\<not> unat p + length src \<le> 2 ^ 31" using n assms(1) by (simp add: copycheck_full)
    then have "\<not> user_region m p (length src)" by (simp add: user_region_def)
    moreover have "copyout src p m = Err EFAULT (store m p (take 0 src))"
      using False by (auto simp: copyout_def split: option.split)
    ultimately show ?thesis using assms(1) by auto
  qed
qed

lemma uiomove_user:
  assumes "uio_segflg (io_uio s) \<noteq> UIO_SYSSPACE" "uio_space (io_uio s) = vm_space (io_mem s)"
    and "0 < n" "n \<le> iov_len (io_uio s)" "n \<le> uio_resid (io_uio s)" "n \<le> length buf"
    and "uio_offset (io_uio s) + int n \<le> INT_MAX"
  shows "uiomove buf n s = andthen (iov_transfer (take n buf) n s)
           (\<lambda>chunk s. Ret (chunk @ drop n buf) (s\<lparr>io_uio := uio_advance n (io_uio s)\<rparr>))"
  using assms uiomove_loop_once [of n s buf] by (simp add: uiomove_def)

lemma uiomove_user_write:
  assumes "uio_segflg (io_uio s) \<noteq> UIO_SYSSPACE" "uio_space (io_uio s) = vm_space (io_mem s)"
    and "0 < n" "n \<le> iov_len (io_uio s)" "n \<le> uio_resid (io_uio s)" "n \<le> length buf"
    and "uio_offset (io_uio s) + int n \<le> INT_MAX" "uio_resid (io_uio s) < 2 ^ 32" "uio_rw (io_uio s) = UIO_WRITE"
  shows "uiomove buf n s =
    (if user_region (io_mem s) (iov_base (io_uio s)) n
     then Ret (load (io_mem s) (iov_base (io_uio s)) n @ drop n buf) (s\<lparr>io_uio := uio_advance n (io_uio s)\<rparr>)
     else Err EFAULT s)"
  using uiomove_user [OF assms(1-7)] copyin_region [of n "iov_base (io_uio s)" "io_mem s"] assms
  by (simp add: iov_transfer_def Let_def)

lemma uiomove_user_read:
  assumes "uio_segflg (io_uio s) \<noteq> UIO_SYSSPACE" "uio_space (io_uio s) = vm_space (io_mem s)"
    and "0 < n" "n \<le> iov_len (io_uio s)" "n \<le> uio_resid (io_uio s)" "n \<le> length buf"
    and "uio_offset (io_uio s) + int n \<le> INT_MAX" "uio_resid (io_uio s) < 2 ^ 32" "uio_rw (io_uio s) = UIO_READ"
  shows "if user_region (io_mem s) (iov_base (io_uio s)) n
     then uiomove buf n s = Ret buf (s\<lparr>io_mem := store (io_mem s) (iov_base (io_uio s)) (take n buf),
            io_uio := uio_advance n (io_uio s)\<rparr>)
     else \<exists>k<n. uiomove buf n s = Err EFAULT (s\<lparr>io_mem := store (io_mem s) (iov_base (io_uio s)) (take k buf)\<rparr>)"
proof -
  let ?p = "iov_base (io_uio s)"
  have l: "length (take n buf) = n" using assms(6) by simp
  note u = uiomove_user [OF assms(1-7)] and c = copyout_region [of "take n buf" "io_mem s" ?p, unfolded l]
  show ?thesis
  proof (cases "user_region (io_mem s) ?p n")
    case True
    then have "copyout (take n buf) ?p (io_mem s) = Ret () (store (io_mem s) ?p (take n buf))" using c assms by simp
    then show ?thesis using True u assms(1,9) by (simp add: iov_transfer_def Let_def)
  next
    case False
    then obtain k where k: "k < n" "copyout (take n buf) ?p (io_mem s) = Err EFAULT (store (io_mem s) ?p (take k (take n buf)))"
      using c assms by auto
    then have "uiomove buf n s = Err EFAULT (s\<lparr>io_mem := store (io_mem s) ?p (take k buf)\<rparr>)"
      using u assms(1,9) by (simp add: iov_transfer_def Let_def min_def)
    then show ?thesis using False k(1) by auto
  qed
qed

section \<open>Requests that cannot fault\<close>

text \<open>
  A request whose residue is covered by its iovec, and whose iovec is kernel memory or lies in
  the user part of the current address space without a faulting address.
\<close>

definition user_ok :: "io_state \<Rightarrow> bool" where
  "user_ok i \<longleftrightarrow> uio_segflg (io_uio i) \<noteq> UIO_SYSSPACE \<and> uio_space (io_uio i) = vm_space (io_mem i) \<and>
     unat (iov_base (io_uio i)) + uio_resid (io_uio i) \<le> 2 ^ 31 \<and>
     (\<forall>k < uio_resid (io_uio i). \<not> vm_fault (io_mem i) (iov_base (io_uio i) + of_nat k))"

definition io_ok :: "io_state \<Rightarrow> bool" where
  "io_ok i \<longleftrightarrow> uio_resid (io_uio i) \<le> iov_len (io_uio i) \<and> uio_resid (io_uio i) < 2 ^ 31 \<and>
     0 \<le> uio_offset (io_uio i) \<and> uio_offset (io_uio i) + int (uio_resid (io_uio i)) \<le> INT_MAX \<and>
     (uio_segflg (io_uio i) = UIO_SYSSPACE \<and> uio_space (io_uio i) = None \<or> user_ok i)"

lemma user_copy:
  assumes u: "user_ok i" and n: "0 < n" "n \<le> uio_resid (io_uio i)"
  shows "copycheck (iov_base (io_uio i)) (of_nat n) = Some (of_nat n)" "unat (of_nat n :: u32) = n"
    "\<not> list_ex (vm_fault (io_mem i)) (addrs (iov_base (io_uio i)) n)"
    "length (takeWhile (\<lambda>a. \<not> vm_fault (io_mem i) a) (addrs (iov_base (io_uio i)) n)) = n"
proof -
  have "n \<le> 2 ^ 31" using u n unfolding user_ok_def by linarith
  then show un: "unat (of_nat n :: u32) = n" by (simp add: unat_of_nat)
  show "copycheck (iov_base (io_uio i)) (of_nat n) = Some (of_nat n)"
    using u n un unfolding copycheck_full user_ok_def by linarith
  have nf: "\<forall>a\<in>set (addrs (iov_base (io_uio i)) n). \<not> vm_fault (io_mem i) a"
    using u n by (auto simp: addrs_def user_ok_def)
  then show "\<not> list_ex (vm_fault (io_mem i)) (addrs (iov_base (io_uio i)) n)" by (auto simp: list_ex_iff)
  have "takeWhile (\<lambda>a. \<not> vm_fault (io_mem i) a) (addrs (iov_base (io_uio i)) n) = addrs (iov_base (io_uio i)) n"
    using nf by (subst takeWhile_eq_all_conv)
  then show "length (takeWhile (\<lambda>a. \<not> vm_fault (io_mem i) a) (addrs (iov_base (io_uio i)) n)) = n"
    by (simp only: length_addrs)
qed

lemma iov_transfer_ok:
  assumes ok: "io_ok i" and n: "0 < n" "n \<le> uio_resid (io_uio i)" and len: "length chunk = n"
  shows "iov_transfer chunk n i =
    (if uio_rw (io_uio i) = UIO_READ then Ret chunk (i\<lparr>io_mem := store (io_mem i) (iov_base (io_uio i)) chunk\<rparr>)
     else Ret (load (io_mem i) (iov_base (io_uio i)) n) i)"
proof (cases "uio_segflg (io_uio i) = UIO_SYSSPACE")
  case True
  then show ?thesis by (simp add: iov_transfer_def Let_def)
next
  case False
  then have u: "user_ok i" using ok by (simp add: io_ok_def)
  show ?thesis
    using False user_copy [OF u n] len by (simp add: iov_transfer_def Let_def copyin_def copyout_def)
qed

lemma io_ok_space:
  "io_ok i \<Longrightarrow> (if uio_segflg (io_uio i) = UIO_SYSSPACE then uio_space (io_uio i) = None
     else uio_space (io_uio i) = vm_space (io_mem i))"
  by (auto simp: io_ok_def user_ok_def)

lemma uiomove_read_ok:
  assumes ok: "io_ok i" and rw: "uio_rw (io_uio i) = UIO_READ" and n: "n \<le> uio_resid (io_uio i)" "n \<le> length buf"
  shows "uiomove buf n i = Ret buf (i\<lparr>io_mem := store (io_mem i) (iov_base (io_uio i)) (take n buf),
           io_uio := uio_advance n (io_uio i)\<rparr>)"
proof (cases "n = 0")
  case True
  then show ?thesis using ok io_ok_space [OF ok] by (simp add: uiomove_def io_ok_def)
next
  case False
  have "uiomove_loop buf n i = andthen (iov_transfer (take n buf) n i)
           (\<lambda>chunk s. Ret (chunk @ drop n buf) (s\<lparr>io_uio := uio_advance n (io_uio s)\<rparr>))"
    using ok False n by (intro uiomove_loop_once) (auto simp: io_ok_def)
  then show ?thesis
    using iov_transfer_ok [OF ok _ n(1), of "take n buf"] False n rw io_ok_space [OF ok]
    by (simp add: uiomove_def)
qed

lemma uiomove_write_ok:
  assumes ok: "io_ok i" and rw: "uio_rw (io_uio i) = UIO_WRITE" and n: "n \<le> uio_resid (io_uio i)" "n \<le> length buf"
  shows "uiomove buf n i = Ret (load (io_mem i) (iov_base (io_uio i)) n @ drop n buf)
           (i\<lparr>io_uio := uio_advance n (io_uio i)\<rparr>)"
proof (cases "n = 0")
  case True
  then show ?thesis using ok io_ok_space [OF ok] by (simp add: uiomove_def io_ok_def load_def addrs_def)
next
  case False
  have "uiomove_loop buf n i = andthen (iov_transfer (take n buf) n i)
           (\<lambda>chunk s. Ret (chunk @ drop n buf) (s\<lparr>io_uio := uio_advance n (io_uio s)\<rparr>))"
    using ok False n by (intro uiomove_loop_once) (auto simp: io_ok_def)
  then show ?thesis
    using iov_transfer_ok [OF ok _ n(1), of "take n buf"] False n rw io_ok_space [OF ok]
    by (simp add: uiomove_def)
qed

text \<open>The request after \<open>n\<close> bytes have been moved is again one that cannot fault.\<close>

lemma io_ok_advance:
  assumes ok: "io_ok i" and n: "n \<le> uio_resid (io_uio i)" and m: "vm_fault m = vm_fault (io_mem i)"
    "vm_space m = vm_space (io_mem i)"
  shows "io_ok (i\<lparr>io_mem := m, io_uio := uio_advance n (io_uio i)\<rparr>)"
proof -
  have r: "uio_resid (uio_advance n (io_uio i)) = uio_resid (io_uio i) - n"
    using ok n by (intro uio_advance_resid) (auto simp: io_ok_def)
  show ?thesis
  proof (cases "uio_segflg (io_uio i) = UIO_SYSSPACE")
    case True
    then show ?thesis using ok n r by (auto simp: io_ok_def user_ok_def)
  next
    case False
    then have u: "user_ok i" using ok by (simp add: io_ok_def)
    have nb: "n < 2 ^ 32" using ok n by (simp add: io_ok_def)
    have "unat (iov_base (io_uio i) + of_nat n) \<le> unat (iov_base (io_uio i)) + n"
      using nb by (simp add: unat_word_ariths unat_of_nat)
    moreover have "\<not> vm_fault (io_mem i) (iov_base (io_uio i) + of_nat n + of_nat k)"
      if "k < uio_resid (io_uio i) - n" for k
      using u that by (auto simp: user_ok_def add.assoc simp flip: of_nat_add)
    ultimately have "user_ok (i\<lparr>io_mem := m, io_uio := uio_advance n (io_uio i)\<rparr>)"
      using u n r m unfolding user_ok_def by auto
    with ok n r False show ?thesis by (auto simp: io_ok_def)
  qed
qed

lemma uiomovezeros_ok:
  assumes ok: "io_ok i" and rw: "uio_rw (io_uio i) = UIO_READ" and n: "n \<le> uio_resid (io_uio i)"
  shows "uiomovezeros n i = Ret () (i\<lparr>io_mem := store (io_mem i) (iov_base (io_uio i)) (replicate n 0),
           io_uio := uio_advance n (io_uio i)\<rparr>)"
proof -
  have "uiomovezeros_loop n i = Ret () (i\<lparr>io_mem := store (io_mem i) (iov_base (io_uio i)) (replicate n 0),
           io_uio := uio_advance n (io_uio i)\<rparr>)"
    using assms
  proof (induction n i rule: uiomovezeros_loop.induct)
    case (1 n i)
    have lt: "uio_resid (io_uio i) < 2 ^ 32" using 1 by (simp add: io_ok_def)
    show ?case
    proof (cases "n = 0")
      case True
      with lt show ?thesis by (subst uiomovezeros_loop.simps) simp
    next
      case False
      let ?a = "min 16 n"
      let ?i = "i\<lparr>io_mem := store (io_mem i) (iov_base (io_uio i)) (replicate ?a 0),
                 io_uio := uio_advance ?a (io_uio i)\<rparr>"
      have mv: "uiomove (replicate 16 0) ?a i = Ret (replicate 16 0) ?i"
        using 1 by (subst uiomove_read_ok) (simp_all add: min_def)
      have "uiomovezeros_loop (n - ?a) ?i = Ret ()
          (?i\<lparr>io_mem := store (io_mem ?i) (iov_base (io_uio ?i)) (replicate (n - ?a) 0),
             io_uio := uio_advance (n - ?a) (io_uio ?i)\<rparr>)"
      proof (rule "1.IH" [OF _ refl])
        show "io_ok ?i" using io_ok_advance [of i ?a] 1(2,4) by simp
        show "n - ?a \<le> uio_resid (io_uio ?i)" using 1(4) lt by (simp add: uio_advance_resid min_def)
      qed (use False mv 1(3) in simp_all)
      moreover have "replicate n (0::u8) = replicate ?a 0 @ replicate (n - ?a) 0"
        by (simp add: replicate_add [symmetric])
      moreover have "uio_advance (n - ?a) (uio_advance ?a (io_uio i)) = uio_advance n (io_uio i)"
        using 1 lt by (subst uio_advance_add) auto
      ultimately show ?thesis
        using False mv by (subst uiomovezeros_loop.simps) (simp add: Let_def store_append)
    qed
  qed
  with assms show ?thesis by (simp add: uiomovezeros_def)
qed

section \<open>Properties\<close>

text \<open>
  C36. What the region check answers, for every address and length.  A region that is not empty is accepted in
  full if it lies below \<^verbatim>\<open>USERTOP\<close>, cut off at \<^verbatim>\<open>USERTOP\<close> if it starts below and ends above it, and
  refused if it starts above or wraps around the address space.  An empty region, which lies in no forbidden
  place, is refused nevertheless, and the one at address 0 is given \<^verbatim>\<open>USERTOP\<close> bytes.
\<close>

theorem copycheck_accepts_user_regions:
  "copycheck p len =
     (if unat len = 0 then (if p = 0 then Some USERTOP else None)
      else if unat p + unat len \<le> 2 ^ 31 then Some len
      else if unat p < 2 ^ 31 \<and> unat p + unat len \<le> 2 ^ 32 then Some (USERTOP - p)
      else None)"
  unfolding copycheck_nat by auto

text \<open>
  C37. A transfer of \<open>n\<close> bytes to or from user memory, where the \<^verbatim>\<open>iovec\<close> and the residue cover \<open>n\<close> bytes.
  If the region lies below \<^verbatim>\<open>USERTOP\<close> and no address of it faults, all bytes are moved: a read
  leaves the buffer in user memory and changes nothing beside it, a write fetches exactly the bytes of the region into the
  buffer; the request is advanced by \<open>n\<close>.  Otherwise the call fails with \<^verbatim>\<open>EFAULT\<close>, the
  request is as it was, and no byte outside the region has changed.
\<close>

theorem uiomove_all_or_fault:
  assumes "uio_segflg (io_uio s) \<noteq> UIO_SYSSPACE" "uio_space (io_uio s) = vm_space (io_mem s)"
    and "0 < n" "n \<le> iov_len (io_uio s)" "n \<le> uio_resid (io_uio s)" "n \<le> length buf"
    and "uio_offset (io_uio s) + int n \<le> INT_MAX" "uio_resid (io_uio s) < 2 ^ 32" and p: "p = iov_base (io_uio s)"
  shows "case uiomove buf n s of
           Ret buf' s' \<Rightarrow> user_region (io_mem s) p n \<and> io_uio s' = uio_advance n (io_uio s) \<and>
             (if uio_rw (io_uio s) = UIO_READ
              then buf' = buf \<and> (\<forall>x. vm_byte (io_mem s') x = (if unat (x - p) < n then buf ! unat (x - p) else vm_byte (io_mem s) x))
              else io_mem s' = io_mem s \<and> buf' = map (\<lambda>k. vm_byte (io_mem s) (p + of_nat k)) [0..<n] @ drop n buf)
         | Err e s' \<Rightarrow> \<not> user_region (io_mem s) p n \<and> e = EFAULT \<and> io_uio s' = io_uio s \<and>
             (\<forall>x. n \<le> unat (x - p) \<longrightarrow> vm_byte (io_mem s') x = vm_byte (io_mem s) x)
         | _ \<Rightarrow> False"
proof (cases "uio_rw (io_uio s)")
  case UIO_WRITE
  then show ?thesis
    using uiomove_user_write [OF assms(1-8)] by (simp add: p load_def addrs_def comp_def)
next
  case UIO_READ
  note r = uiomove_user_read [OF assms(1-8) this, folded p]
  have b: "vm_byte (store (io_mem s) p (take k buf)) x = (if unat (x - p) < k then buf ! unat (x - p) else vm_byte (io_mem s) x)"
    if "k \<le> n" for k x using that assms(5,6,8) by (subst store_byte) (simp_all add: min_def)
  show ?thesis
  proof (cases "user_region (io_mem s) p n")
    case True
    then show ?thesis using r b [of n] UIO_READ by simp
  next
    case False
    then obtain k where k: "k < n" "uiomove buf n s = Err EFAULT (s\<lparr>io_mem := store (io_mem s) p (take k buf)\<rparr>)"
      using r by auto
    then show ?thesis using False b [of k] by simp
  qed
qed

definition sample_mem :: vmem where
  "sample_mem = \<lparr>vm_byte = (\<lambda>_. 0), vm_fault = (\<lambda>a. a < 0x1000), vm_space = Some 3\<rparr>"

definition sample_uio :: "u32 \<Rightarrow> uio_seg \<Rightarrow> nat option \<Rightarrow> int \<Rightarrow> nat \<Rightarrow> uio_rw \<Rightarrow> uio" where
  "sample_uio base seg sp off n rw = \<lparr>iov_base = base, iov_len = n, uio_offset = off, uio_resid = n,
     uio_segflg = seg, uio_rw = rw, uio_space = sp\<rparr>"

theorem uiomove_all_or_fault_witness:
  "\<exists>s. uiomove [1, 2] 2 \<lparr>io_uio = sample_uio 0x400000 UIO_USERSPACE (Some 3) 0 2 UIO_READ, io_mem = sample_mem\<rparr> = Ret [1, 2] s \<and>
     uio_resid (io_uio s) = 0 \<and> vm_byte (io_mem s) 0x400001 = 2"
proof -
  let ?s = "\<lparr>io_uio = sample_uio 0x400000 UIO_USERSPACE (Some 3) 0 2 UIO_READ, io_mem = sample_mem\<rparr>"
  have "user_region (io_mem ?s) 0x400000 2" by (auto simp: user_region_def sample_mem_def dest!: less_2_cases)
  then show ?thesis
    using uiomove_all_or_fault [of ?s 2 "[1, 2]" "0x400000"]
    by (auto simp: sample_uio_def sample_mem_def uio_advance_def split: outcome.splits)
qed

text \<open>
  C38. What \<^verbatim>\<open>uiomove\<close> writes to the memory of a request that cannot fault is what a later \<^verbatim>\<open>uiomove\<close> in
  the other direction fetches from there.
\<close>

theorem uiomove_round_trip:
  assumes "io_ok i" "uio_rw (io_uio i) = UIO_READ" "uio_resid (io_uio i) = length buf" "length buf' = length buf"
  shows "\<exists>i'. uiomove buf (length buf) i = Ret buf i' \<and>
           (\<exists>i''. uiomove buf' (length buf) (i'\<lparr>io_uio := (io_uio i)\<lparr>uio_rw := UIO_WRITE\<rparr>\<rparr>) = Ret buf i'')"
proof -
  let ?i = "i\<lparr>io_mem := store (io_mem i) (iov_base (io_uio i)) buf, io_uio := uio_advance (length buf) (io_uio i)\<rparr>"
  let ?w = "?i\<lparr>io_uio := (io_uio i)\<lparr>uio_rw := UIO_WRITE\<rparr>\<rparr>"
  have "uiomove buf (length buf) i = Ret buf ?i"
    using uiomove_read_ok [OF assms(1,2), of "length buf" buf] assms(3) by simp
  moreover have "io_ok ?w" using assms(1) by (auto simp: io_ok_def user_ok_def)
  then have "uiomove buf' (length buf) ?w = Ret (load (io_mem ?w) (iov_base (io_uio ?w)) (length buf) @ drop (length buf) buf')
      (?w\<lparr>io_uio := uio_advance (length buf) (io_uio ?w)\<rparr>)"
    using assms(3,4) by (intro uiomove_write_ok) simp_all
  moreover have "load (io_mem ?w) (iov_base (io_uio ?w)) (length buf) = buf"
    using load_store_same [of buf] assms(1,3) by (simp add: io_ok_def)
  ultimately show ?thesis using assms(4) by simp
qed

theorem uiomove_round_trip_witness:
  "\<exists>i'. uiomove [1, 2] 2 \<lparr>io_uio = sample_uio 0x400000 UIO_USERSPACE (Some 3) 0 2 UIO_READ, io_mem = sample_mem\<rparr> = Ret [1, 2] i'"
proof -
  let ?i = "\<lparr>io_uio = sample_uio 0x400000 UIO_USERSPACE (Some 3) 0 2 UIO_READ, io_mem = sample_mem\<rparr>"
  have "io_ok ?i" by (auto simp: io_ok_def user_ok_def sample_uio_def sample_mem_def dest!: less_2_cases)
  from uiomove_round_trip [OF this, of "[1, 2]" "[0, 0]"] show ?thesis by (auto simp: sample_uio_def numeral_2_eq_2)
qed

end
