(* ===== verification/Disk.thy ===== *)
theory Disk
  imports Uio
begin

text \<open>
  The disk driver \<^verbatim>\<open>kern/dev/lamebus/lhd.c\<close> and the block I/O of the file system on top of it,
  \<^verbatim>\<open>kern/fs/sfs/sfs_io.c\<close>, with its retries.  The card itself is a parameter: whether it reports a media error for successive operations is the stream \<open>lh_fail\<close>.
\<close>

unbundle bit_operations_syntax

section \<open>The driver\<close>

abbreviation LHD_SECTSIZE :: nat where "LHD_SECTSIZE \<equiv> 512"

abbreviation LHD_OK :: nat where "LHD_OK \<equiv> 4"
abbreviation LHD_INVSECT :: nat where "LHD_INVSECT \<equiv> 12"
abbreviation LHD_MEDIA :: nat where "LHD_MEDIA \<equiv> 20"
abbreviation LHD_ISWRITE :: nat where "LHD_ISWRITE \<equiv> 2"
abbreviation LHD_STATEMASK :: nat where "LHD_STATEMASK \<equiv> 0x1d"

record lhd =
  lh_blocks :: nat
  lh_sect :: "nat \<Rightarrow> u8 list"
  lh_buf :: "u8 list"
  lh_fail :: "nat \<Rightarrow> bool"

text \<open>A request in progress: the disk and the \<^verbatim>\<open>uio\<close>.\<close>

record disk_io =
  dk :: lhd
  dio :: io_state

definition lhd_code_to_errno :: "nat \<Rightarrow> errno option" where
  "lhd_code_to_errno code =
     (let c = code AND LHD_STATEMASK in
      if c = LHD_OK then None
      else if c = LHD_INVSECT then Some EINVAL
      else if c = LHD_MEDIA then Some EIO
      else Some EAGAIN)"

text \<open>
  The interrupt handler: what it stores in \<^verbatim>\<open>lh_result\<close> before it signals \<^verbatim>\<open>lh_done\<close>; \<open>None\<close>
  when the operation has not finished and nothing is signalled.
\<close>

definition lhd_irq :: "nat \<Rightarrow> errno option option" where
  "lhd_irq val =
     (let c = val AND LHD_STATEMASK in
      if c = LHD_OK \<or> c = LHD_INVSECT \<or> c = LHD_MEDIA then Some (lhd_code_to_errno val) else None)"

text \<open>
  One operation of the card, from the write to the status register to the completion
  interrupt: a sector that does not exist is reported as such, otherwise the operation
  succeeds or there is a media error; the sector is transferred exactly when it succeeds.
\<close>

definition card_op :: "bool \<Rightarrow> nat \<Rightarrow> lhd \<Rightarrow> nat \<times> lhd" where
  "card_op iswrite sector d =
     (let w = (if iswrite then LHD_ISWRITE else 0) in
      if lh_blocks d \<le> sector then (LHD_INVSECT OR w, d)
      else
        (let d' = d\<lparr>lh_fail := (\<lambda>n. lh_fail d (Suc n))\<rparr> in
         if lh_fail d 0 then (LHD_MEDIA OR w, d')
         else if iswrite then (LHD_OK OR w, d'\<lparr>lh_sect := (lh_sect d)(sector := lh_buf d)\<rparr>)
         else (LHD_OK OR w, d'\<lparr>lh_buf := lh_sect d sector\<rparr>)))"

text \<open>
  The loop of \<^verbatim>\<open>lhd_io\<close> over the remaining \<open>k\<close> sectors.  The semaphores \<^verbatim>\<open>lh_clear\<close> and
  \<^verbatim>\<open>lh_done\<close> serialise the users of the card and wait for the interrupt; the model follows one
  request.
\<close>

primrec lhd_sectors :: "nat \<Rightarrow> u32 \<Rightarrow> disk_io \<Rightarrow> (disk_io, unit) outcome" where
  "lhd_sectors 0 sector s = Ret () s"
| "lhd_sectors (Suc k) sector s =
     (let iswrite = (uio_rw (io_uio (dio s)) = UIO_WRITE) in
      andthen
       (if iswrite then
          andthen (within (\<lambda>i. s\<lparr>dio := i\<rparr>) (uiomove (lh_buf (dk s)) LHD_SECTSIZE (dio s)))
            (\<lambda>buf s. Ret () (s\<lparr>dk := (dk s)\<lparr>lh_buf := buf\<rparr>\<rparr>))
        else Ret () s)
       (\<lambda>_ s.
          (case card_op iswrite (unat sector) (dk s) of
             (code, d) \<Rightarrow>
               (let s = s\<lparr>dk := d\<rparr> in
                case lhd_irq code of
                  None \<Rightarrow> Undef
                | Some (Some e) \<Rightarrow> Err e s
                | Some None \<Rightarrow>
                    andthen
                     (if \<not> iswrite then
                        andthen (within (\<lambda>i. s\<lparr>dio := i\<rparr>) (uiomove (lh_buf d) LHD_SECTSIZE (dio s)))
                          (\<lambda>_ s. Ret () s)
                      else Ret () s)
                     (\<lambda>_ s. lhd_sectors k (sector + 1) s)))))"

definition lhd_io :: "disk_io \<Rightarrow> (disk_io, unit) outcome" where
  "lhd_io s =
     (let off = uio_offset (io_uio (dio s)); res = uio_resid (io_uio (dio s));
          sector = word_of_int (off div 512) :: u32; len = res div 512
      in if off mod 512 \<noteq> 0 \<or> res mod 512 \<noteq> 0 then Err EINVAL s
         else if unat (sector + of_nat len) > lh_blocks (dk s) then Err EINVAL s
         else lhd_sectors len sector s)"

definition lhd_open :: "lhd \<Rightarrow> (lhd, unit) outcome" where "lhd_open d = Ret () d"

definition lhd_close :: "lhd \<Rightarrow> (lhd, unit) outcome" where "lhd_close d = Ret () d"

definition lhd_ioctl :: "lhd \<Rightarrow> (lhd, unit) outcome" where "lhd_ioctl d = Err EIOCTL d"

section \<open>Block I/O with retries\<close>

function sfs_rwblock_try :: "nat \<Rightarrow> disk_io \<Rightarrow> (disk_io, unit) outcome" where
  "sfs_rwblock_try tries s =
     (case lhd_io s of
        Err EINVAL s' \<Rightarrow> Panic
      | Err EIO s' \<Rightarrow> if tries < 10 then sfs_rwblock_try (tries + 1) s' else Err EIO s'
      | r \<Rightarrow> r)"
  by pat_completeness auto
termination
  by (relation "measure (\<lambda>(tries, s). 10 - tries)") auto

declare sfs_rwblock_try.simps [simp del]

definition sfs_rwblock :: "disk_io \<Rightarrow> (disk_io, unit) outcome" where
  "sfs_rwblock s = sfs_rwblock_try 0 s"

text \<open>
  A kernel buffer of one block is a memory that holds the buffer from address 0 on; the
  offset of a block is a 32-bit \<^verbatim>\<open>off_t\<close>.
\<close>

abbreviation SFS_BLOCKSIZE :: nat where "SFS_BLOCKSIZE \<equiv> 512"

definition off_wrap :: "int \<Rightarrow> int" where
  "off_wrap i = (i + 2 ^ 31) mod 2 ^ 32 - 2 ^ 31"

definition kbuf_mem :: "u8 list \<Rightarrow> vmem" where
  "kbuf_mem data = \<lparr>vm_byte = (\<lambda>a. if unat a < length data then data ! unat a else 0),
     vm_fault = (\<lambda>_. False), vm_space = None\<rparr>"

definition SFSUIO :: "u8 list \<Rightarrow> nat \<Rightarrow> uio_rw \<Rightarrow> io_state" where
  "SFSUIO data block rw =
     \<lparr>io_uio = mk_kuio 0 SFS_BLOCKSIZE (off_wrap (int block * 512)) rw, io_mem = kbuf_mem data\<rparr>"

definition sfs_rblock :: "nat \<Rightarrow> lhd \<Rightarrow> (lhd, u8 list) outcome" where
  "sfs_rblock block d =
     (case sfs_rwblock \<lparr>dk = d, dio = SFSUIO (replicate SFS_BLOCKSIZE 0) block UIO_READ\<rparr> of
        Ret _ s \<Rightarrow> Ret (load (io_mem (dio s)) 0 SFS_BLOCKSIZE) (dk s)
      | Err e s \<Rightarrow> Err e (dk s) | Panic \<Rightarrow> Panic | Undef \<Rightarrow> Undef | Sleeps \<Rightarrow> Sleeps)"

definition sfs_wblock :: "u8 list \<Rightarrow> nat \<Rightarrow> lhd \<Rightarrow> (lhd, unit) outcome" where
  "sfs_wblock data block d =
     within dk (sfs_rwblock \<lparr>dk = d, dio = SFSUIO data block UIO_WRITE\<rparr>)"

section \<open>The driver on one block\<close>

lemma lhd_irq_codes [simp]:
  "lhd_irq LHD_OK = Some None" "lhd_irq 6 = Some None"
  "lhd_irq LHD_MEDIA = Some (Some EIO)" "lhd_irq 22 = Some (Some EIO)"
  "lhd_irq LHD_INVSECT = Some (Some EINVAL)" "lhd_irq 14 = Some (Some EINVAL)"
  by code_simp+

text \<open>A block that exists and whose byte offset fits an \<^verbatim>\<open>off_t\<close>.\<close>

definition valid_block :: "lhd \<Rightarrow> nat \<Rightarrow> bool" where
  "valid_block d b \<longleftrightarrow> b < lh_blocks d \<and> (b + 1) * 512 < 2 ^ 31 \<and> length (lh_buf d) = 512 \<and>
     (\<forall>i. length (lh_sect d i) = 512)"

lemma off_wrap_small: "0 \<le> i \<Longrightarrow> i < 2 ^ 31 \<Longrightarrow> off_wrap i = i"
  by (simp add: off_wrap_def)

lemma SFSUIO_ok: "(b + 1) * 512 < 2 ^ 31 \<Longrightarrow> io_ok (SFSUIO data b rw)"
  by (simp add: SFSUIO_def mk_kuio_def io_ok_def off_wrap_small)

lemma SFSUIO_fields [simp]:
  "uio_rw (io_uio (SFSUIO data b rw)) = rw" "uio_resid (io_uio (SFSUIO data b rw)) = 512"
  "iov_base (io_uio (SFSUIO data b rw)) = 0" "io_mem (SFSUIO data b rw) = kbuf_mem data"
  by (simp_all add: SFSUIO_def mk_kuio_def)

lemma SFSUIO_offset:
  "(b + 1) * 512 < 2 ^ 31 \<Longrightarrow> uio_offset (io_uio (SFSUIO data b rw)) = int b * 512"
  by (simp add: SFSUIO_def mk_kuio_def off_wrap_small)

lemma load_kbuf: "length data = 512 \<Longrightarrow> load (kbuf_mem data) 0 512 = data"
  by (rule nth_equalityI) (simp_all add: load_def addrs_def kbuf_mem_def unat_of_nat)

lemma sector_word:
  "(b + 1) * 512 < (2::nat) ^ 31 \<Longrightarrow> unat (word_of_int (int b) + 1 :: u32) = b + 1"
  "(b + 1) * 512 < (2::nat) ^ 31 \<Longrightarrow> unat (word_of_int (int b) :: u32) = b"
proof -
  assume "(b + 1) * 512 < (2::nat) ^ 31"
  then have b: "b + 1 < 2 ^ 32" by simp
  have "(word_of_int (int b) + 1 :: u32) = of_nat (b + 1)" by simp
  with b show "unat (word_of_int (int b) + 1 :: u32) = b + 1" by (simp add: unat_of_nat del: of_nat_Suc)
  show "unat (word_of_int (int b) :: u32) = b" using b by (simp add: unat_of_nat)
qed

definition later :: "nat \<Rightarrow> lhd \<Rightarrow> lhd" where
  "later k d = d\<lparr>lh_fail := (\<lambda>n. lh_fail d (n + k))\<rparr>"

lemma later_simps [simp]:
  "lh_blocks (later k d) = lh_blocks d" "lh_sect (later k d) = lh_sect d" "lh_buf (later k d) = lh_buf d"
  "lh_fail (later k d) n = lh_fail d (n + k)"
  by (simp_all add: later_def)

lemma later_later [simp]: "later j (later k d) = later (k + j) d"
  by (simp add: later_def add.assoc add.commute add.left_commute)

lemma later_1: "d\<lparr>lh_fail := (\<lambda>n. lh_fail d (Suc n))\<rparr> = later 1 d"
  by (simp add: later_def)

lemma valid_block_later [simp]: "valid_block (later k d) b = valid_block d b"
  by (simp add: valid_block_def)

text \<open>A request for exactly one block.\<close>

definition block_req :: "nat \<Rightarrow> io_state \<Rightarrow> bool" where
  "block_req b i \<longleftrightarrow> io_ok i \<and> uio_resid (io_uio i) = 512 \<and> uio_offset (io_uio i) = int b * 512"

lemma SFSUIO_block_req: "(b + 1) * 512 < 2 ^ 31 \<Longrightarrow> block_req b (SFSUIO data b rw)"
  by (simp add: block_req_def SFSUIO_ok SFSUIO_offset)

lemma lhd_io_block:
  assumes v: "valid_block d b" and r: "block_req b i"
  shows "lhd_io \<lparr>dk = d, dio = i\<rparr> = lhd_sectors 1 (word_of_int (int b)) \<lparr>dk = d, dio = i\<rparr>"
  using assms sector_word [of b]
  by (simp add: lhd_io_def Let_def block_req_def valid_block_def)

lemma lhd_io_read:
  assumes v: "valid_block d b" and r: "block_req b i" and rw: "uio_rw (io_uio i) = UIO_READ"
  shows "lhd_io \<lparr>dk = d, dio = i\<rparr> =
    (if lh_fail d 0 then Err EIO \<lparr>dk = later 1 d, dio = i\<rparr>
     else Ret () \<lparr>dk = (later 1 d)\<lparr>lh_buf := lh_sect d b\<rparr>,
            dio = i\<lparr>io_mem := store (io_mem i) (iov_base (io_uio i)) (lh_sect d b),
                    io_uio := uio_advance 512 (io_uio i)\<rparr>\<rparr>)"
proof -
  have b: "(b + 1) * 512 < 2 ^ 31" "b < lh_blocks d" and len: "length (lh_sect d b) = 512"
    using v by (auto simp: valid_block_def)
  have mv: "uiomove (lh_sect d b) 512 i = Ret (lh_sect d b)
      (i\<lparr>io_mem := store (io_mem i) (iov_base (io_uio i)) (lh_sect d b), io_uio := uio_advance 512 (io_uio i)\<rparr>)"
    using uiomove_read_ok [of i 512 "lh_sect d b"] r rw len by (simp add: block_req_def)
  show ?thesis
    using b mv rw sector_word [OF b(1)]
    by (simp add: lhd_io_block [OF v r] Let_def card_op_def later_1)
qed

lemma lhd_io_write:
  assumes v: "valid_block d b" and r: "block_req b i" and rw: "uio_rw (io_uio i) = UIO_WRITE"
    and data: "data = load (io_mem i) (iov_base (io_uio i)) 512"
  shows "lhd_io \<lparr>dk = d, dio = i\<rparr> =
    (let i' = i\<lparr>io_uio := uio_advance 512 (io_uio i)\<rparr> in
     if lh_fail d 0 then Err EIO \<lparr>dk = (later 1 d)\<lparr>lh_buf := data\<rparr>, dio = i'\<rparr>
     else Ret () \<lparr>dk = (later 1 d)\<lparr>lh_buf := data, lh_sect := (lh_sect d)(b := data)\<rparr>, dio = i'\<rparr>)"
proof -
  have b: "(b + 1) * 512 < 2 ^ 31" "b < lh_blocks d" and len: "length (lh_buf d) = 512"
    using v by (auto simp: valid_block_def)
  have mv: "uiomove (lh_buf d) 512 i = Ret data (i\<lparr>io_uio := uio_advance 512 (io_uio i)\<rparr>)"
    using uiomove_write_ok [of i 512 "lh_buf d"] r rw len data by (simp add: block_req_def)
  show ?thesis
    using b mv rw sector_word [OF b(1)]
    by (simp add: lhd_io_block [OF v r] Let_def card_op_def later_def)
qed

text \<open>A \<^verbatim>\<open>uio\<close> whose one block has been consumed is a request for no sectors at all.\<close>

lemma lhd_io_consumed:
  assumes v: "valid_block d b" and d: "lh_blocks d' = lh_blocks d" and r: "block_req b i"
  shows "lhd_io \<lparr>dk = d', dio = i\<lparr>io_uio := uio_advance 512 (io_uio i)\<rparr>\<rparr> =
    Ret () \<lparr>dk = d', dio = i\<lparr>io_uio := uio_advance 512 (io_uio i)\<rparr>\<rparr>"
proof -
  have b: "(b + 1) * 512 < 2 ^ 31" "b < lh_blocks d" using v by (auto simp: valid_block_def)
  have "(int b * 512 + 512) div 512 = int b + 1" by simp
  then show ?thesis
    using b d r sector_word [OF b(1)]
    by (simp add: lhd_io_def block_req_def Let_def uio_advance_resid)
qed

section \<open>Reading and writing blocks\<close>

lemma read_try:
  assumes v: "valid_block d b" and r: "block_req b i" and rw: "uio_rw (io_uio i) = UIO_READ"
    and k: "tries + k \<le> 10" "\<not> lh_fail d k" "\<forall>j < k. lh_fail d j"
  shows "sfs_rwblock_try tries \<lparr>dk = d, dio = i\<rparr> =
    Ret () \<lparr>dk = (later (Suc k) d)\<lparr>lh_buf := lh_sect d b\<rparr>,
            dio = i\<lparr>io_mem := store (io_mem i) (iov_base (io_uio i)) (lh_sect d b),
                    io_uio := uio_advance 512 (io_uio i)\<rparr>\<rparr>"
  using v k
proof (induction k arbitrary: d tries)
  case 0
  then show ?case by (subst sfs_rwblock_try.simps) (simp add: lhd_io_read [OF _ r rw])
next
  case (Suc k)
  have f: "lh_fail d 0" using Suc.prems(4) by simp
  have "sfs_rwblock_try (tries + 1) \<lparr>dk = later 1 d, dio = i\<rparr> =
     Ret () \<lparr>dk = (later (Suc k) (later 1 d))\<lparr>lh_buf := lh_sect (later 1 d) b\<rparr>,
            dio = i\<lparr>io_mem := store (io_mem i) (iov_base (io_uio i)) (lh_sect (later 1 d) b),
                    io_uio := uio_advance 512 (io_uio i)\<rparr>\<rparr>"
    using Suc.prems by (intro Suc.IH) auto
  then show ?case
    using Suc.prems f by (subst sfs_rwblock_try.simps) (simp add: lhd_io_read [OF _ r rw])
qed

lemma read_try_fail:
  assumes v: "valid_block d b" and r: "block_req b i" and rw: "uio_rw (io_uio i) = UIO_READ"
    and k: "tries + k = 10" "\<forall>j \<le> k. lh_fail d j"
  shows "sfs_rwblock_try tries \<lparr>dk = d, dio = i\<rparr> = Err EIO \<lparr>dk = later (Suc k) d, dio = i\<rparr>"
  using v k
proof (induction k arbitrary: d tries)
  case 0
  then show ?case by (subst sfs_rwblock_try.simps) (simp add: lhd_io_read [OF _ r rw])
next
  case (Suc k)
  have f: "lh_fail d 0" using Suc.prems(3) by simp
  have "sfs_rwblock_try (tries + 1) \<lparr>dk = later 1 d, dio = i\<rparr> =
     Err EIO \<lparr>dk = later (Suc k) (later 1 d), dio = i\<rparr>"
    using Suc.prems by (intro Suc.IH) auto
  then show ?case
    using Suc.prems f by (subst sfs_rwblock_try.simps) (simp add: lhd_io_read [OF _ r rw])
qed

lemma write_ok:
  assumes v: "valid_block d b" and r: "block_req b i" and rw: "uio_rw (io_uio i) = UIO_WRITE"
    and data: "data = load (io_mem i) (iov_base (io_uio i)) 512" and ok: "\<not> lh_fail d 0"
  shows "sfs_rwblock \<lparr>dk = d, dio = i\<rparr> =
    Ret () \<lparr>dk = (later 1 d)\<lparr>lh_buf := data, lh_sect := (lh_sect d)(b := data)\<rparr>,
            dio = i\<lparr>io_uio := uio_advance 512 (io_uio i)\<rparr>\<rparr>"
  using lhd_io_write [OF v r rw data] ok by (simp add: sfs_rwblock_def sfs_rwblock_try.simps Let_def)

text \<open>After a media error the retry finds the \<^verbatim>\<open>uio\<close> consumed: the write is lost and reported done.\<close>

lemma write_lost:
  assumes v: "valid_block d b" and r: "block_req b i" and rw: "uio_rw (io_uio i) = UIO_WRITE"
    and data: "data = load (io_mem i) (iov_base (io_uio i)) 512" and bad: "lh_fail d 0"
  shows "sfs_rwblock \<lparr>dk = d, dio = i\<rparr> =
    Ret () \<lparr>dk = (later 1 d)\<lparr>lh_buf := data\<rparr>, dio = i\<lparr>io_uio := uio_advance 512 (io_uio i)\<rparr>\<rparr>"
  using lhd_io_write [OF v r rw data] bad lhd_io_consumed [OF v _ r, of "(later 1 d)\<lparr>lh_buf := data\<rparr>"]
  by (simp add: sfs_rwblock_def sfs_rwblock_try.simps [of 0] sfs_rwblock_try.simps [of "Suc 0"] Let_def)

lemma valid_block_req: "valid_block d b \<Longrightarrow> block_req b (SFSUIO data b rw)"
  by (simp add: SFSUIO_block_req valid_block_def)

lemma sfs_rblock_ok:
  assumes v: "valid_block d b" and k: "k \<le> 10" "\<not> lh_fail d k" "\<forall>j < k. lh_fail d j"
  shows "sfs_rblock b d = Ret (lh_sect d b) ((later (Suc k) d)\<lparr>lh_buf := lh_sect d b\<rparr>)"
proof -
  have len: "length (lh_sect d b) = 512" using v by (simp add: valid_block_def)
  then have "load (store m 0 (lh_sect d b)) 0 512 = lh_sect d b" for m
    using load_store_same [of "lh_sect d b" m 0] by simp
  then show ?thesis
    using read_try [OF v valid_block_req [OF v], of "replicate 512 0" UIO_READ 0 k] k
    by (simp add: sfs_rblock_def sfs_rwblock_def)
qed

lemma sfs_rblock_fail:
  assumes v: "valid_block d b" and k: "\<forall>j \<le> 10. lh_fail d j"
  shows "sfs_rblock b d = Err EIO (later 11 d)"
  using read_try_fail [OF v valid_block_req [OF v], of "replicate 512 0" UIO_READ 0 10] k
  by (simp add: sfs_rblock_def sfs_rwblock_def)

lemma sfs_wblock_ok:
  assumes v: "valid_block d b" and data: "length data = 512" and ok: "\<not> lh_fail d 0"
  shows "sfs_wblock data b d = Ret () ((later 1 d)\<lparr>lh_buf := data, lh_sect := (lh_sect d)(b := data)\<rparr>)"
  using write_ok [OF v valid_block_req [OF v], of data UIO_WRITE data] ok data
  by (simp add: sfs_wblock_def load_kbuf)

lemma sfs_wblock_lost:
  assumes v: "valid_block d b" and data: "length data = 512" and bad: "lh_fail d 0"
  shows "sfs_wblock data b d = Ret () ((later 1 d)\<lparr>lh_buf := data\<rparr>)"
  using write_lost [OF v valid_block_req [OF v], of data UIO_WRITE data] bad data
  by (simp add: sfs_wblock_def load_kbuf)

section \<open>The interface\<close>

text \<open>A disk that reports no media errors and whose sectors are whole.\<close>

definition disk_ok :: "lhd \<Rightarrow> bool" where
  "disk_ok d \<longleftrightarrow> (\<forall>n. \<not> lh_fail d n) \<and> length (lh_buf d) = 512 \<and> (\<forall>i. length (lh_sect d i) = 512) \<and>
     lh_blocks d * 512 < 2 ^ 31"

text \<open>The contract the file system relies on: a block holds what was last written to it.\<close>

locale block_store =
  fixes ok :: "'d \<Rightarrow> bool"
    and size :: "'d \<Rightarrow> nat"
    and contents :: "'d \<Rightarrow> nat \<Rightarrow> u8 list"
    and rblock :: "nat \<Rightarrow> 'd \<Rightarrow> ('d, u8 list) outcome"
    and wblock :: "u8 list \<Rightarrow> nat \<Rightarrow> 'd \<Rightarrow> ('d, unit) outcome"
  assumes rblock: "ok d \<Longrightarrow> b < size d \<Longrightarrow>
          \<exists>d'. rblock b d = Ret (contents d b) d' \<and> ok d' \<and> contents d' = contents d \<and> size d' = size d"
    and wblock: "ok d \<Longrightarrow> b < size d \<Longrightarrow> length data = 512 \<Longrightarrow>
          \<exists>d'. wblock data b d = Ret () d' \<and> ok d' \<and> contents d' = (contents d)(b := data) \<and>
               size d' = size d"
begin

lemma read_after_write:
  assumes "ok d" "a < size d" "b < size d" "length data = 512"
  shows "\<exists>d' d''. wblock data a d = Ret () d' \<and>
           rblock b d' = Ret (if b = a then data else contents d b) d''"
proof -
  obtain d' where d': "wblock data a d = Ret () d'" "ok d'" "contents d' = (contents d)(a := data)"
      "size d' = size d" using wblock [OF assms(1,2,4)] by blast
  obtain d'' where "rblock b d' = Ret (contents d' b) d''" using rblock [OF d'(2), of b] assms(3) d'(4) by auto
  with d' show ?thesis by auto
qed

end

lemma disk_ok_valid: "disk_ok d \<Longrightarrow> b < lh_blocks d \<Longrightarrow> valid_block d b"
  by (auto simp: disk_ok_def valid_block_def)

interpretation lhd_disk: block_store disk_ok lh_blocks lh_sect sfs_rblock sfs_wblock
proof unfold_locales
  fix d b assume d: "disk_ok d" "b < lh_blocks d"
  then show "\<exists>d'. sfs_rblock b d = Ret (lh_sect d b) d' \<and> disk_ok d' \<and> lh_sect d' = lh_sect d \<and>
      lh_blocks d' = lh_blocks d"
    using sfs_rblock_ok [OF disk_ok_valid [OF d], of 0] by (simp add: disk_ok_def)
next
  fix d b and data :: "u8 list" assume d: "disk_ok d" "b < lh_blocks d" "length data = 512"
  then show "\<exists>d'. sfs_wblock data b d = Ret () d' \<and> disk_ok d' \<and> lh_sect d' = (lh_sect d)(b := data) \<and>
      lh_blocks d' = lh_blocks d"
    using sfs_wblock_ok [OF disk_ok_valid [OF d(1,2)] d(3)] by (simp add: disk_ok_def)
qed

section \<open>Properties\<close>

definition sample_disk :: "(nat \<Rightarrow> bool) \<Rightarrow> lhd" where
  "sample_disk f = \<lparr>lh_blocks = 16, lh_sect = (\<lambda>b. replicate 512 (of_nat b)), lh_buf = replicate 512 0, lh_fail = f\<rparr>"

lemma sample_disk_valid: "b < 16 \<Longrightarrow> valid_block (sample_disk f) b"
  by (simp add: valid_block_def sample_disk_def)

lemma sample_disk_ok: "disk_ok (sample_disk (\<lambda>_. False))"
  by (simp add: disk_ok_def sample_disk_def)

text \<open>
  C28. \<^verbatim>\<open>sfs_rblock\<close> survives up to ten media errors in a row: it returns the contents of the block
  when one of the first eleven attempts succeeds, and \<^verbatim>\<open>EIO\<close> after exactly eleven failures.
\<close>

theorem sfs_rblock_retries:
  assumes "valid_block d b"
  shows "(\<exists>k \<le> 10. \<not> lh_fail d k) \<and> (\<exists>d'. sfs_rblock b d = Ret (lh_sect d b) d' \<and> lh_sect d' = lh_sect d) \<or>
         (\<forall>k \<le> 10. lh_fail d k) \<and> sfs_rblock b d = Err EIO (later 11 d)"
proof (cases "\<forall>k \<le> 10. lh_fail d k")
  case True
  then show ?thesis using sfs_rblock_fail [OF assms True] by blast
next
  case False
  define k where "k = (LEAST k. \<not> lh_fail d k)"
  obtain j where j: "j \<le> 10" "\<not> lh_fail d j" using False by blast
  have "\<not> lh_fail d k" unfolding k_def using j(2) by (rule LeastI)
  moreover have "k \<le> j" unfolding k_def using j(2) by (rule Least_le)
  moreover have "\<forall>i < k. lh_fail d i"
    using not_less_Least [of _ "\<lambda>k. \<not> lh_fail d k"] unfolding k_def [symmetric] by blast
  ultimately have "\<exists>d'. sfs_rblock b d = Ret (lh_sect d b) d' \<and> lh_sect d' = lh_sect d"
    using sfs_rblock_ok [OF assms, of k] j(1) by simp
  with j show ?thesis by blast
qed

theorem sfs_rblock_retries_witness:
  "\<exists>d'. sfs_rblock 3 (sample_disk (\<lambda>n. n < 10)) = Ret (replicate 512 3) d'"
proof -
  have "\<not> lh_fail (sample_disk (\<lambda>n. n < 10)) 10" "lh_sect (sample_disk f) 3 = replicate 512 3" for f
    by (simp_all add: sample_disk_def)
  with sfs_rblock_retries [OF sample_disk_valid [of 3 "\<lambda>n. n < 10"]] show ?thesis by fastforce
qed

text \<open>
  C27. A media error on the first attempt of a write loses the data: the driver has consumed the
  request, so the retry transfers nothing and reports success, and the block keeps its old
  contents.
\<close>

theorem sfs_wblock_loses_data:
  assumes "valid_block d b" "length data = 512" "lh_fail d 0"
  shows "\<exists>d'. sfs_wblock data b d = Ret () d' \<and> lh_sect d' = lh_sect d"
  using sfs_wblock_lost [OF assms] by simp

theorem sfs_wblock_loses_data_witness:
  "\<exists>d'. sfs_wblock (replicate 512 9) 3 (sample_disk (\<lambda>n. n = 0)) = Ret () d' \<and> lh_sect d' 3 = replicate 512 3"
  using sfs_wblock_loses_data [OF sample_disk_valid [of 3 "\<lambda>n. n = 0"], of "replicate 512 9"]
  by (auto simp: sample_disk_def)

text \<open>
  C29. On a disk without media errors the blocks behave as a store: a block read after a write is
  what was written if it is the same block, and what it was before otherwise.
\<close>

theorem block_read_after_write:
  assumes "disk_ok d" "a < lh_blocks d" "b < lh_blocks d" "length data = 512"
  shows "\<exists>d' d''. sfs_wblock data a d = Ret () d' \<and> sfs_rblock b d' = Ret (if b = a then data else lh_sect d b) d''"
  using assms by (rule lhd_disk.read_after_write)

theorem block_read_after_write_witness:
  "\<exists>d' d''. sfs_wblock (replicate 512 9) 3 (sample_disk (\<lambda>_. False)) = Ret () d' \<and> sfs_rblock 3 d' = Ret (replicate 512 9) d''"
  using block_read_after_write [OF sample_disk_ok, of 3 3 "replicate 512 9"] by (auto simp: sample_disk_def)

end
