(* ===== verification/Kern_Bitmap.thy ===== *)
theory Kern_Bitmap
  imports OS161_Prelude
begin

text \<open>
  The bitmaps of \<^verbatim>\<open>kern/lib/bitmap.c\<close> as a finite set of marked bits.  The contract is the
  locale \<open>bit_allocator\<close>, which the block allocator of SFS relies on.
\<close>

unbundle bit_operations_syntax

section \<open>The model\<close>

text \<open>\<^verbatim>\<open>struct bitmap\<close>; \<^verbatim>\<open>nbits\<close> is a 32-bit number.\<close>

record bitmap =
  bm_nbits :: nat
  bm_v :: "u8 list"

text \<open>\<^verbatim>\<open>DIVROUNDUP(nbits, BITS_PER_WORD)\<close> in 32-bit arithmetic.\<close>

definition bitmap_words :: "nat \<Rightarrow> nat" where
  "bitmap_words nbits = ((nbits + 7) mod 2 ^ 32) div 8"

definition bit_mask :: "nat \<Rightarrow> u8" where
  "bit_mask j = push_bit j 1"

definition bitmap_create :: "bool \<Rightarrow> bool \<Rightarrow> nat \<Rightarrow> (unit, bitmap option) outcome" where
  "bitmap_create ok1 ok2 nbits =
     (let words = bitmap_words nbits in
      if \<not> ok1 then Ret None ()
      else if \<not> ok2 then Ret None ()
      else
        (let v = replicate words 0 in
         if nbits div 8 < words then
           (let ix = words - 1; overbits = nbits - ix * 8 in
            kassert (nbits div 8 = words - 1)
             (kassert (overbits > 0 \<and> overbits < 8)
               (Ret (Some \<lparr>bm_nbits = nbits,
                       bm_v = v[ix := fold (\<lambda>j w. w OR bit_mask j) [overbits..<8] (v ! ix)]\<rparr>) ())))
         else Ret (Some \<lparr>bm_nbits = nbits, bm_v = v\<rparr>) ()))"

definition bitmap_getdata :: "bitmap \<Rightarrow> u8 list" where
  "bitmap_getdata b = bm_v b"

text \<open>The two loops of \<^verbatim>\<open>bitmap_alloc\<close>: over the bits of a word, and over the words.\<close>

function find_zero_bit :: "u8 \<Rightarrow> nat \<Rightarrow> nat option" where
  "find_zero_bit w offset =
     (if offset < 8 then
        (if w AND bit_mask offset = 0 then Some offset else find_zero_bit w (offset + 1))
      else None)"
  by pat_completeness auto
termination
  by (relation "measure (\<lambda>(w, offset). 8 - offset)") auto

declare find_zero_bit.simps [simp del]

function alloc_scan :: "bitmap \<Rightarrow> nat \<Rightarrow> nat \<Rightarrow> (bitmap, nat) outcome" where
  "alloc_scan b maxix ix =
     (if ix < maxix then
        defined_if (ix < length (bm_v b))
         (if bm_v b ! ix \<noteq> 0xff then
            (case find_zero_bit (bm_v b ! ix) 0 of None \<Rightarrow> Panic
             | Some offset \<Rightarrow>
                 kassert (ix * 8 + offset < bm_nbits b)
                  (Ret (ix * 8 + offset)
                    (b\<lparr>bm_v := (bm_v b)[ix := bm_v b ! ix OR bit_mask offset]\<rparr>)))
          else alloc_scan b maxix (ix + 1))
      else Err ENOSPC b)"
  by pat_completeness auto
termination
  by (relation "measure (\<lambda>(b, maxix, ix). maxix - ix)") auto

declare alloc_scan.simps [simp del]

definition bitmap_alloc :: "bitmap \<Rightarrow> (bitmap, nat) outcome" where
  "bitmap_alloc b = alloc_scan b (bitmap_words (bm_nbits b)) 0"

definition bitmap_translate :: "nat \<Rightarrow> nat \<times> u8" where
  "bitmap_translate bitno = (bitno div 8, bit_mask (bitno mod 8))"

definition bitmap_mark :: "nat \<Rightarrow> bitmap \<Rightarrow> (bitmap, unit) outcome" where
  "bitmap_mark index b =
     kassert (index < bm_nbits b)
      (let (ix, mask) = bitmap_translate index in
       defined_if (ix < length (bm_v b))
        (kassert (bm_v b ! ix AND mask = 0)
          (Ret () (b\<lparr>bm_v := (bm_v b)[ix := bm_v b ! ix OR mask]\<rparr>))))"

definition bitmap_unmark :: "nat \<Rightarrow> bitmap \<Rightarrow> (bitmap, unit) outcome" where
  "bitmap_unmark index b =
     kassert (index < bm_nbits b)
      (let (ix, mask) = bitmap_translate index in
       defined_if (ix < length (bm_v b))
        (kassert (bm_v b ! ix AND mask \<noteq> 0)
          (Ret () (b\<lparr>bm_v := (bm_v b)[ix := bm_v b ! ix AND NOT mask]\<rparr>))))"

definition bitmap_isset :: "nat \<Rightarrow> bitmap \<Rightarrow> (bitmap, bool) outcome" where
  "bitmap_isset index b =
     (let (ix, mask) = bitmap_translate index in
      defined_if (ix < length (bm_v b)) (Ret (bm_v b ! ix AND mask \<noteq> 0) b))"

section \<open>Invariant and abstraction\<close>

definition bit_at :: "u8 list \<Rightarrow> nat \<Rightarrow> bool" where
  "bit_at v i = bit (v ! (i div 8)) (i mod 8)"

definition marked :: "bitmap \<Rightarrow> nat set" where
  "marked b = {i. i < bm_nbits b \<and> bit_at (bm_v b) i}"

text \<open>
  The buffer covers the bits, and the leftover bits of its last word are set, so that an
  allocation never returns one of them.
\<close>

definition bitmap_inv :: "bitmap \<Rightarrow> bool" where
  "bitmap_inv b \<longleftrightarrow> bm_nbits b + 7 < 2 ^ 32 \<and> length (bm_v b) = bitmap_words (bm_nbits b) \<and>
     (\<forall>i < 8 * length (bm_v b). bm_nbits b \<le> i \<longrightarrow> bit_at (bm_v b) i)"

section \<open>Words\<close>

lemma bit_bit_mask: "bit (bit_mask j) k \<longleftrightarrow> k = j \<and> j < 8"
  by (auto simp: bit_mask_def bit_push_bit_iff bit_simps)

lemma and_bit_mask_0: "j < 8 \<Longrightarrow> w AND bit_mask j = 0 \<longleftrightarrow> \<not> bit w j"
proof
  assume j: "j < 8" and "w AND bit_mask j = 0"
  then have "\<not> bit (w AND bit_mask j) j" by simp
  with j show "\<not> bit w j" by (simp add: bit_and_iff bit_bit_mask)
next
  assume "\<not> bit w j"
  then show "w AND bit_mask j = 0"
    by (intro bit_word_eqI) (auto simp: bit_and_iff bit_bit_mask)
qed

lemma bit_or_mask: "bit (w OR bit_mask j) k \<longleftrightarrow> bit w k \<or> k = j \<and> j < 8"
  by (simp add: bit_or_iff bit_bit_mask)

lemma bit_and_not_mask: "k < 8 \<Longrightarrow> bit (w AND NOT (bit_mask j)) k \<longleftrightarrow> bit w k \<and> k \<noteq> j"
  by (auto simp: bit_and_iff bit_not_iff bit_bit_mask)

lemma all_ones_u8: "(w :: u8) = 0xff \<longleftrightarrow> (\<forall>k < 8. bit w k)"
proof -
  have "(0xff :: u8) = - 1" by simp
  then show ?thesis by (auto simp: bit_eq_iff)
qed

lemma bit_at_upd:
  assumes "ix < length v"
  shows "bit_at (v[ix := w]) i = (if i div 8 = ix then bit w (i mod 8) else bit_at v i)"
  using assms by (simp add: bit_at_def nth_list_update)

section \<open>Correctness\<close>

lemma bitmap_words_eq: "n + 7 < 2 ^ 32 \<Longrightarrow> bitmap_words n = (n + 7) div 8"
  by (simp add: bitmap_words_def)

lemma bit_index_in: "bitmap_inv b \<Longrightarrow> i < bm_nbits b \<Longrightarrow> i div 8 < length (bm_v b)"
  by (simp add: bitmap_inv_def bitmap_words_eq)

lemma find_zero_bit_step:
  "find_zero_bit w k = (if k < 8 then (if bit w k then find_zero_bit w (Suc k) else Some k) else None)"
  by (subst find_zero_bit.simps) (simp add: and_bit_mask_0)

lemma find_zero_bit_least:
  assumes "find_zero_bit w k = Some j"
  shows "k \<le> j \<and> j < 8 \<and> \<not> bit w j \<and> (\<forall>i. k \<le> i \<and> i < j \<longrightarrow> bit w i)"
  using assms
proof (induction w k rule: find_zero_bit.induct)
  case (1 w k)
  show ?case
  proof (cases "k < 8 \<and> bit w k")
    case True
    with "1.prems" have "find_zero_bit w (k + 1) = Some j"
      by (subst (asm) find_zero_bit_step) simp
    with 1 True have ih: "k + 1 \<le> j \<and> j < 8 \<and> \<not> bit w j \<and> (\<forall>i. k + 1 \<le> i \<and> i < j \<longrightarrow> bit w i)"
      by (simp add: and_bit_mask_0)
    have "bit w i" if "k \<le> i" "i < j" for i
      using that True ih by (cases "i = k") auto
    with ih show ?thesis by simp
  next
    case False
    with "1.prems" show ?thesis by (subst (asm) find_zero_bit_step) (auto split: if_splits)
  qed
qed

lemma find_zero_bit_None:
  assumes "find_zero_bit w k = None" "k \<le> i" "i < 8"
  shows "bit w i"
  using assms
proof (induction w k rule: find_zero_bit.induct)
  case (1 w k)
  have k: "k < 8" "bit w k" "find_zero_bit w (k + 1) = None"
    using "1.prems" by (subst (asm) find_zero_bit_step, simp split: if_splits)+
  with 1 show ?case by (cases "i = k") (auto simp: and_bit_mask_0)
qed

lemma find_zero_bit_defined: "w \<noteq> 0xff \<Longrightarrow> \<exists>j. find_zero_bit w 0 = Some j"
  using find_zero_bit_None [of w 0] all_ones_u8 [of w] by (cases "find_zero_bit w 0") auto

text \<open>Marking and unmarking one bit, seen on the set of marked bits.\<close>

lemma mark_word:
  assumes inv: "bitmap_inv b" and i: "i < bm_nbits b"
    and b': "b' = b\<lparr>bm_v := (bm_v b)[i div 8 := bm_v b ! (i div 8) OR bit_mask (i mod 8)]\<rparr>"
  shows "bitmap_inv b'" "marked b' = insert i (marked b)" "bm_nbits b' = bm_nbits b"
proof -
  have ix: "i div 8 < length (bm_v b)" using bit_index_in [OF inv i] .
  have bits: "bit_at (bm_v b') k \<longleftrightarrow> bit_at (bm_v b) k \<or> k = i" for k
  proof -
    have eq: "k div 8 = i div 8 \<Longrightarrow> k mod 8 = i mod 8 \<Longrightarrow> k = i" by (metis div_mult_mod_eq)
    show ?thesis
    proof (cases "k div 8 = i div 8")
      case True
      with eq ix have "bit_at (bm_v b') k \<longleftrightarrow> bit (bm_v b ! (i div 8)) (k mod 8) \<or> k mod 8 = i mod 8"
        by (simp add: b' bit_at_upd bit_or_mask)
      with True eq show ?thesis by (auto simp: bit_at_def)
    next
      case False
      with ix show ?thesis by (auto simp: b' bit_at_upd)
    qed
  qed
  show nb: "bm_nbits b' = bm_nbits b" by (simp add: b')
  have len: "length (bm_v b') = length (bm_v b)" by (simp add: b')
  show "bitmap_inv b'" unfolding bitmap_inv_def bits nb len using inv by (auto simp: bitmap_inv_def)
  show "marked b' = insert i (marked b)" unfolding marked_def bits nb using i by auto
qed

lemma unmark_word:
  assumes inv: "bitmap_inv b" and i: "i < bm_nbits b"
    and b': "b' = b\<lparr>bm_v := (bm_v b)[i div 8 := bm_v b ! (i div 8) AND NOT (bit_mask (i mod 8))]\<rparr>"
  shows "bitmap_inv b'" "marked b' = marked b - {i}" "bm_nbits b' = bm_nbits b"
proof -
  have ix: "i div 8 < length (bm_v b)" using bit_index_in [OF inv i] .
  have bits: "bit_at (bm_v b') k \<longleftrightarrow> bit_at (bm_v b) k \<and> k \<noteq> i" for k
  proof -
    have eq: "k div 8 = i div 8 \<Longrightarrow> k mod 8 = i mod 8 \<Longrightarrow> k = i" by (metis div_mult_mod_eq)
    show ?thesis
    proof (cases "k div 8 = i div 8")
      case True
      with eq ix have "bit_at (bm_v b') k \<longleftrightarrow> bit (bm_v b ! (i div 8)) (k mod 8) \<and> k mod 8 \<noteq> i mod 8"
        by (simp add: b' bit_at_upd bit_and_not_mask)
      moreover have "k mod 8 \<noteq> i mod 8 \<longleftrightarrow> k \<noteq> i" using eq [OF True] by auto
      ultimately show ?thesis using True by (simp add: bit_at_def)
    next
      case False
      with ix show ?thesis by (auto simp: b' bit_at_upd)
    qed
  qed
  show nb: "bm_nbits b' = bm_nbits b" by (simp add: b')
  have len: "length (bm_v b') = length (bm_v b)" by (simp add: b')
  show "bitmap_inv b'" unfolding bitmap_inv_def bits nb len using inv i by (auto simp: bitmap_inv_def)
  show "marked b' = marked b - {i}" unfolding marked_def bits nb by auto
qed

lemma bitmap_mark_spec:
  assumes "bitmap_inv b" "i < bm_nbits b"
  shows "if i \<in> marked b then bitmap_mark i b = Panic
         else \<exists>b'. bitmap_mark i b = Ret () b' \<and> bitmap_inv b' \<and> marked b' = insert i (marked b) \<and>
                   bm_nbits b' = bm_nbits b"
  using mark_word [OF assms refl] assms bit_index_in [OF assms]
  by (auto simp: bitmap_mark_def bitmap_translate_def and_bit_mask_0 marked_def bit_at_def)

lemma bitmap_unmark_spec:
  assumes "bitmap_inv b" "i < bm_nbits b"
  shows "if i \<in> marked b
         then \<exists>b'. bitmap_unmark i b = Ret () b' \<and> bitmap_inv b' \<and> marked b' = marked b - {i} \<and>
                   bm_nbits b' = bm_nbits b
         else bitmap_unmark i b = Panic"
  using unmark_word [OF assms refl] assms bit_index_in [OF assms]
  by (auto simp: bitmap_unmark_def bitmap_translate_def and_bit_mask_0 marked_def bit_at_def)

lemma bitmap_isset_spec:
  assumes "bitmap_inv b" "i < bm_nbits b"
  shows "bitmap_isset i b = Ret (i \<in> marked b) b"
  using assms bit_index_in [OF assms]
  by (simp add: bitmap_isset_def bitmap_translate_def and_bit_mask_0 marked_def bit_at_def)

lemma word_full:
  assumes "bm_v b ! ix = 0xff" "k div 8 = ix"
  shows "bit_at (bm_v b) k"
  using assms all_ones_u8 [of "bm_v b ! ix"] by (simp add: bit_at_def)

lemma alloc_scan_spec:
  assumes inv: "bitmap_inv b" and le: "ix \<le> length (bm_v b)"
    and full: "\<forall>k < 8 * ix. bit_at (bm_v b) k"
  shows "case alloc_scan b (length (bm_v b)) ix of
           Ret i b' \<Rightarrow> i < bm_nbits b \<and> i \<notin> marked b \<and> (\<forall>j < i. j \<in> marked b) \<and> bitmap_inv b' \<and>
             marked b' = insert i (marked b) \<and> bm_nbits b' = bm_nbits b
         | Err e b' \<Rightarrow> e = ENOSPC \<and> b' = b \<and> marked b = {..<bm_nbits b}
         | _ \<Rightarrow> False"
  using le full
proof (induction "length (bm_v b) - ix" arbitrary: ix)
  case 0
  then have "marked b = {..<bm_nbits b}"
    using inv by (auto simp: marked_def bitmap_inv_def bitmap_words_eq)
  then show ?case using 0 by (subst alloc_scan.simps) simp
next
  case (Suc n)
  then have lt: "ix < length (bm_v b)" by simp
  show ?case
  proof (cases "bm_v b ! ix = 0xff")
    case True
    have "bit_at (bm_v b) k" if "k < 8 * (ix + 1)" for k
      using that Suc.prems(2) word_full [OF True, of k] by (cases "k < 8 * ix") auto
    then have "case alloc_scan b (length (bm_v b)) (ix + 1) of
           Ret i b' \<Rightarrow> i < bm_nbits b \<and> i \<notin> marked b \<and> (\<forall>j < i. j \<in> marked b) \<and> bitmap_inv b' \<and>
             marked b' = insert i (marked b) \<and> bm_nbits b' = bm_nbits b
         | Err e b' \<Rightarrow> e = ENOSPC \<and> b' = b \<and> marked b = {..<bm_nbits b}
         | _ \<Rightarrow> False"
      using Suc.hyps lt by (intro Suc.hyps(1)) auto
    with True lt show ?thesis by (subst alloc_scan.simps) simp
  next
    case False
    then obtain j where j: "find_zero_bit (bm_v b ! ix) 0 = Some j"
      using find_zero_bit_defined by blast
    note jp = find_zero_bit_least [OF j]
    define i where "i = ix * 8 + j"
    have di: "i div 8 = ix" "i mod 8 = j" using jp by (simp_all add: i_def)
    have nb: "\<not> bit_at (bm_v b) i" using jp di by (simp add: bit_at_def)
    have "i < 8 * length (bm_v b)" using lt jp by (simp add: i_def)
    then have lti: "i < bm_nbits b" using inv nb by (auto simp: bitmap_inv_def)
    have below: "bit_at (bm_v b) k" if k: "k < i" for k
    proof (cases "k < 8 * ix")
      case False
      have "k div 8 = ix" using False k jp by (auto simp: i_def)
      moreover have "k mod 8 < j" using k False div_mult_mod_eq [of k 8] unfolding calculation i_def by linarith
      ultimately have "k div 8 = ix" "k mod 8 < j" .
      with jp show ?thesis by (simp add: bit_at_def)
    qed (use Suc.prems(2) in simp)
    show ?thesis
      using j lt False lti below nb mark_word [OF inv lti refl] di
      by (subst alloc_scan.simps) (auto simp: i_def [symmetric] marked_def)
  qed
qed

lemma bitmap_alloc_spec:
  assumes "bitmap_inv b"
  shows "case bitmap_alloc b of
           Ret i b' \<Rightarrow> i < bm_nbits b \<and> i \<notin> marked b \<and> (\<forall>j < i. j \<in> marked b) \<and> bitmap_inv b' \<and>
             marked b' = insert i (marked b) \<and> bm_nbits b' = bm_nbits b
         | Err e b' \<Rightarrow> e = ENOSPC \<and> b' = b \<and> marked b = {..<bm_nbits b}
         | _ \<Rightarrow> False"
  using alloc_scan_spec [OF assms, of 0] assms by (simp add: bitmap_alloc_def bitmap_inv_def)

lemma bit_fold_masks:
  "k < 8 \<Longrightarrow> bit (fold (\<lambda>j w. w OR bit_mask j) js w) k \<longleftrightarrow> bit w k \<or> k \<in> set js"
  by (induction js arbitrary: w) (auto simp: bit_or_mask)

lemma bitmap_create_spec:
  assumes n: "n + 7 < 2 ^ 32"
  shows "\<exists>b. bitmap_create True True n = Ret (Some b) () \<and> bitmap_inv b \<and> marked b = {} \<and> bm_nbits b = n"
proof (cases "n mod 8 = 0")
  case True
  then have w: "bitmap_words n = n div 8" using n by (auto simp: bitmap_words_eq mod_eq_0_iff_dvd)
  let ?b = "\<lparr>bm_nbits = n, bm_v = replicate (n div 8) (0 :: u8)\<rparr>"
  have "bitmap_inv ?b" "marked ?b = {}"
    using True n w by (auto simp: bitmap_inv_def marked_def bit_at_def)
  then show ?thesis using w by (simp add: bitmap_create_def Let_def)
next
  case False
  define q r where "q = n div 8" and "r = n mod 8"
  have qr: "n = q * 8 + r" "0 < r" "r < 8" using False by (auto simp: q_def r_def)
  have w: "bitmap_words n = q + 1" using n qr by (simp add: bitmap_words_eq)
  let ?v = "replicate (q + 1) (0 :: u8)"
  let ?b = "\<lparr>bm_nbits = n, bm_v = ?v[q := fold (\<lambda>j w. w OR bit_mask j) [r..<8] (?v ! q)]\<rparr>"
  have bits: "bit_at (bm_v ?b) i \<longleftrightarrow> i div 8 = q \<and> r \<le> i mod 8" if "i < 8 * (q + 1)" for i
    using that by (auto simp: bit_at_def nth_list_update bit_fold_masks simp del: replicate.simps)
  have "i div 8 = q \<and> r \<le> i mod 8" if "i < 8 * (q + 1)" "n \<le> i" for i
  proof -
    have "i div 8 = q" using that qr by (auto simp: div_nat_eqI)
    with that qr div_mult_mod_eq [of i 8] show ?thesis by linarith
  qed
  with bits have inv: "bitmap_inv ?b"
    using n w qr by (auto simp: bitmap_inv_def simp del: replicate.simps)
  have "\<not> bit_at (bm_v ?b) i" if "i < n" for i
  proof -
    have "\<not> (i div 8 = q \<and> r \<le> i mod 8)" using that qr(1) div_mult_mod_eq [of i 8] by linarith
    then show ?thesis using bits [of i] that qr by simp
  qed
  then have "marked ?b = {}" by (auto simp: marked_def simp del: replicate.simps)
  moreover have "bitmap_create True True n = Ret (Some ?b) ()"
    using w qr by (simp add: bitmap_create_def Let_def del: replicate.simps)
  ultimately show ?thesis using inv by auto
qed

section \<open>The interface\<close>

locale bit_allocator =
  fixes inv :: "'b \<Rightarrow> bool"
    and limit :: "'b \<Rightarrow> nat"
    and used :: "'b \<Rightarrow> nat set"
    and alloc :: "'b \<Rightarrow> ('b, nat) outcome"
    and unmark :: "nat \<Rightarrow> 'b \<Rightarrow> ('b, unit) outcome"
    and isset :: "nat \<Rightarrow> 'b \<Rightarrow> ('b, bool) outcome"
  assumes used_limit: "used b \<subseteq> {..<limit b}"
    and alloc: "inv b \<Longrightarrow> used b \<noteq> {..<limit b} \<Longrightarrow>
          \<exists>i b'. alloc b = Ret i b' \<and> i < limit b \<and> i \<notin> used b \<and> inv b' \<and>
                 used b' = insert i (used b) \<and> limit b' = limit b"
    and alloc_full: "inv b \<Longrightarrow> used b = {..<limit b} \<Longrightarrow> alloc b = Err ENOSPC b"
    and unmark: "inv b \<Longrightarrow> i \<in> used b \<Longrightarrow>
          \<exists>b'. unmark i b = Ret () b' \<and> inv b' \<and> used b' = used b - {i} \<and> limit b' = limit b"
    and isset: "inv b \<Longrightarrow> i < limit b \<Longrightarrow> isset i b = Ret (i \<in> used b) b"
begin

lemma alloc_Ret:
  assumes "inv b" "alloc b = Ret i b'"
  shows "i < limit b" "i \<notin> used b" "inv b'" "used b' = insert i (used b)" "limit b' = limit b"
  using alloc [OF assms(1)] alloc_full [OF assms(1)] assms(2) by (cases "used b = {..<limit b}"; auto)+

lemma alloc_Err:
  assumes "inv b" "alloc b = Err e b'"
  shows "e = ENOSPC" "b' = b" "used b = {..<limit b}"
  using alloc [OF assms(1)] alloc_full [OF assms(1)] assms(2) by (cases "used b = {..<limit b}"; auto)+

lemma alloc_twice:
  assumes "inv b" "alloc b = Ret i b'" "alloc b' = Ret j b''"
  shows "i \<noteq> j"
  using alloc_Ret [OF assms(1,2)] alloc_Ret(2) [OF _ assms(3)] by auto

lemma alloc_unmark:
  assumes "inv b" "alloc b = Ret i b'"
  shows "\<exists>b''. unmark i b' = Ret () b'' \<and> inv b'' \<and> used b'' = used b \<and> limit b'' = limit b"
  using alloc_Ret [OF assms] unmark [of b' i] by auto

end

interpretation kern_bitmap: bit_allocator bitmap_inv bm_nbits marked bitmap_alloc bitmap_unmark bitmap_isset
proof unfold_locales
  fix b
  show "marked b \<subseteq> {..<bm_nbits b}" by (auto simp: marked_def)
next
  fix b assume "bitmap_inv b" "marked b \<noteq> {..<bm_nbits b}"
  then show "\<exists>i b'. bitmap_alloc b = Ret i b' \<and> i < bm_nbits b \<and> i \<notin> marked b \<and> bitmap_inv b' \<and>
      marked b' = insert i (marked b) \<and> bm_nbits b' = bm_nbits b"
    using bitmap_alloc_spec [of b] by (cases "bitmap_alloc b") auto
next
  fix b assume "bitmap_inv b" "marked b = {..<bm_nbits b}"
  then show "bitmap_alloc b = Err ENOSPC b"
    using bitmap_alloc_spec [of b] by (cases "bitmap_alloc b") auto
next
  fix b i assume b: "bitmap_inv b" and i: "i \<in> marked b"
  then have "i < bm_nbits b" by (simp add: marked_def)
  then show "\<exists>b'. bitmap_unmark i b = Ret () b' \<and> bitmap_inv b' \<and> marked b' = marked b - {i} \<and>
      bm_nbits b' = bm_nbits b"
    using bitmap_unmark_spec [OF b, of i] i by simp
qed (rule bitmap_isset_spec)

section \<open>Properties\<close>

text \<open>
  C23. \<^verbatim>\<open>bitmap_alloc\<close> fails with \<^verbatim>\<open>ENOSPC\<close> exactly when every bit is marked; otherwise it marks one bit
  that was not marked, changes no other, and returns it.
\<close>

theorem bitmap_alloc_fresh:
  assumes "bitmap_inv b"
  shows "if marked b = {..<bm_nbits b} then bitmap_alloc b = Err ENOSPC b
         else \<exists>i b'. bitmap_alloc b = Ret i b' \<and> i < bm_nbits b \<and> i \<notin> marked b \<and>
                bitmap_inv b' \<and> marked b' = insert i (marked b) \<and> bm_nbits b' = bm_nbits b"
  using kern_bitmap.alloc [OF assms] kern_bitmap.alloc_full [OF assms] by simp

theorem bitmap_alloc_fresh_witness:
  "\<exists>i b'. bitmap_alloc \<lparr>bm_nbits = 16, bm_v = [0, 0]\<rparr> = Ret i b' \<and> marked b' = {i}"
proof -
  have "bitmap_inv \<lparr>bm_nbits = 16, bm_v = [0, 0]\<rparr>" by (simp add: bitmap_inv_def bitmap_words_def)
  moreover have "marked \<lparr>bm_nbits = 16, bm_v = [0, 0]\<rparr> = {}"
    by (auto simp: marked_def bit_at_def nth_Cons')
  moreover have "{} \<noteq> {..<16::nat}" by (metis empty_iff lessThan_iff zero_less_numeral)
  ultimately show ?thesis using bitmap_alloc_fresh [of "\<lparr>bm_nbits = 16, bm_v = [0, 0]\<rparr>"] by auto
qed

end
