(* ===== verification/Sfs_Core.thy ===== *)
theory Sfs_Core
  imports Disk Kern_Bitmap Kern_Array "HOL-Library.Multiset"
begin

text \<open>
  The base of the SFS file system: the on-disk structures of \<^verbatim>\<open>kern/include/kern/sfs.h\<close> and
  their encoding, the in-memory structures of \<^verbatim>\<open>kern/include/sfs.h\<close>, and from
  \<^verbatim>\<open>kern/fs/sfs/sfs_vnode.c\<close> the space allocation and the block map of a file.
\<close>

section \<open>On-disk encoding\<close>

text \<open>The machine is big-endian; an \<open>n\<close>-bit field holds its value modulo \<open>2 ^ n\<close>.\<close>

definition enc16 :: "nat \<Rightarrow> u8 list" where
  "enc16 n = [of_nat (n div 256), of_nat n]"

definition enc32 :: "nat \<Rightarrow> u8 list" where
  "enc32 n = [of_nat (n div 2 ^ 24), of_nat (n div 2 ^ 16), of_nat (n div 2 ^ 8), of_nat n]"

definition dec16 :: "u8 list \<Rightarrow> nat" where
  "dec16 bs = unat (bs ! 0) * 256 + unat (bs ! 1)"

definition dec32 :: "u8 list \<Rightarrow> nat" where
  "dec32 bs = unat (bs ! 0) * 2 ^ 24 + unat (bs ! 1) * 2 ^ 16 + unat (bs ! 2) * 2 ^ 8 + unat (bs ! 3)"

text \<open>An array of \<open>n\<close> 32-bit numbers.\<close>

primrec dec32s :: "nat \<Rightarrow> u8 list \<Rightarrow> nat list" where
  "dec32s 0 bs = []"
| "dec32s (Suc n) bs = dec32 bs # dec32s n (drop 4 bs)"

abbreviation enc32s :: "nat list \<Rightarrow> u8 list" where
  "enc32s ns \<equiv> concat (map enc32 ns)"

abbreviation SFS_NDIRECT :: nat where "SFS_NDIRECT \<equiv> 15"
abbreviation SFS_DBPERIDB :: nat where "SFS_DBPERIDB \<equiv> 128"
abbreviation SFS_NAMELEN :: nat where "SFS_NAMELEN \<equiv> 60"
abbreviation SFS_MAGIC :: nat where "SFS_MAGIC \<equiv> 0xabadf001"
abbreviation SFS_ROOT_LOCATION :: nat where "SFS_ROOT_LOCATION \<equiv> 1"
abbreviation SFS_MAP_LOCATION :: nat where "SFS_MAP_LOCATION \<equiv> 2"
abbreviation SFS_NOINO :: nat where "SFS_NOINO \<equiv> 0"
abbreviation SFS_TYPE_INVAL :: nat where "SFS_TYPE_INVAL \<equiv> 0"
abbreviation SFS_TYPE_FILE :: nat where "SFS_TYPE_FILE \<equiv> 1"
abbreviation SFS_TYPE_DIR :: nat where "SFS_TYPE_DIR \<equiv> 2"

record sfs_inode =
  sfi_size :: nat
  sfi_type :: nat
  sfi_linkcount :: nat
  sfi_direct :: "nat list"
  sfi_indirect :: nat
  sfi_waste :: "u8 list"

definition inode_bytes :: "sfs_inode \<Rightarrow> u8 list" where
  "inode_bytes i = enc32 (sfi_size i) @ enc16 (sfi_type i) @ enc16 (sfi_linkcount i) @
     enc32s (sfi_direct i) @ enc32 (sfi_indirect i) @ sfi_waste i"

definition inode_of_bytes :: "u8 list \<Rightarrow> sfs_inode" where
  "inode_of_bytes bs =
     \<lparr>sfi_size = dec32 bs, sfi_type = dec16 (drop 4 bs), sfi_linkcount = dec16 (drop 6 bs),
      sfi_direct = dec32s SFS_NDIRECT (drop 8 bs), sfi_indirect = dec32 (drop 68 bs),
      sfi_waste = take 440 (drop 72 bs)\<rparr>"

record sfs_super =
  sp_magic :: nat
  sp_nblocks :: nat
  sp_volname :: "u8 list"
  sp_reserved :: "u8 list"

definition super_bytes :: "sfs_super \<Rightarrow> u8 list" where
  "super_bytes p = enc32 (sp_magic p) @ enc32 (sp_nblocks p) @ sp_volname p @ sp_reserved p"

definition super_of_bytes :: "u8 list \<Rightarrow> sfs_super" where
  "super_of_bytes bs =
     \<lparr>sp_magic = dec32 bs, sp_nblocks = dec32 (drop 4 bs), sp_volname = take 32 (drop 8 bs),
      sp_reserved = take 472 (drop 40 bs)\<rparr>"

section \<open>In-memory structures\<close>

type_synonym vref = nat

text \<open>
  \<^verbatim>\<open>struct sfs_vnode\<close> with the fields of its abstract vnode that SFS and the vnode layer use:
  the reference and open counts with their lock \<^verbatim>\<open>vn_countlock\<close>, and which operations table it has.
\<close>

datatype vops = File_ops | Dir_ops

record sfs_vnode =
  sv_ops :: vops
  sv_refcount :: int
  sv_opencount :: int
  sv_countlock :: lock
  sv_i :: sfs_inode
  sv_ino :: nat
  sv_dirty :: bool

text \<open>
  \<^verbatim>\<open>struct sfs_fs\<close>, the vnode structures it points to (\<open>sfs_vn\<close>, by address), the request being
  served (\<open>sfs_req\<close>, the \<^verbatim>\<open>uio\<close> and its memory), and the outcomes of future \<^verbatim>\<open>kmalloc\<close> calls: the
  address handed out and what its memory contains, read as a lock.
\<close>

record sfs =
  sfs_device :: lhd
  sfs_super :: sfs_super
  sfs_superdirty :: bool
  sfs_freemap :: bitmap
  sfs_freemapdirty :: bool
  sfs_vnodes :: "vref karray"
  sfs_vn :: "vref \<Rightarrow> sfs_vnode option"
  sfs_req :: io_state
  sfs_kmem :: "nat \<Rightarrow> (vref \<times> lock) option"

definition kmalloc_next :: "sfs \<Rightarrow> (vref \<times> lock) option \<times> sfs" where
  "kmalloc_next s = (sfs_kmem s 0, s\<lparr>sfs_kmem := (\<lambda>n. sfs_kmem s (Suc n))\<rparr>)"

text \<open>Access to a vnode structure; \<open>Undef\<close> through a dangling pointer.\<close>

definition with_vn :: "vref \<Rightarrow> sfs \<Rightarrow> (sfs_vnode \<Rightarrow> (sfs, 'a) outcome) \<Rightarrow> (sfs, 'a) outcome" where
  "with_vn v s f = (case sfs_vn s v of None \<Rightarrow> Undef | Some sv \<Rightarrow> f sv)"

definition upd_vn :: "vref \<Rightarrow> (sfs_vnode \<Rightarrow> sfs_vnode) \<Rightarrow> sfs \<Rightarrow> sfs" where
  "upd_vn v f s = s\<lparr>sfs_vn := (sfs_vn s)(v := map_option f (sfs_vn s v))\<rparr>"

definition upd_inode :: "vref \<Rightarrow> (sfs_inode \<Rightarrow> sfs_inode) \<Rightarrow> sfs \<Rightarrow> sfs" where
  "upd_inode v f s = upd_vn v (\<lambda>sv. sv\<lparr>sv_i := f (sv_i sv), sv_dirty := True\<rparr>) s"

text \<open>Block I/O through the device of the file system.\<close>

definition fs_rblock :: "nat \<Rightarrow> sfs \<Rightarrow> (sfs, u8 list) outcome" where
  "fs_rblock b s = within (\<lambda>d. s\<lparr>sfs_device := d\<rparr>) (sfs_rblock b (sfs_device s))"

definition fs_wblock :: "u8 list \<Rightarrow> nat \<Rightarrow> sfs \<Rightarrow> (sfs, unit) outcome" where
  "fs_wblock data b s = within (\<lambda>d. s\<lparr>sfs_device := d\<rparr>) (sfs_wblock data b (sfs_device s))"

section \<open>Simple operations and space allocation\<close>

definition sfs_clearblock :: "nat \<Rightarrow> sfs \<Rightarrow> (sfs, unit) outcome" where
  "sfs_clearblock block s = fs_wblock (replicate SFS_BLOCKSIZE 0) block s"

definition sfs_sync_inode :: "vref \<Rightarrow> sfs \<Rightarrow> (sfs, unit) outcome" where
  "sfs_sync_inode v s = with_vn v s (\<lambda>sv.
     if sv_dirty sv then
       andthen (fs_wblock (inode_bytes (sv_i sv)) (sv_ino sv) s)
         (\<lambda>_ s. Ret () (upd_vn v (\<lambda>sv. sv\<lparr>sv_dirty := False\<rparr>) s))
     else Ret () s)"

definition sfs_balloc :: "sfs \<Rightarrow> (sfs, nat) outcome" where
  "sfs_balloc s =
     andthen (within (\<lambda>b. s\<lparr>sfs_freemap := b\<rparr>) (bitmap_alloc (sfs_freemap s)))
       (\<lambda>diskblock s.
          let s = s\<lparr>sfs_freemapdirty := True\<rparr> in
          kassert (diskblock < sp_nblocks (sfs_super s))
            (andthen (sfs_clearblock diskblock s) (\<lambda>_ s. Ret diskblock s)))"

definition sfs_bfree :: "nat \<Rightarrow> sfs \<Rightarrow> (sfs, unit) outcome" where
  "sfs_bfree diskblock s =
     andthen (within (\<lambda>b. s\<lparr>sfs_freemap := b\<rparr>) (bitmap_unmark diskblock (sfs_freemap s)))
       (\<lambda>_ s. Ret () (s\<lparr>sfs_freemapdirty := True\<rparr>))"

definition sfs_bused :: "nat \<Rightarrow> sfs \<Rightarrow> (sfs, bool) outcome" where
  "sfs_bused diskblock s =
     kassert (diskblock < sp_nblocks (sfs_super s))
       (within (\<lambda>b. s\<lparr>sfs_freemap := b\<rparr>) (bitmap_isset diskblock (sfs_freemap s)))"

section \<open>The block map\<close>

text \<open>Handing back a block: a mapped block must be marked in use.\<close>

definition hand_back :: "nat \<Rightarrow> sfs \<Rightarrow> (sfs, nat) outcome" where
  "hand_back block s =
     (if block \<noteq> 0 then andthen (sfs_bused block s) (\<lambda>u s. kassert u (Ret block s))
      else Ret block s)"

definition bmap_direct :: "vref \<Rightarrow> nat \<Rightarrow> bool \<Rightarrow> sfs \<Rightarrow> (sfs, nat) outcome" where
  "bmap_direct v fileblock doalloc s = with_vn v s (\<lambda>sv.
     let block = sfi_direct (sv_i sv) ! fileblock in
     andthen
      (if block = 0 \<and> doalloc then
         andthen (sfs_balloc s)
           (\<lambda>block s. Ret block
              (upd_inode v (\<lambda>i. i\<lparr>sfi_direct := (sfi_direct i)[fileblock := block]\<rparr>) s))
       else Ret block s)
      hand_back)"

definition bmap_indirect :: "vref \<Rightarrow> nat \<Rightarrow> bool \<Rightarrow> sfs \<Rightarrow> (sfs, nat) outcome" where
  "bmap_indirect v idoff doalloc s = with_vn v s (\<lambda>sv.
     let idblock = sfi_indirect (sv_i sv) in
     if idblock = 0 \<and> \<not> doalloc then Ret 0 s
     else
       andthen
        (if idblock = 0 then
           andthen (sfs_balloc s)
             (\<lambda>idblock s. Ret (idblock, replicate SFS_DBPERIDB 0)
                (upd_inode v (\<lambda>i. i\<lparr>sfi_indirect := idblock\<rparr>) s))
         else andthen (fs_rblock idblock s) (\<lambda>bs s. Ret (idblock, dec32s SFS_DBPERIDB bs) s))
        (\<lambda>(idblock, idbuf) s.
           let block = idbuf ! idoff in
           andthen
            (if block = 0 \<and> doalloc then
               andthen (sfs_balloc s)
                 (\<lambda>block s. andthen (fs_wblock (enc32s (idbuf[idoff := block])) idblock s)
                              (\<lambda>_ s. Ret block s))
             else Ret block s)
            hand_back))"

definition sfs_bmap :: "vref \<Rightarrow> nat \<Rightarrow> bool \<Rightarrow> sfs \<Rightarrow> (sfs, nat) outcome" where
  "sfs_bmap v fileblock doalloc s =
     (if fileblock < SFS_NDIRECT then bmap_direct v fileblock doalloc s
      else
        (let fileblock = fileblock - SFS_NDIRECT;
             idnum = fileblock div SFS_DBPERIDB; idoff = fileblock mod SFS_DBPERIDB
         in if idnum > 0 then defined_if (sfs_vn s v \<noteq> None) (Err EINVAL s)
            else bmap_indirect v idoff doalloc s))"

section \<open>Codec round trips\<close>

lemma unat_of_nat_u8: "unat (of_nat n :: u8) = n mod 256"
  by (simp add: unat_of_nat)

lemma dec16_enc16: "n < 2 ^ 16 \<Longrightarrow> dec16 (enc16 n @ bs) = n"
  by (simp add: dec16_def enc16_def unat_of_nat_u8)

lemma dec32_enc32:
  assumes "n < 2 ^ 32"
  shows "dec32 (enc32 n @ bs) = n"
proof -
  have e1: "n = n div 256 * 256 + n mod 256" by simp
  have e2: "n div 256 = n div 65536 * 256 + n div 256 mod 256"
    using div_mult_mod_eq [of "n div 256" 256] by (simp add: div_mult2_eq [symmetric])
  have e3: "n div 65536 = n div 16777216 * 256 + n div 65536 mod 256"
    using div_mult_mod_eq [of "n div 65536" 256] by (simp add: div_mult2_eq [symmetric])
  have "n = n div 16777216 * 16777216 + n div 65536 mod 256 * 65536 + n div 256 mod 256 * 256 + n mod 256"
    using e1 e2 e3 by linarith
  moreover have "n div 16777216 mod 256 = n div 16777216" using assms by simp
  ultimately show ?thesis by (simp add: dec32_def enc32_def unat_of_nat_u8)
qed

lemma length_enc [simp]: "length (enc16 n) = 2" "length (enc32 n) = 4"
  by (simp_all add: enc16_def enc32_def)

lemma length_enc32s [simp]: "length (enc32s ns) = 4 * length ns"
  by (induction ns) simp_all

lemma length_dec32s [simp]: "length (dec32s n bs) = n"
  by (induction n arbitrary: bs) simp_all

lemma dec32s_enc32s:
  "\<forall>n\<in>set ns. n < 2 ^ 32 \<Longrightarrow> dec32s (length ns) (enc32s ns @ bs) = ns"
  by (induction ns arbitrary: bs) (simp_all add: dec32_enc32)

lemma dec32_less: "dec32 bs < 2 ^ 32"
proof -
  have "unat (w :: u8) < 256" for w using unsigned_less [of w] by simp
  from this [of "bs ! 0"] this [of "bs ! 1"] this [of "bs ! 2"] this [of "bs ! 3"]
  show ?thesis by (simp add: dec32_def)
qed

lemma dec32s_less: "x \<in> set (dec32s n bs) \<Longrightarrow> x < 2 ^ 32"
  by (induction n arbitrary: bs) (auto simp: dec32_less [simplified])

lemma dec32s_zero: "4 * n \<le> m \<Longrightarrow> dec32s n (replicate m 0) = replicate n 0"
proof (induction n arbitrary: m)
  case (Suc n)
  then have "dec32 (replicate m 0) = 0" by (simp add: dec32_def)
  with Suc show ?case by simp
qed simp

lemma inode_roundtrip:
  assumes "sfi_size i < 2 ^ 32" "sfi_type i < 2 ^ 16" "sfi_linkcount i < 2 ^ 16"
    and "length (sfi_direct i) = 15" "\<forall>b\<in>set (sfi_direct i). b < 2 ^ 32" "sfi_indirect i < 2 ^ 32"
    and "length (sfi_waste i) = 440"
  shows "inode_of_bytes (inode_bytes i) = i"
proof -
  have "drop 4 (inode_bytes i) = enc16 (sfi_type i) @ enc16 (sfi_linkcount i) @
      enc32s (sfi_direct i) @ enc32 (sfi_indirect i) @ sfi_waste i"
    "drop 6 (inode_bytes i) = enc16 (sfi_linkcount i) @ enc32s (sfi_direct i) @
      enc32 (sfi_indirect i) @ sfi_waste i"
    "drop 8 (inode_bytes i) = enc32s (sfi_direct i) @ enc32 (sfi_indirect i) @ sfi_waste i"
    "drop 68 (inode_bytes i) = enc32 (sfi_indirect i) @ sfi_waste i"
    "drop 72 (inode_bytes i) = sfi_waste i"
    using assms(4) by (simp_all add: inode_bytes_def)
  with assms dec32s_enc32s [of "sfi_direct i" "enc32 (sfi_indirect i) @ sfi_waste i"] show ?thesis
    by (simp add: inode_of_bytes_def dec16_enc16 dec32_enc32)
       (simp add: inode_bytes_def dec32_enc32)
qed

lemma length_inode_bytes:
  "length (sfi_direct i) = 15 \<Longrightarrow> length (sfi_waste i) = 440 \<Longrightarrow> length (inode_bytes i) = 512"
  by (simp add: inode_bytes_def)

lemma super_roundtrip:
  assumes "sp_magic p < 2 ^ 32" "sp_nblocks p < 2 ^ 32" "length (sp_volname p) = 32" "length (sp_reserved p) = 472"
  shows "super_of_bytes (super_bytes p) = p"
proof -
  have "drop 4 (super_bytes p) = enc32 (sp_nblocks p) @ sp_volname p @ sp_reserved p"
    "drop 8 (super_bytes p) = sp_volname p @ sp_reserved p" "drop 40 (super_bytes p) = sp_reserved p"
    using assms by (simp_all add: super_bytes_def)
  with assms show ?thesis
    by (simp add: super_of_bytes_def dec32_enc32) (simp add: super_bytes_def dec32_enc32)
qed

section \<open>Consistency\<close>

text \<open>The space of the file system: blocks past its end and the superblock count as used.\<close>

definition space_ok :: "sfs \<Rightarrow> bool" where
  "space_ok s \<longleftrightarrow> disk_ok (sfs_device s) \<and> sp_nblocks (sfs_super s) \<le> lh_blocks (sfs_device s) \<and>
     bitmap_inv (sfs_freemap s) \<and> sp_nblocks (sfs_super s) \<le> bm_nbits (sfs_freemap s) \<and>
     {sp_nblocks (sfs_super s)..<bm_nbits (sfs_freemap s)} \<subseteq> marked (sfs_freemap s) \<and>
     0 \<in> marked (sfs_freemap s)"

abbreviation used :: "sfs \<Rightarrow> nat set" where
  "used s \<equiv> marked (sfs_freemap s)"

abbreviation block :: "sfs \<Rightarrow> nat \<Rightarrow> u8 list" where
  "block s \<equiv> lh_sect (sfs_device s)"

text \<open>The blocks a file refers to: data blocks, the indirect block, and what it refers to.\<close>

definition indirect_blocks :: "(nat \<Rightarrow> u8 list) \<Rightarrow> sfs_inode \<Rightarrow> nat list" where
  "indirect_blocks C i = (if sfi_indirect i = 0 then [] else
     sfi_indirect i # filter (\<lambda>b. b \<noteq> 0) (dec32s SFS_DBPERIDB (C (sfi_indirect i))))"

definition file_blocks :: "(nat \<Rightarrow> u8 list) \<Rightarrow> sfs_inode \<Rightarrow> nat list" where
  "file_blocks C i = filter (\<lambda>b. b \<noteq> 0) (sfi_direct i) @ indirect_blocks C i"

text \<open>The disk block behind a block of a file; 0 for a hole.\<close>

definition block_at :: "(nat \<Rightarrow> u8 list) \<Rightarrow> sfs_inode \<Rightarrow> nat \<Rightarrow> nat" where
  "block_at C i fb =
     (if fb < SFS_NDIRECT then sfi_direct i ! fb
      else if sfi_indirect i = 0 then 0
      else dec32s SFS_DBPERIDB (C (sfi_indirect i)) ! (fb - SFS_NDIRECT))"

abbreviation MAXBLOCKS :: nat where "MAXBLOCKS \<equiv> 143"

text \<open>
  Every loaded file is well formed, its blocks are in range, in use and pairwise distinct, and
  no two files share a block; an inode block is never a block of a file.
\<close>

definition vnodes_ok :: "sfs \<Rightarrow> bool" where
  "vnodes_ok s \<longleftrightarrow>
     (\<forall>v sv. sfs_vn s v = Some sv \<longrightarrow> length (sfi_direct (sv_i sv)) = SFS_NDIRECT \<and>
        distinct (file_blocks (block s) (sv_i sv)) \<and>
        set (file_blocks (block s) (sv_i sv)) \<subseteq> used s \<inter> {..<sp_nblocks (sfs_super s)} \<and>
        sv_ino sv \<in> used s \<inter> {..<sp_nblocks (sfs_super s)}) \<and>
     (\<forall>v w sv sw. v \<noteq> w \<longrightarrow> sfs_vn s v = Some sv \<longrightarrow> sfs_vn s w = Some sw \<longrightarrow>
        set (file_blocks (block s) (sv_i sv)) \<inter> set (file_blocks (block s) (sv_i sw)) = {} \<and>
        sv_ino sv \<noteq> sv_ino sw) \<and>
     (\<forall>v w sv sw. sfs_vn s v = Some sv \<longrightarrow> sfs_vn s w = Some sw \<longrightarrow>
        sv_ino sv \<notin> set (file_blocks (block s) (sv_i sw)))"

definition fs_inv :: "sfs \<Rightarrow> bool" where
  "fs_inv s \<longleftrightarrow> space_ok s \<and> vnodes_ok s"

section \<open>Space allocation is correct\<close>

lemma fs_rblock_ok:
  assumes "space_ok s" "b < sp_nblocks (sfs_super s)"
  shows "\<exists>d. fs_rblock b s = Ret (block s b) (s\<lparr>sfs_device := d\<rparr>) \<and> disk_ok d \<and> lh_sect d = block s \<and>
             lh_blocks d = lh_blocks (sfs_device s)"
  using lhd_disk.rblock [of "sfs_device s" b] assms by (auto simp: fs_rblock_def space_ok_def)

lemma fs_wblock_ok:
  assumes "space_ok s" "b < sp_nblocks (sfs_super s)" "length data = 512"
  shows "\<exists>d. fs_wblock data b s = Ret () (s\<lparr>sfs_device := d\<rparr>) \<and> disk_ok d \<and>
             lh_sect d = (block s)(b := data) \<and> lh_blocks d = lh_blocks (sfs_device s)"
  using lhd_disk.wblock [of "sfs_device s" b data] assms by (auto simp: fs_wblock_def space_ok_def)

text \<open>Allocation either fails without a free block, or hands out a cleared block nobody uses.\<close>

lemma sfs_balloc_ok:
  assumes sp: "space_ok s"
  shows "if {..<sp_nblocks (sfs_super s)} \<subseteq> used s then sfs_balloc s = Err ENOSPC s
         else \<exists>b fm d. sfs_balloc s = Ret b (s\<lparr>sfs_freemap := fm, sfs_freemapdirty := True, sfs_device := d\<rparr>) \<and>
                0 < b \<and> b < sp_nblocks (sfs_super s) \<and> b \<notin> used s \<and> marked fm = insert b (used s) \<and>
                lh_sect d = (block s)(b := replicate 512 0) \<and>
                space_ok (s\<lparr>sfs_freemap := fm, sfs_freemapdirty := True, sfs_device := d\<rparr>)"
proof (cases "used s = {..<bm_nbits (sfs_freemap s)}")
  case True
  moreover have "{..<sp_nblocks (sfs_super s)} \<subseteq> {..<bm_nbits (sfs_freemap s)}"
    using sp by (auto simp: space_ok_def)
  moreover have "bitmap_alloc (sfs_freemap s) = Err ENOSPC (sfs_freemap s)"
    using kern_bitmap.alloc_full [of "sfs_freemap s"] True sp by (simp add: space_ok_def)
  ultimately show ?thesis by (simp add: sfs_balloc_def)
next
  case False
  then obtain b fm where a: "bitmap_alloc (sfs_freemap s) = Ret b fm" "b < bm_nbits (sfs_freemap s)"
      "b \<notin> used s" "bitmap_inv fm" "marked fm = insert b (used s)" "bm_nbits fm = bm_nbits (sfs_freemap s)"
    using kern_bitmap.alloc [of "sfs_freemap s"] sp by (auto simp: space_ok_def)
  have b: "0 < b" using a sp by (auto simp: space_ok_def intro: gr0I)
  have "b \<notin> {sp_nblocks (sfs_super s)..<bm_nbits (sfs_freemap s)}" using a sp by (auto simp: space_ok_def)
  then have b: "0 < b" "b < sp_nblocks (sfs_super s)" using a b by auto
  have nf: "\<not> {..<sp_nblocks (sfs_super s)} \<subseteq> used s" using a b by auto
  let ?s = "s\<lparr>sfs_freemap := fm, sfs_freemapdirty := True\<rparr>"
  have sp': "space_ok ?s" using sp a by (auto simp: space_ok_def)
  obtain d where d: "fs_wblock (replicate 512 0) b ?s = Ret () (?s\<lparr>sfs_device := d\<rparr>)" "disk_ok d"
      "lh_sect d = (block s)(b := replicate 512 0)" "lh_blocks d = lh_blocks (sfs_device s)"
    using fs_wblock_ok [OF sp', of b "replicate 512 0"] b by auto
  have "sfs_balloc s = Ret b (?s\<lparr>sfs_device := d\<rparr>)"
    using a b d by (simp add: sfs_balloc_def sfs_clearblock_def Let_def)
  moreover have "space_ok (?s\<lparr>sfs_device := d\<rparr>)" using sp' d by (simp add: space_ok_def)
  ultimately show ?thesis using nf a b d by auto
qed

lemma sfs_bused_ok:
  assumes "space_ok s" "b < sp_nblocks (sfs_super s)"
  shows "sfs_bused b s = Ret (b \<in> used s) s"
  using assms kern_bitmap.isset [of "sfs_freemap s" b] by (simp add: sfs_bused_def space_ok_def)

lemma sfs_bfree_ok:
  assumes sp: "space_ok s" and b: "b \<in> used s" "b \<noteq> 0" "b < sp_nblocks (sfs_super s)"
  shows "\<exists>fm. sfs_bfree b s = Ret () (s\<lparr>sfs_freemap := fm, sfs_freemapdirty := True\<rparr>) \<and>
              marked fm = used s - {b} \<and> space_ok (s\<lparr>sfs_freemap := fm, sfs_freemapdirty := True\<rparr>)"
proof -
  obtain fm where "bitmap_unmark b (sfs_freemap s) = Ret () fm" "bitmap_inv fm" "marked fm = used s - {b}"
      "bm_nbits fm = bm_nbits (sfs_freemap s)"
    using kern_bitmap.unmark [of "sfs_freemap s" b] sp b by (auto simp: space_ok_def)
  then show ?thesis using sp b by (intro exI [of _ fm]) (auto simp: sfs_bfree_def space_ok_def)
qed

lemma hand_back_ok:
  assumes "space_ok s" "b = 0 \<or> b \<in> used s \<and> b < sp_nblocks (sfs_super s)"
  shows "hand_back b s = Ret b s"
  using assms by (auto simp: hand_back_def sfs_bused_ok)

section \<open>Properties\<close>

text \<open>
  A sample volume: 16 blocks, the first eight in use, and one loaded file of 600 bytes whose two
  blocks are 4 and 5.
\<close>

definition sample_inode :: sfs_inode where
  "sample_inode = \<lparr>sfi_size = 600, sfi_type = SFS_TYPE_FILE, sfi_linkcount = 1,
     sfi_direct = 4 # 5 # replicate 13 0, sfi_indirect = 0, sfi_waste = replicate 440 0\<rparr>"

definition sample_super :: sfs_super where
  "sample_super = \<lparr>sp_magic = SFS_MAGIC, sp_nblocks = 16, sp_volname = replicate 32 0, sp_reserved = replicate 472 0\<rparr>"

definition sample_fs :: "int \<Rightarrow> nat \<Rightarrow> uio_rw \<Rightarrow> sfs" where
  "sample_fs off n rw = \<lparr>sfs_device = sample_disk (\<lambda>_. False), sfs_super = sample_super, sfs_superdirty = False,
     sfs_freemap = \<lparr>bm_nbits = 16, bm_v = [- 1, 0]\<rparr>, sfs_freemapdirty = False,
     sfs_vnodes = \<lparr>a_num = 1, a_max = 1, a_v = Some [Some 0]\<rparr>,
     sfs_vn = [0 \<mapsto> \<lparr>sv_ops = File_ops, sv_refcount = 1, sv_opencount = 0, sv_countlock = free_lock, sv_i = sample_inode, sv_ino = 3, sv_dirty = False\<rparr>],
     sfs_req = \<lparr>io_uio = sample_uio 0x80001000 UIO_SYSSPACE None off n rw, io_mem = sample_mem\<rparr>, sfs_kmem = (\<lambda>n. Some (Suc n, free_lock))\<rparr>"

lemma sample_fs_used: "used (sample_fs off n rw) = {..<8}"
proof -
  have "bit_at [- 1, 0 :: u8] i \<longleftrightarrow> i < 8" if "i < 16" for i
    using that by (cases "i < 8") (auto simp: bit_at_def div_nat_eqI)
  then show ?thesis by (auto simp: sample_fs_def marked_def)
qed

lemma sample_fs_space: "space_ok (sample_fs off n rw)"
proof -
  have "space_ok (sample_fs off n rw) \<longleftrightarrow> disk_ok (sample_disk (\<lambda>_. False)) \<and> bitmap_inv \<lparr>bm_nbits = 16, bm_v = [- 1, 0]\<rparr> \<and>
      0 \<in> used (sample_fs off n rw)"
    by (simp add: space_ok_def) (simp add: sample_fs_def sample_super_def sample_disk_def)
  moreover have "bitmap_inv \<lparr>bm_nbits = 16, bm_v = [- 1, 0]\<rparr>" by (simp add: bitmap_inv_def bitmap_words_def)
  ultimately show ?thesis using sample_disk_ok sample_fs_used by simp
qed

lemma sample_fs_inv: "fs_inv (sample_fs off n rw)"
proof -
  have "file_blocks C sample_inode = [4, 5]" for C
    by (simp add: file_blocks_def indirect_blocks_def sample_inode_def)
  moreover have "sfs_vn (sample_fs off n rw) v = Some sv \<Longrightarrow> v = 0 \<and> sv_i sv = sample_inode \<and> sv_ino sv = 3" for v sv
    by (auto simp: sample_fs_def split: if_splits)
  moreover have "length (sfi_direct sample_inode) = 15" "sp_nblocks (sfs_super (sample_fs off n rw)) = 16"
    by (simp_all add: sample_inode_def sample_fs_def sample_super_def)
  ultimately have "vnodes_ok (sample_fs off n rw)"
    unfolding vnodes_ok_def sample_fs_used by (intro conjI allI impI; fastforce)
  then show ?thesis using sample_fs_space by (simp add: fs_inv_def)
qed

text \<open>
  C26. \<^verbatim>\<open>sfs_balloc\<close> fails with \<^verbatim>\<open>ENOSPC\<close> exactly when no block of the volume is free; otherwise it hands
  out a block that was not in use, marks it, and has cleared it on disk.
\<close>

theorem sfs_balloc_hands_out_free_blocks:
  assumes "space_ok s"
  shows "if {..<sp_nblocks (sfs_super s)} \<subseteq> used s then sfs_balloc s = Err ENOSPC s
         else \<exists>b s'. sfs_balloc s = Ret b s' \<and> 0 < b \<and> b < sp_nblocks (sfs_super s) \<and> b \<notin> used s \<and>
                used s' = insert b (used s) \<and> block s' = (block s)(b := replicate 512 0) \<and> space_ok s'"
proof (cases "{..<sp_nblocks (sfs_super s)} \<subseteq> used s")
  case False
  then obtain b fm d where "sfs_balloc s = Ret b (s\<lparr>sfs_freemap := fm, sfs_freemapdirty := True, sfs_device := d\<rparr>)"
      "0 < b" "b < sp_nblocks (sfs_super s)" "b \<notin> used s" "marked fm = insert b (used s)"
      "lh_sect d = (block s)(b := replicate 512 0)"
      "space_ok (s\<lparr>sfs_freemap := fm, sfs_freemapdirty := True, sfs_device := d\<rparr>)"
    using sfs_balloc_ok [OF assms] unfolding if_not_P [OF False] by blast
  then show ?thesis using False by simp
qed (use sfs_balloc_ok [OF assms] in simp)

theorem sfs_balloc_hands_out_free_blocks_witness:
  "\<exists>b s'. sfs_balloc (sample_fs 0 0 UIO_READ) = Ret b s' \<and> 8 \<le> b \<and> b < 16"
proof -
  let ?s = "sample_fs 0 0 UIO_READ"
  have n: "sp_nblocks (sfs_super ?s) = 16" by (simp add: sample_fs_def sample_super_def)
  then have "\<not> {..<sp_nblocks (sfs_super ?s)} \<subseteq> used ?s" unfolding sample_fs_used by auto
  with sfs_balloc_hands_out_free_blocks [OF sample_fs_space [of 0 0 UIO_READ]] n
  obtain b s' where "sfs_balloc ?s = Ret b s'" "b < 16" "b \<notin> used ?s" by auto
  then show ?thesis unfolding sample_fs_used by auto
qed

end
