(* ===== verification/Sfs_Bmap.thy ===== *)
theory Sfs_Bmap
  imports Sfs_Core
begin

text \<open>
  Correctness of the block map \<^verbatim>\<open>sfs_bmap\<close>: looking a block up is a function of the inode and
  the indirect block, and allocating keeps the file system consistent, maps exactly the
  block asked for, and changes no other mapping of any file.
\<close>

section \<open>Blocks of a file\<close>

lemma file_blocks_cong:
  "sfi_indirect i \<noteq> 0 \<Longrightarrow> C' (sfi_indirect i) = C (sfi_indirect i) \<Longrightarrow> file_blocks C' i = file_blocks C i"
  "sfi_indirect i = 0 \<Longrightarrow> file_blocks C' i = file_blocks C i"
  by (simp_all add: file_blocks_def indirect_blocks_def)

lemma indirect_in_blocks: "sfi_indirect i \<noteq> 0 \<Longrightarrow> sfi_indirect i \<in> set (file_blocks C i)"
  by (simp add: file_blocks_def indirect_blocks_def)

text \<open>Writing a block that the file does not refer to leaves its blocks alone.\<close>

lemma file_blocks_upd: "b \<notin> set (file_blocks C i) \<Longrightarrow> file_blocks (C(b := data)) i = file_blocks C i"
  using indirect_in_blocks [of i C] file_blocks_cong [of i "C(b := data)" C]
  by (cases "sfi_indirect i = 0"; cases "sfi_indirect i = b") auto

lemma block_at_in_blocks:
  assumes "length (sfi_direct i) = 15" "fb < MAXBLOCKS" "block_at C i fb \<noteq> 0"
  shows "block_at C i fb \<in> set (file_blocks C i)"
proof (cases "fb < 15")
  case True
  then show ?thesis using assms by (auto simp: block_at_def file_blocks_def)
next
  case False
  then have "dec32s 128 (C (sfi_indirect i)) ! (fb - 15) \<in> set (dec32s 128 (C (sfi_indirect i)))"
    using assms by (intro nth_mem) simp
  then show ?thesis using False assms by (auto simp: block_at_def file_blocks_def indirect_blocks_def)
qed

lemma mset_filter_upd:
  assumes "k < length xs" "xs ! k = 0" "b \<noteq> (0::nat)"
  shows "mset (filter (\<lambda>b. b \<noteq> 0) (xs[k := b])) = add_mset b (mset (filter (\<lambda>b. b \<noteq> 0) xs))"
  using assms
proof (induction xs arbitrary: k)
  case (Cons x xs)
  then show ?case by (cases k) auto
qed simp

lemma fs_inv_vnode:
  assumes "fs_inv s" "sfs_vn s v = Some sv"
  shows "length (sfi_direct (sv_i sv)) = 15" "distinct (file_blocks (block s) (sv_i sv))"
    "set (file_blocks (block s) (sv_i sv)) \<subseteq> used s \<inter> {..<sp_nblocks (sfs_super s)}"
    "sv_ino sv \<in> used s \<inter> {..<sp_nblocks (sfs_super s)}"
  using assms unfolding fs_inv_def vnodes_ok_def by blast+

lemma fs_inv_space: "fs_inv s \<Longrightarrow> space_ok s"
  by (simp add: fs_inv_def)

lemma fs_inv_other:
  assumes "fs_inv s" "sfs_vn s v = Some sv" "sfs_vn s w = Some sw"
  shows "v \<noteq> w \<Longrightarrow> set (file_blocks (block s) (sv_i sv)) \<inter> set (file_blocks (block s) (sv_i sw)) = {}"
    "v \<noteq> w \<Longrightarrow> sv_ino sv \<noteq> sv_ino sw" "sv_ino sv \<notin> set (file_blocks (block s) (sv_i sw))"
  using assms unfolding fs_inv_def vnodes_ok_def by blast+

section \<open>Consistency when a file grows\<close>

lemma vnodes_ok_grow:
  assumes inv: "fs_inv s" and v: "sfs_vn s v = Some sv"
    and s': "sfs_vn s' = (sfs_vn s)(v \<mapsto> sv')" "sfs_super s' = sfs_super s" "used s' = used s \<union> set N"
    and sv': "sv_ino sv' = sv_ino sv" "length (sfi_direct (sv_i sv')) = 15"
      "mset (file_blocks (block s') (sv_i sv')) = mset (file_blocks (block s) (sv_i sv)) + mset N"
    and N: "distinct N" "set N \<inter> used s = {}" "set N \<subseteq> {..<sp_nblocks (sfs_super s)}"
    and oth: "\<And>w sw. w \<noteq> v \<Longrightarrow> sfs_vn s w = Some sw \<Longrightarrow>
      file_blocks (block s') (sv_i sw) = file_blocks (block s) (sv_i sw)"
  shows "vnodes_ok s'"
proof -
  note fv = fs_inv_vnode [OF inv] and fo = fs_inv_other [OF inv]
  let ?F = "\<lambda>s i. set (file_blocks (block s) i)"
  have set': "?F s' (sv_i sv') = ?F s (sv_i sv) \<union> set N" using sv'(3) by (metis set_mset_mset set_mset_union)
  have "distinct (file_blocks (block s) (sv_i sv) @ N)"
    using fv [OF v] N by auto
  then have dist': "distinct (file_blocks (block s') (sv_i sv'))"
    using sv'(3) by (metis mset_append mset_eq_imp_distinct_iff)
  have key: "\<exists>sw0. sfs_vn s w = Some sw0 \<and> sv_ino sw = sv_ino sw0 \<and>
      ?F s' (sv_i sw) = ?F s (sv_i sw0) \<union> (if w = v then set N else {}) \<and>
      length (sfi_direct (sv_i sw)) = 15 \<and> distinct (file_blocks (block s') (sv_i sw))"
    if w: "sfs_vn s' w = Some sw" for w sw
  proof (cases "w = v")
    case True
    then show ?thesis using w s'(1) v sv'(1,2) set' dist' by simp
  next
    case False
    then have sw: "sfs_vn s w = Some sw" using w s'(1) by simp
    with False oth [OF False sw] fv [OF sw] show ?thesis by simp
  qed
  show ?thesis
    unfolding vnodes_ok_def s'(2)
  proof (intro conjI allI impI)
    fix w sw assume w: "sfs_vn s' w = Some sw"
    obtain sw0 where k: "sfs_vn s w = Some sw0" "sv_ino sw = sv_ino sw0"
      "?F s' (sv_i sw) = ?F s (sv_i sw0) \<union> (if w = v then set N else {})"
      "length (sfi_direct (sv_i sw)) = 15" "distinct (file_blocks (block s') (sv_i sw))"
      using key [OF w] by auto
    show "length (sfi_direct (sv_i sw)) = SFS_NDIRECT" "distinct (file_blocks (block s') (sv_i sw))"
      using k by simp_all
    show "?F s' (sv_i sw) \<subseteq> used s' \<inter> {..<sp_nblocks (sfs_super s)}"
      using fv(3) [OF k(1)] N(3) unfolding k(3) s'(3) by (simp split: if_splits) blast
    show "sv_ino sw \<in> used s' \<inter> {..<sp_nblocks (sfs_super s)}"
      using fv(4) [OF k(1)] k(2) s'(3) by simp
  next
    fix a b sa sb assume ab: "a \<noteq> b" "sfs_vn s' a = Some sa" "sfs_vn s' b = Some sb"
    obtain sa0 sb0 where k: "sfs_vn s a = Some sa0" "sv_ino sa = sv_ino sa0"
      "?F s' (sv_i sa) = ?F s (sv_i sa0) \<union> (if a = v then set N else {})"
      "sfs_vn s b = Some sb0" "sv_ino sb = sv_ino sb0"
      "?F s' (sv_i sb) = ?F s (sv_i sb0) \<union> (if b = v then set N else {})"
      using key [OF ab(2)] key [OF ab(3)] by auto
    have "?F s (sv_i sa0) \<subseteq> used s" "?F s (sv_i sb0) \<subseteq> used s" using fv(3) k(1,4) by blast+
    then show "?F s' (sv_i sa) \<inter> ?F s' (sv_i sb) = {}"
      using fo(1) [OF k(1,4) ab(1)] N(2) ab(1) unfolding k(3,6) by (simp split: if_splits) blast+
    show "sv_ino sa \<noteq> sv_ino sb" using fo(2) [OF k(1,4) ab(1)] k by simp
  next
    fix a b sa sb assume ab: "sfs_vn s' a = Some sa" "sfs_vn s' b = Some sb"
    obtain sa0 sb0 where k: "sfs_vn s a = Some sa0" "sv_ino sa = sv_ino sa0" "sfs_vn s b = Some sb0"
      "?F s' (sv_i sb) = ?F s (sv_i sb0) \<union> (if b = v then set N else {})"
      using key [OF ab(1)] key [OF ab(2)] by auto
    have "sv_ino sa0 \<in> used s" using fv(4) [OF k(1)] by simp
    then show "sv_ino sa \<notin> ?F s' (sv_i sb)"
      using fo(3) [OF k(1,3)] N(2) unfolding k(2,4) by (simp split: if_splits) blast
  qed
qed

section \<open>Looking a block up\<close>

lemma mapped_ok:
  assumes "fs_inv s" "sfs_vn s v = Some sv" "fb < MAXBLOCKS"
  shows "block_at (block s) (sv_i sv) fb = 0 \<or>
    block_at (block s) (sv_i sv) fb \<in> used s \<and> block_at (block s) (sv_i sv) fb < sp_nblocks (sfs_super s)"
  using block_at_in_blocks [OF fs_inv_vnode(1) [OF assms(1,2)] assms(3)] fs_inv_vnode(3) [OF assms(1,2)]
  by auto

lemma indirect_ok:
  assumes "fs_inv s" "sfs_vn s v = Some sv" "sfi_indirect (sv_i sv) \<noteq> 0"
  shows "sfi_indirect (sv_i sv) \<in> used s" "sfi_indirect (sv_i sv) < sp_nblocks (sfs_super s)"
  using indirect_in_blocks [OF assms(3), of "block s"] fs_inv_vnode(3) [OF assms(1,2)] by auto

lemma space_ok_device:
  "space_ok s \<Longrightarrow> disk_ok d \<Longrightarrow> lh_blocks d = lh_blocks (sfs_device s) \<Longrightarrow> space_ok (s\<lparr>sfs_device := d\<rparr>)"
  by (simp add: space_ok_def)

lemma fs_inv_device:
  "fs_inv s \<Longrightarrow> disk_ok d \<Longrightarrow> lh_blocks d = lh_blocks (sfs_device s) \<Longrightarrow> lh_sect d = block s \<Longrightarrow>
   fs_inv (s\<lparr>sfs_device := d\<rparr>)"
  by (simp add: fs_inv_def space_ok_device vnodes_ok_def)

text \<open>A state that differs only in the state of the device, not in what is on it.\<close>

definition same_fs :: "sfs \<Rightarrow> sfs \<Rightarrow> bool" where
  "same_fs s s' \<longleftrightarrow> (\<exists>d. s' = s\<lparr>sfs_device := d\<rparr> \<and> disk_ok d \<and> lh_sect d = block s \<and>
     lh_blocks d = lh_blocks (sfs_device s))"

lemma same_fs_refl: "space_ok s \<Longrightarrow> same_fs s s"
  by (auto simp: same_fs_def space_ok_def intro: exI [of _ "sfs_device s"])

lemma same_fs_inv: "same_fs s s' \<Longrightarrow> fs_inv s \<Longrightarrow> fs_inv s'"
  by (auto simp: same_fs_def intro: fs_inv_device)

lemma sfs_bmap_lookup:
  assumes inv: "fs_inv s" and v: "sfs_vn s v = Some sv" and fb: "fb < MAXBLOCKS"
  shows "\<exists>s'. sfs_bmap v fb False s = Ret (block_at (block s) (sv_i sv) fb) s' \<and> same_fs s s'"
proof -
  note sp = fs_inv_space [OF inv]
  consider (direct) "fb < 15" | (hole) "\<not> fb < 15" "sfi_indirect (sv_i sv) = 0"
    | (indirect) "\<not> fb < 15" "sfi_indirect (sv_i sv) \<noteq> 0" by blast
  then show ?thesis
  proof cases
    case direct
    then show ?thesis
      using hand_back_ok [OF sp mapped_ok [OF inv v fb]] v same_fs_refl [OF sp]
      by (auto simp: sfs_bmap_def bmap_direct_def with_vn_def Let_def block_at_def)
  next
    case hole
    then show ?thesis
      using fb v same_fs_refl [OF sp]
      by (auto simp: sfs_bmap_def bmap_indirect_def with_vn_def Let_def block_at_def)
  next
    case indirect
    let ?id = "sfi_indirect (sv_i sv)"
    obtain d where d: "fs_rblock ?id s = Ret (block s ?id) (s\<lparr>sfs_device := d\<rparr>)" "disk_ok d"
        "lh_sect d = block s" "lh_blocks d = lh_blocks (sfs_device s)"
      using fs_rblock_ok [OF sp indirect_ok(2) [OF inv v indirect(2)]] by blast
    let ?s = "s\<lparr>sfs_device := d\<rparr>"
    have "block_at (block s) (sv_i sv) fb = dec32s 128 (block s ?id) ! (fb - 15)"
      using indirect by (simp add: block_at_def)
    moreover have "hand_back (block_at (block s) (sv_i sv) fb) ?s = Ret (block_at (block s) (sv_i sv) fb) ?s"
      using mapped_ok [OF inv v fb] by (intro hand_back_ok space_ok_device [OF sp d(2,4)]) auto
    ultimately show ?thesis
      using indirect fb v d
      by (auto simp: sfs_bmap_def bmap_indirect_def with_vn_def Let_def same_fs_def)
  qed
qed

lemma sfs_bmap_too_big:
  assumes "MAXBLOCKS \<le> fb" "sfs_vn s v = Some sv"
  shows "sfs_bmap v fb doalloc s = Err EINVAL s"
proof -
  have "0 < (fb - 15) div 128" "\<not> fb < 15" using assms(1) by (auto simp: div_greater_zero_iff)
  with assms(2) show ?thesis by (simp add: sfs_bmap_def Let_def)
qed

section \<open>Allocating a block\<close>

text \<open>
  What an allocating call has done when it returns block \<open>b\<close> for block \<open>fb\<close> of file \<open>v\<close>: the file
  system is consistent, \<open>fb\<close> is mapped to \<open>b\<close>, all other mappings of the file are as before,
  other files are untouched, and so is every block in use except the file's indirect block.
\<close>

definition bmapped :: "vref \<Rightarrow> nat \<Rightarrow> nat \<Rightarrow> sfs \<Rightarrow> sfs \<Rightarrow> bool" where
  "bmapped v fb b s s' \<longleftrightarrow> fs_inv s' \<and> b \<noteq> 0 \<and> used s \<subseteq> used s' \<and> sfs_super s' = sfs_super s \<and>
     sfs_req s' = sfs_req s \<and> sfs_vnodes s' = sfs_vnodes s \<and> sfs_kmem s' = sfs_kmem s \<and>
     (\<forall>w. w \<noteq> v \<longrightarrow> sfs_vn s' w = sfs_vn s w) \<and>
     (\<exists>sv sv'. sfs_vn s v = Some sv \<and> sfs_vn s' v = Some sv' \<and>
        sv' = sv\<lparr>sv_i := (sv_i sv)\<lparr>sfi_direct := sfi_direct (sv_i sv'), sfi_indirect := sfi_indirect (sv_i sv')\<rparr>,
                 sv_dirty := sv_dirty sv'\<rparr> \<and>
        (sfi_indirect (sv_i sv') = sfi_indirect (sv_i sv) \<or> sfi_indirect (sv_i sv') \<notin> used s) \<and>
        block_at (block s') (sv_i sv') fb = b \<and>
        (\<forall>k < MAXBLOCKS. k \<noteq> fb \<longrightarrow> block_at (block s') (sv_i sv') k = block_at (block s) (sv_i sv) k) \<and>
        (\<forall>x \<in> used s. x = 0 \<or> x \<noteq> sfi_indirect (sv_i sv) \<longrightarrow> block s' x = block s x) \<and>
        (if block_at (block s) (sv_i sv) fb = 0 then b \<notin> used s \<and> block s' b = replicate 512 0
         else b = block_at (block s) (sv_i sv) fb \<and> block s' = block s))"

text \<open>The case in which the block was a hole before.\<close>

lemma bmappedI:
  assumes "fs_inv s'" "b \<noteq> 0" "used s \<subseteq> used s'" "sfs_super s' = sfs_super s" "sfs_req s' = sfs_req s"
    "sfs_vnodes s' = sfs_vnodes s" "sfs_kmem s' = sfs_kmem s" "\<And>w. w \<noteq> v \<Longrightarrow> sfs_vn s' w = sfs_vn s w"
    and vn: "sfs_vn s v = Some sv" "sfs_vn s' v = Some sv'"
    and sv': "sv' = sv\<lparr>sv_i := (sv_i sv)\<lparr>sfi_direct := sfi_direct (sv_i sv'), sfi_indirect := sfi_indirect (sv_i sv')\<rparr>,
                 sv_dirty := sv_dirty sv'\<rparr>"
    and ind: "sfi_indirect (sv_i sv') = sfi_indirect (sv_i sv) \<or> sfi_indirect (sv_i sv') \<notin> used s"
    and at: "\<And>k. k < MAXBLOCKS \<Longrightarrow> block_at (block s') (sv_i sv') k =
               (if k = fb then b else block_at (block s) (sv_i sv) k)" "fb < MAXBLOCKS"
    and keep: "\<And>x. x \<in> used s \<Longrightarrow> x = 0 \<or> x \<noteq> sfi_indirect (sv_i sv) \<Longrightarrow> block s' x = block s x"
    and new: "block_at (block s) (sv_i sv) fb = 0" "b \<notin> used s" "block s' b = replicate 512 0"
  shows "bmapped v fb b s s'"
  unfolding bmapped_def
  using assms(1-8) keep
  by (intro conjI exI [of _ sv] exI [of _ sv'] vn sv' ind ballI impI allI)
     (use at new in auto)

lemma bmapped_lookup:
  assumes "fs_inv s" "sfs_vn s v = Some sv" "same_fs s s'" "block_at (block s) (sv_i sv) fb = b" "b \<noteq> 0"
  shows "bmapped v fb b s s'"
proof -
  obtain d where d: "s' = s\<lparr>sfs_device := d\<rparr>" "lh_sect d = block s" using assms(3) by (auto simp: same_fs_def)
  show ?thesis using assms same_fs_inv [OF assms(3,1)] d by (simp add: bmapped_def)
qed

text \<open>The state after a successful \<^verbatim>\<open>sfs_balloc\<close>.\<close>

definition balloced :: "nat \<Rightarrow> sfs \<Rightarrow> sfs \<Rightarrow> bool" where
  "balloced b s s' \<longleftrightarrow> (\<exists>fm d. s' = s\<lparr>sfs_freemap := fm, sfs_freemapdirty := True, sfs_device := d\<rparr> \<and>
     marked fm = insert b (used s) \<and> lh_sect d = (block s)(b := replicate 512 0)) \<and>
     0 < b \<and> b < sp_nblocks (sfs_super s) \<and> b \<notin> used s \<and> space_ok s'"

lemma balloc_cases:
  assumes "space_ok s"
  obtains (full) "sfs_balloc s = Err ENOSPC s" "{..<sp_nblocks (sfs_super s)} \<subseteq> used s"
    | (block) b s' where "sfs_balloc s = Ret b s'" "balloced b s s'"
  using sfs_balloc_ok [OF assms] unfolding balloced_def by (auto split: if_splits)

lemma balloced_simps:
  assumes "balloced b s s'"
  shows "sfs_vn s' = sfs_vn s" "sfs_super s' = sfs_super s" "used s' = insert b (used s)"
    "block s' = (block s)(b := replicate 512 0)" "sfs_req s' = sfs_req s" "sfs_vnodes s' = sfs_vnodes s"
    "sfs_kmem s' = sfs_kmem s"
proof -
  obtain fm d where "s' = s\<lparr>sfs_freemap := fm, sfs_freemapdirty := True, sfs_device := d\<rparr>"
    "marked fm = insert b (used s)" "lh_sect d = (block s)(b := replicate 512 0)"
    using assms unfolding balloced_def by blast
  then show "sfs_vn s' = sfs_vn s" "sfs_super s' = sfs_super s" "used s' = insert b (used s)"
    "block s' = (block s)(b := replicate 512 0)" "sfs_req s' = sfs_req s" "sfs_vnodes s' = sfs_vnodes s"
    "sfs_kmem s' = sfs_kmem s" by simp_all
qed

lemma upd_inode_simps [simp]:
  "sfs_super (upd_inode v f s) = sfs_super s" "sfs_freemap (upd_inode v f s) = sfs_freemap s"
  "sfs_device (upd_inode v f s) = sfs_device s" "sfs_req (upd_inode v f s) = sfs_req s"
  "sfs_vnodes (upd_inode v f s) = sfs_vnodes s" "sfs_kmem (upd_inode v f s) = sfs_kmem s"
  by (simp_all add: upd_inode_def upd_vn_def)

lemma upd_inode_vn:
  "sfs_vn s v = Some sv \<Longrightarrow>
   sfs_vn (upd_inode v f s) = (sfs_vn s)(v \<mapsto> sv\<lparr>sv_i := f (sv_i sv), sv_dirty := True\<rparr>)"
  by (simp add: upd_inode_def upd_vn_def)

lemma space_ok_upd_inode [simp]: "space_ok (upd_inode v f s) = space_ok s"
  by (simp add: space_ok_def)

text \<open>A fresh block belongs to no file.\<close>

lemma fresh_block:
  assumes "fs_inv s" "b \<notin> used s" "sfs_vn s w = Some sw"
  shows "file_blocks ((block s)(b := data)) (sv_i sw) = file_blocks (block s) (sv_i sw)"
    "b \<notin> set (file_blocks (block s) (sv_i sw))"
proof -
  show "b \<notin> set (file_blocks (block s) (sv_i sw))" using fs_inv_vnode(3) [OF assms(1,3)] assms(2) by blast
  then show "file_blocks ((block s)(b := data)) (sv_i sw) = file_blocks (block s) (sv_i sw)"
    by (rule file_blocks_upd)
qed

lemma indirect_fresh:
  assumes "fs_inv s" "b \<notin> used s" "sfs_vn s w = Some sw" "b \<noteq> 0"
  shows "sfi_indirect (sv_i sw) \<noteq> b"
  using indirect_ok(1) [OF assms(1,3)] assms(2,4) by auto

lemma bmap_direct_alloc:
  assumes inv: "fs_inv s" and v: "sfs_vn s v = Some sv" and fb: "fb < 15"
    and hole: "sfi_direct (sv_i sv) ! fb = 0" and ba: "balloced b s s1"
  shows "bmapped v fb b s (upd_inode v (\<lambda>i. i\<lparr>sfi_direct := (sfi_direct i)[fb := b]\<rparr>) s1)"
proof -
  let ?s = "upd_inode v (\<lambda>i. i\<lparr>sfi_direct := (sfi_direct i)[fb := b]\<rparr>) s1"
  let ?i = "(sv_i sv)\<lparr>sfi_direct := (sfi_direct (sv_i sv))[fb := b]\<rparr>"
  let ?sv = "sv\<lparr>sv_i := ?i, sv_dirty := True\<rparr>"
  note k = balloced_simps [OF ba]
  have b: "0 < b" "b < sp_nblocks (sfs_super s)" "b \<notin> used s" "space_ok s1" using ba by (auto simp: balloced_def)
  have vn: "sfs_vn ?s = (sfs_vn s)(v \<mapsto> ?sv)" using upd_inode_vn [of s1 v sv] v k by simp
  have len: "length (sfi_direct (sv_i sv)) = 15" using fs_inv_vnode(1) [OF inv v] .
  have ind: "sfi_indirect (sv_i sv) \<noteq> b" using indirect_fresh [OF inv b(3) v] b(1) by simp
  have ib: "indirect_blocks ((block s)(b := replicate 512 0)) ?i = indirect_blocks (block s) (sv_i sv)"
    using ind by (simp add: indirect_blocks_def)
  have "mset (file_blocks (block ?s) (sv_i ?sv)) = mset (file_blocks (block s) (sv_i sv)) + mset [b]"
    using ib k(4) mset_filter_upd [of fb "sfi_direct (sv_i sv)" b] len fb hole b(1) by (simp add: file_blocks_def)
  then have "vnodes_ok ?s"
    using k b len fresh_block(1) [OF inv b(3)]
    by (intro vnodes_ok_grow [OF inv v vn, of "[b]"]) simp_all
  then have "fs_inv ?s" using b(4) by (simp add: fs_inv_def)
  moreover have "block_at (block ?s) ?i fb' = (if fb' = fb then b else block_at (block s) (sv_i sv) fb')" for fb'
    using fb len ind k(4) by (simp add: block_at_def)
  moreover have "block_at (block s) (sv_i sv) fb = 0" using fb hole by (simp add: block_at_def)
  ultimately show ?thesis
    using k b v vn fb by (intro bmappedI [of ?s b s v sv ?sv fb]) auto
qed

lemma nblocks_small: "space_ok s \<Longrightarrow> b < sp_nblocks (sfs_super s) \<Longrightarrow> b < 2 ^ 32"
  by (auto simp: space_ok_def disk_ok_def)

text \<open>Entering a fresh block into the indirect block of a file.\<close>

lemma indirect_entry:
  assumes inv: "fs_inv s" and v: "sfs_vn s v = Some sv" and ib: "ib = sfi_indirect (sv_i sv)" "ib \<noteq> 0"
    and k: "k < 128" and E: "E = dec32s 128 (block s ib)" "E ! k = 0" and ba: "balloced b s s1"
  shows "\<exists>s'. fs_wblock (enc32s (E[k := b])) ib s1 = Ret () s' \<and> bmapped v (15 + k) b s s'"
proof -
  note m = balloced_simps [OF ba]
  have b: "0 < b" "b < sp_nblocks (sfs_super s)" "b \<notin> used s" "space_ok s1" using ba by (auto simp: balloced_def)
  have idb: "ib \<in> used s" "ib < sp_nblocks (sfs_super s)" "ib \<noteq> b"
    using indirect_ok [OF inv v] ib b by auto
  have lenE: "length E = 128" by (simp add: E)
  obtain d where d: "fs_wblock (enc32s (E[k := b])) ib s1 = Ret () (s1\<lparr>sfs_device := d\<rparr>)" "disk_ok d"
      "lh_sect d = (block s1)(ib := enc32s (E[k := b]))" "lh_blocks d = lh_blocks (sfs_device s1)"
    using fs_wblock_ok [OF b(4), of ib "enc32s (E[k := b])"] idb m(2) lenE by auto
  let ?s = "s1\<lparr>sfs_device := d\<rparr>"
  have blk: "block ?s = (block s)(b := replicate 512 0, ib := enc32s (E[k := b]))" using d(3) m(4) by simp
  have "\<forall>n\<in>set (E[k := b]). n < 2 ^ 32"
    using dec32s_less [of _ 128 "block s ib"] nblocks_small [OF fs_inv_space [OF inv] b(2)]
      set_update_subset_insert [of E k b] by (auto simp: E)
  then have decE: "dec32s 128 (enc32s (E[k := b])) = E[k := b]"
    using dec32s_enc32s [of "E[k := b]" "[]"] lenE by simp
  have fb_v: "mset (file_blocks (block ?s) (sv_i sv)) = mset (file_blocks (block s) (sv_i sv)) + mset [b]"
    using mset_filter_upd [of k E b] k lenE E b(1) ib blk decE
    by (simp add: file_blocks_def indirect_blocks_def)
  have oth: "file_blocks (block ?s) (sv_i sw) = file_blocks (block s) (sv_i sw)"
    if "w \<noteq> v" "sfs_vn s w = Some sw" for w sw
  proof -
    have "ib \<notin> set (file_blocks (block s) (sv_i sw))"
      using fs_inv_other(1) [OF inv v that(2)] that(1) indirect_in_blocks [of "sv_i sv" "block s"] ib by auto
    then show ?thesis
      unfolding blk using fresh_block(1) [OF inv b(3) that(2)] by (subst file_blocks_upd) simp_all
  qed
  have vn: "sfs_vn ?s = (sfs_vn s)(v \<mapsto> sv)" using m(1) v by auto
  have "vnodes_ok ?s"
    using m b fs_inv_vnode(1) [OF inv v] fb_v oth
    by (intro vnodes_ok_grow [OF inv v vn, of "[b]"]) simp_all
  then have inv': "fs_inv ?s" using space_ok_device [OF b(4) d(2,4)] by (simp add: fs_inv_def)
  have at: "block_at (block ?s) (sv_i sv) j = (if j = 15 + k then b else block_at (block s) (sv_i sv) j)"
    if "j < MAXBLOCKS" for j
    using that ib blk decE lenE k E by (auto simp: block_at_def nth_list_update)
  have "block_at (block s) (sv_i sv) (15 + k) = 0" using ib E by (simp add: block_at_def)
  then have "bmapped v (15 + k) b s ?s"
    using inv' m b v k at blk idb ib
    by (intro bmappedI [of ?s b s v sv sv "15 + k"]) auto
  with d(1) show ?thesis by blast
qed

text \<open>Giving a file an indirect block changes none of its mappings.\<close>

definition indirect_added :: "vref \<Rightarrow> nat \<Rightarrow> sfs \<Rightarrow> sfs \<Rightarrow> bool" where
  "indirect_added v ib s s' \<longleftrightarrow> fs_inv s' \<and> ib \<noteq> 0 \<and> ib \<notin> used s \<and> used s \<subseteq> used s' \<and> sfs_super s' = sfs_super s \<and>
     sfs_req s' = sfs_req s \<and> sfs_vnodes s' = sfs_vnodes s \<and> sfs_kmem s' = sfs_kmem s \<and>
     (\<forall>w. w \<noteq> v \<longrightarrow> sfs_vn s' w = sfs_vn s w) \<and>
     block s' = (block s)(ib := replicate 512 0) \<and>
     (\<forall>sv. sfs_vn s v = Some sv \<longrightarrow> sfi_indirect (sv_i sv) = 0 \<and>
        sfs_vn s' v = Some (sv\<lparr>sv_i := (sv_i sv)\<lparr>sfi_indirect := ib\<rparr>, sv_dirty := True\<rparr>))"

lemma indirect_add:
  assumes inv: "fs_inv s" and v: "sfs_vn s v = Some sv" and none: "sfi_indirect (sv_i sv) = 0"
    and ba: "balloced b s s1"
  shows "indirect_added v b s (upd_inode v (\<lambda>i. i\<lparr>sfi_indirect := b\<rparr>) s1)"
proof -
  let ?s = "upd_inode v (\<lambda>i. i\<lparr>sfi_indirect := b\<rparr>) s1"
  let ?sv = "sv\<lparr>sv_i := (sv_i sv)\<lparr>sfi_indirect := b\<rparr>, sv_dirty := True\<rparr>"
  note m = balloced_simps [OF ba]
  have b: "0 < b" "b < sp_nblocks (sfs_super s)" "b \<notin> used s" "space_ok s1" using ba by (auto simp: balloced_def)
  have vn: "sfs_vn ?s = (sfs_vn s)(v \<mapsto> ?sv)" using upd_inode_vn [of s1 v sv] v m by simp
  have "filter (\<lambda>x. x \<noteq> 0) (dec32s 128 (replicate 512 0)) = []" by (simp add: dec32s_zero)
  then have "mset (file_blocks (block ?s) (sv_i ?sv)) = mset (file_blocks (block s) (sv_i sv)) + mset [b]"
    using none m(4) b(1) by (simp add: file_blocks_def indirect_blocks_def)
  then have "vnodes_ok ?s"
    using m b fs_inv_vnode(1) [OF inv v] fresh_block(1) [OF inv b(3)]
    by (intro vnodes_ok_grow [OF inv v vn, of "[b]"]) simp_all
  then have "fs_inv ?s" using b(4) by (simp add: fs_inv_def)
  then show ?thesis using m b v vn none by (simp add: indirect_added_def) blast
qed

lemma indirect_added_at:
  assumes add: "indirect_added v ib s s'" and v: "sfs_vn s v = Some sv" "sfi_indirect (sv_i sv) = 0"
    and k: "k < MAXBLOCKS"
  shows "block_at (block s') ((sv_i sv)\<lparr>sfi_indirect := ib\<rparr>) k = block_at (block s) (sv_i sv) k"
proof -
  have "block s' ib = replicate 512 0" "ib \<noteq> 0" using add by (auto simp: indirect_added_def)
  then show ?thesis using v k by (simp add: block_at_def dec32s_zero)
qed

lemma bmapped_after_add:
  assumes inv: "fs_inv s" and v: "sfs_vn s v = Some sv" "sfi_indirect (sv_i sv) = 0"
    and add: "indirect_added v ib s s1" and fb: "fb < MAXBLOCKS"
    and hole: "block_at (block s) (sv_i sv) fb = 0" and bm: "bmapped v fb b s1 s2"
  shows "bmapped v fb b s s2"
proof -
  let ?sv = "sv\<lparr>sv_i := (sv_i sv)\<lparr>sfi_indirect := ib\<rparr>, sv_dirty := True\<rparr>"
  have a: "sfs_vn s1 v = Some ?sv" "used s \<subseteq> used s1" "ib \<notin> used s" "block s1 = (block s)(ib := replicate 512 0)"
    "sfs_super s1 = sfs_super s" "sfs_req s1 = sfs_req s" "sfs_vnodes s1 = sfs_vnodes s"
    "sfs_kmem s1 = sfs_kmem s" "\<And>w. w \<noteq> v \<Longrightarrow> sfs_vn s1 w = sfs_vn s w"
    using add v by (auto simp: indirect_added_def)
  note at = indirect_added_at [OF add v]
  obtain sv' where b: "sfs_vn s2 v = Some sv'"
      "sv' = ?sv\<lparr>sv_i := (sv_i ?sv)\<lparr>sfi_direct := sfi_direct (sv_i sv'), sfi_indirect := sfi_indirect (sv_i sv')\<rparr>,
                 sv_dirty := sv_dirty sv'\<rparr>"
      "sfi_indirect (sv_i sv') = ib \<or> sfi_indirect (sv_i sv') \<notin> used s1"
      "block_at (block s2) (sv_i sv') fb = b"
      "\<And>k. k < MAXBLOCKS \<Longrightarrow> k \<noteq> fb \<Longrightarrow> block_at (block s2) (sv_i sv') k = block_at (block s1) (sv_i ?sv) k"
      "\<And>x. x \<in> used s1 \<Longrightarrow> x \<noteq> ib \<Longrightarrow> block s2 x = block s1 x"
      "b \<notin> used s1" "block s2 b = replicate 512 0"
    using bm a(1) at [OF fb] hole unfolding bmapped_def by auto
  have c: "fs_inv s2" "b \<noteq> 0" "used s1 \<subseteq> used s2" "sfs_super s2 = sfs_super s1" "sfs_req s2 = sfs_req s1"
    "sfs_vnodes s2 = sfs_vnodes s1" "sfs_kmem s2 = sfs_kmem s1" "\<And>w. w \<noteq> v \<Longrightarrow> sfs_vn s2 w = sfs_vn s1 w"
    using bm unfolding bmapped_def by auto
  have shape: "sv' = sv\<lparr>sv_i := (sv_i sv)\<lparr>sfi_direct := sfi_direct (sv_i sv'), sfi_indirect := sfi_indirect (sv_i sv')\<rparr>,
                 sv_dirty := sv_dirty sv'\<rparr>" using b(2) by simp
  have "block s2 x = block s x" if "x \<in> used s" for x
    using b(6) [of x] a(2-4) that by (cases "x = ib") auto
  then show ?thesis
    using a(2-9) b c at hole fb
    by (intro bmappedI [OF c(1,2) _ _ _ _ _ _ v(1) b(1) shape]) auto
qed

text \<open>
  A failed allocation: no block is free any more, no mapping of any file has changed; at most
  the file has gained an empty indirect block.
\<close>

definition bmap_failed :: "vref \<Rightarrow> sfs \<Rightarrow> sfs \<Rightarrow> bool" where
  "bmap_failed v s s' \<longleftrightarrow> fs_inv s' \<and> {..<sp_nblocks (sfs_super s')} \<subseteq> used s' \<and> sfs_req s' = sfs_req s \<and>
     (s' = s \<or> (\<exists>ib t. indirect_added v ib s t \<and> same_fs t s') \<or> same_fs s s')"

lemma mapped_hand_back:
  assumes "bmapped v fb b s s'" "fb < MAXBLOCKS"
  shows "hand_back b s' = Ret b s'"
proof -
  obtain sv' where "fs_inv s'" "sfs_vn s' v = Some sv'" "block_at (block s') (sv_i sv') fb = b"
    using assms unfolding bmapped_def by blast
  with mapped_ok [of s' v sv' fb] assms(2) show ?thesis by (intro hand_back_ok) (auto simp: fs_inv_space)
qed

lemma bmap_direct_True:
  assumes inv: "fs_inv s" and v: "sfs_vn s v = Some sv" and fb: "fb < 15"
  shows "(\<exists>b s'. bmap_direct v fb True s = Ret b s' \<and> bmapped v fb b s s') \<or>
         (\<exists>s'. bmap_direct v fb True s = Err ENOSPC s' \<and> bmap_failed v s s')"
proof (cases "sfi_direct (sv_i sv) ! fb = 0")
  case True
  show ?thesis
  proof (rule balloc_cases [OF fs_inv_space [OF inv]])
    assume "sfs_balloc s = Err ENOSPC s" "{..<sp_nblocks (sfs_super s)} \<subseteq> used s"
    then show ?thesis using True v inv by (simp add: bmap_direct_def with_vn_def bmap_failed_def)
  next
    fix b s1 assume b: "sfs_balloc s = Ret b s1" "balloced b s s1"
    note m = bmap_direct_alloc [OF inv v fb True b(2)]
    show ?thesis using mapped_hand_back [OF m] m fb True v b(1) by (simp add: bmap_direct_def with_vn_def)
  qed
next
  case False
  then have at: "block_at (block s) (sv_i sv) fb \<noteq> 0" using fb by (simp add: block_at_def)
  have "bmapped v fb (block_at (block s) (sv_i sv) fb) s s"
    using at by (intro bmapped_lookup [OF inv v same_fs_refl [OF fs_inv_space [OF inv]]]) simp_all
  moreover have "bmap_direct v fb True s = Ret (block_at (block s) (sv_i sv) fb) s"
    using False v fb mapped_hand_back [OF calculation] by (simp add: bmap_direct_def with_vn_def block_at_def)
  ultimately show ?thesis by blast
qed

lemma bmap_indirect_entry:
  assumes inv: "fs_inv s" and v: "sfs_vn s v = Some sv" and k: "k < 128"
    and ib: "ib = sfi_indirect (sv_i sv)" "ib \<noteq> 0" and E: "E = dec32s 128 (block s ib)"
  defines "r \<equiv> andthen (if E ! k = 0 then andthen (sfs_balloc s)
      (\<lambda>b s. andthen (fs_wblock (enc32s (E[k := b])) ib s) (\<lambda>_ s. Ret b s)) else Ret (E ! k) s) hand_back"
  shows "(\<exists>b s'. r = Ret b s' \<and> bmapped v (15 + k) b s s') \<or>
         r = Err ENOSPC s \<and> {..<sp_nblocks (sfs_super s)} \<subseteq> used s \<and> block_at (block s) (sv_i sv) (15 + k) = 0"
proof (cases "E ! k = 0")
  case True
  show ?thesis
  proof (rule balloc_cases [OF fs_inv_space [OF inv]])
    assume "sfs_balloc s = Err ENOSPC s" "{..<sp_nblocks (sfs_super s)} \<subseteq> used s"
    then show ?thesis using True E ib by (simp add: r_def block_at_def)
  next
    fix b s1 assume b: "sfs_balloc s = Ret b s1" "balloced b s s1"
    obtain s' where s': "fs_wblock (enc32s (E[k := b])) ib s1 = Ret () s'" "bmapped v (15 + k) b s s'"
      using indirect_entry [OF inv v ib k E True b(2)] by blast
    show ?thesis using mapped_hand_back [OF s'(2)] s' k True b(1) by (simp add: r_def)
  qed
next
  case False
  then have at: "block_at (block s) (sv_i sv) (15 + k) = E ! k" using ib E by (simp add: block_at_def)
  then have "bmapped v (15 + k) (E ! k) s s"
    using False by (intro bmapped_lookup [OF inv v same_fs_refl [OF fs_inv_space [OF inv]]]) simp_all
  then show ?thesis using mapped_hand_back [of v "15 + k" "E ! k" s s] k False by (auto simp: r_def)
qed

lemma bmapped_same:
  assumes "same_fs s t" "bmapped v fb b t s'"
  shows "bmapped v fb b s s'"
proof -
  obtain d where "t = s\<lparr>sfs_device := d\<rparr>" "lh_sect d = block s" using assms(1) by (auto simp: same_fs_def)
  then have eqs: "used t = used s" "block t = block s" "sfs_vn t = sfs_vn s" "sfs_super t = sfs_super s"
    "sfs_req t = sfs_req s" "sfs_vnodes t = sfs_vnodes s" "sfs_kmem t = sfs_kmem s" by simp_all
  show ?thesis using assms(2) unfolding bmapped_def eqs .
qed

lemma bmap_indirect_True:
  assumes inv: "fs_inv s" and v: "sfs_vn s v = Some sv" and k: "k < 128"
  shows "(\<exists>b s'. bmap_indirect v k True s = Ret b s' \<and> bmapped v (15 + k) b s s') \<or>
         (\<exists>s'. bmap_indirect v k True s = Err ENOSPC s' \<and> bmap_failed v s s')"
proof (cases "sfi_indirect (sv_i sv) = 0")
  case True
  show ?thesis
  proof (rule balloc_cases [OF fs_inv_space [OF inv]])
    assume "sfs_balloc s = Err ENOSPC s" "{..<sp_nblocks (sfs_super s)} \<subseteq> used s"
    then show ?thesis using True v inv by (simp add: bmap_indirect_def with_vn_def bmap_failed_def)
  next
    fix ib s1 assume b: "sfs_balloc s = Ret ib s1" "balloced ib s s1"
    let ?t = "upd_inode v (\<lambda>i. i\<lparr>sfi_indirect := ib\<rparr>) s1"
    let ?sv = "sv\<lparr>sv_i := (sv_i sv)\<lparr>sfi_indirect := ib\<rparr>, sv_dirty := True\<rparr>"
    note add = indirect_add [OF inv v True b(2)]
    have t: "fs_inv ?t" "sfs_vn ?t v = Some ?sv" "ib \<noteq> 0" "block ?t ib = replicate 512 0"
      using add v unfolding indirect_added_def by auto
    have E: "replicate 128 0 = dec32s 128 (block ?t ib)" using t(4) by (simp add: dec32s_zero)
    have hole: "block_at (block s) (sv_i sv) (15 + k) = 0" using True by (simp add: block_at_def)
    have lt: "15 + k < MAXBLOCKS" using k by simp
    have req: "sfs_req ?t = sfs_req s" using add unfolding indirect_added_def by blast
    have failed: "{..<sp_nblocks (sfs_super ?t)} \<subseteq> used ?t \<Longrightarrow> bmap_failed v s ?t"
      unfolding bmap_failed_def using add t(1) req same_fs_refl [OF fs_inv_space [OF t(1)]] by blast
    have "bmap_indirect v k True s =
        andthen (if (replicate 128 0 :: nat list) ! k = 0 then andthen (sfs_balloc ?t)
          (\<lambda>b s. andthen (fs_wblock (enc32s ((replicate 128 0)[k := b])) ib s) (\<lambda>_ s. Ret b s))
          else Ret (replicate 128 0 ! k) ?t) hand_back"
      using True v b(1) by (simp add: bmap_indirect_def with_vn_def)
    with bmap_indirect_entry [OF t(1,2) k _ t(3) E] bmapped_after_add [OF inv v True add lt hole] failed
    show ?thesis by (auto simp del: upd_inode_simps)
  qed
next
  case False
  let ?ib = "sfi_indirect (sv_i sv)"
  obtain d where d: "fs_rblock ?ib s = Ret (block s ?ib) (s\<lparr>sfs_device := d\<rparr>)" "disk_ok d"
      "lh_sect d = block s" "lh_blocks d = lh_blocks (sfs_device s)"
    using fs_rblock_ok [OF fs_inv_space [OF inv] indirect_ok(2) [OF inv v False]] by blast
  let ?t = "s\<lparr>sfs_device := d\<rparr>"
  have same: "same_fs s ?t" using d by (auto simp: same_fs_def)
  have t: "fs_inv ?t" "sfs_vn ?t v = Some sv" "dec32s 128 (block s ?ib) = dec32s 128 (block ?t ?ib)"
    using same_fs_inv [OF same inv] v d(3) by simp_all
  have "bmap_indirect v k True s =
      andthen (if dec32s 128 (block s ?ib) ! k = 0 then andthen (sfs_balloc ?t)
        (\<lambda>b s'. andthen (fs_wblock (enc32s ((dec32s 128 (block s ?ib))[k := b])) ?ib s') (\<lambda>_ s. Ret b s))
        else Ret (dec32s 128 (block s ?ib) ! k) ?t) hand_back"
    using False v d(1) by (simp add: bmap_indirect_def with_vn_def Let_def)
  with bmap_indirect_entry [OF t(1,2) k refl False t(3)] bmapped_same [OF same] t(1) same
  show ?thesis by (auto simp: bmap_failed_def)
qed

lemma sfs_bmap_alloc:
  assumes inv: "fs_inv s" and v: "sfs_vn s v = Some sv" and fb: "fb < MAXBLOCKS"
  shows "(\<exists>b s'. sfs_bmap v fb True s = Ret b s' \<and> bmapped v fb b s s') \<or>
         (\<exists>s'. sfs_bmap v fb True s = Err ENOSPC s' \<and> bmap_failed v s s')"
proof (cases "fb < 15")
  case True
  then show ?thesis using bmap_direct_True [OF inv v True] by (simp add: sfs_bmap_def)
next
  case False
  then have "fb - 15 < 128" "15 + (fb - 15) = fb" using fb by auto
  with bmap_indirect_True [OF inv v this(1)] False show ?thesis by (simp add: sfs_bmap_def Let_def)
qed

section \<open>Properties\<close>

text \<open>
  C24. Looking up a block of a file returns the disk block behind it, 0 for a hole, and changes
  nothing on disk; beyond the largest file it fails with \<^verbatim>\<open>EINVAL\<close>.
\<close>

theorem sfs_bmap_looks_up:
  assumes "fs_inv s" "sfs_vn s v = Some sv"
  shows "if fb < MAXBLOCKS then \<exists>s'. sfs_bmap v fb False s = Ret (block_at (block s) (sv_i sv) fb) s' \<and> same_fs s s'
         else sfs_bmap v fb False s = Err EINVAL s"
  using sfs_bmap_lookup [OF assms] sfs_bmap_too_big [OF _ assms(2)] by simp

lemma sample_vn:
  "sfs_vn (sample_fs off n rw) 0 = Some \<lparr>sv_ops = File_ops, sv_refcount = 1, sv_opencount = 0, sv_countlock = free_lock, sv_i = sample_inode, sv_ino = 3, sv_dirty = False\<rparr>"
  by (simp add: sample_fs_def)

theorem sfs_bmap_looks_up_witness:
  "\<exists>s'. sfs_bmap 0 1 False (sample_fs 0 0 UIO_READ) = Ret 5 s' \<and> same_fs (sample_fs 0 0 UIO_READ) s'"
  using sfs_bmap_looks_up [OF sample_fs_inv sample_vn, of 1 0 0 UIO_READ] by (simp add: block_at_def sample_inode_def)

text \<open>
  C4. Mapping a block for writing either fails with \<^verbatim>\<open>ENOSPC\<close>, when the volume is full, or returns the
  block behind it, allocating a cleared one for a hole; the file system stays consistent (no block
  belongs to two files or twice to one), the other blocks of the file, the other files, and the
  contents of all blocks in use except the file's indirect block are unchanged.
\<close>

theorem sfs_bmap_allocates:
  assumes "fs_inv s" "sfs_vn s v = Some sv" "fb < MAXBLOCKS"
  shows "(\<exists>b s'. sfs_bmap v fb True s = Ret b s' \<and> bmapped v fb b s s') \<or>
         (\<exists>s'. sfs_bmap v fb True s = Err ENOSPC s' \<and> bmap_failed v s s')"
  using assms by (rule sfs_bmap_alloc)

theorem sfs_bmap_allocates_witness:
  "(\<exists>b s'. sfs_bmap 0 2 True (sample_fs 0 0 UIO_WRITE) = Ret b s' \<and> fs_inv s') \<or>
   (\<exists>s'. sfs_bmap 0 2 True (sample_fs 0 0 UIO_WRITE) = Err ENOSPC s' \<and> fs_inv s')"
  using sfs_bmap_allocates [OF sample_fs_inv sample_vn, of 2 0 0 UIO_WRITE]
  unfolding bmapped_def bmap_failed_def by auto

end
