(* ===== verification/Sfs_File.thy ===== *)
theory Sfs_File
  imports Sfs_Bmap "HOL-Library.Signed_Division"
begin

text \<open>
  File I/O of \<^verbatim>\<open>kern/fs/sfs/sfs_vnode.c\<close>: partial blocks, whole blocks, and whole regions.  The
  request is \<open>sfs_req\<close>: the \<^verbatim>\<open>uio\<close> and the memory it points into.
\<close>

section \<open>The model\<close>

abbreviation req_uio :: "sfs \<Rightarrow> uio" where
  "req_uio s \<equiv> io_uio (sfs_req s)"

definition upd_uio :: "(uio \<Rightarrow> uio) \<Rightarrow> sfs \<Rightarrow> sfs" where
  "upd_uio f s = s\<lparr>sfs_req := (sfs_req s)\<lparr>io_uio := f (req_uio s)\<rparr>\<rparr>"

definition req_uiomove :: "u8 list \<Rightarrow> nat \<Rightarrow> sfs \<Rightarrow> (sfs, u8 list) outcome" where
  "req_uiomove buf n s = within (\<lambda>i. s\<lparr>sfs_req := i\<rparr>) (uiomove buf n (sfs_req s))"

text \<open>
  Division of the signed \<^verbatim>\<open>uio_offset\<close> truncates, and the result is stored in an unsigned 32-bit
  variable.
\<close>

definition file_block :: "int \<Rightarrow> nat" where
  "file_block off = nat ((off sdiv 512) mod 2 ^ 32)"

definition block_off :: "int \<Rightarrow> nat" where
  "block_off off = nat ((off smod 512) mod 2 ^ 32)"

text \<open>
  \<^verbatim>\<open>sfs_partialio\<close>: \<^verbatim>\<open>uiomove(iobuf+skipstart, len, uio)\<close> replaces the bytes of the buffer from
  \<open>skipstart\<close> on.
\<close>

definition sfs_partialio :: "vref \<Rightarrow> nat \<Rightarrow> nat \<Rightarrow> sfs \<Rightarrow> (sfs, unit) outcome" where
  "sfs_partialio v skipstart len s =
     (let doalloc = (uio_rw (req_uio s) = UIO_WRITE) in
      kassert ((skipstart + len) mod 2 ^ 32 \<le> SFS_BLOCKSIZE)
       (let fileblock = file_block (uio_offset (req_uio s)) in
        andthen (sfs_bmap v fileblock doalloc s)
         (\<lambda>diskblock s.
           andthen
            (if diskblock = 0 then
               kassert (uio_rw (req_uio s) = UIO_READ) (Ret (replicate SFS_BLOCKSIZE 0) s)
             else fs_rblock diskblock s)
            (\<lambda>iobuf s.
              andthen (defined_if (skipstart \<le> SFS_BLOCKSIZE) (req_uiomove (drop skipstart iobuf) len s))
               (\<lambda>part s.
                 if uio_rw (req_uio s) = UIO_WRITE
                 then fs_wblock (take skipstart iobuf @ part) diskblock s
                 else Ret () s)))))"

text \<open>
  \<^verbatim>\<open>sfs_blockio\<close>: the device does the transfer on the caller's \<^verbatim>\<open>uio\<close>, with the offset and the
  residue replaced for the duration of the call.
\<close>

definition sfs_blockio :: "vref \<Rightarrow> sfs \<Rightarrow> (sfs, unit) outcome" where
  "sfs_blockio v s =
     (let doalloc = (uio_rw (req_uio s) = UIO_WRITE);
          fileblock = file_block (uio_offset (req_uio s))
      in andthen (sfs_bmap v fileblock doalloc s)
          (\<lambda>diskblock s.
            if diskblock = 0 then
              kassert (uio_rw (req_uio s) = UIO_READ)
               (within (\<lambda>i. s\<lparr>sfs_req := i\<rparr>) (uiomovezeros SFS_BLOCKSIZE (sfs_req s)))
            else
              (let saveoff = uio_offset (req_uio s); diskoff = off_wrap (int diskblock * 512)
               in kassert (uio_resid (req_uio s) \<ge> SFS_BLOCKSIZE)
                   (let saveres = uio_resid (req_uio s);
                        s = upd_uio (\<lambda>u. u\<lparr>uio_offset := diskoff, uio_resid := SFS_BLOCKSIZE\<rparr>) s;
                        restore = upd_uio (\<lambda>u. u\<lparr>uio_offset := (uio_offset u - diskoff) + saveoff,
                          uio_resid := nat ((int (uio_resid u) - 512 + int saveres) mod 2 ^ 32)\<rparr>)
                    in within (\<lambda>x. restore (s\<lparr>sfs_device := dk x, sfs_req := dio x\<rparr>))
                         (sfs_rwblock \<lparr>dk = sfs_device s, dio = sfs_req s\<rparr>)))))"

primrec sfs_blocks :: "nat \<Rightarrow> vref \<Rightarrow> sfs \<Rightarrow> (sfs, unit) outcome" where
  "sfs_blocks 0 v s = Ret () s"
| "sfs_blocks (Suc n) v s = andthen (sfs_blockio v s) (\<lambda>_ s. sfs_blocks n v s)"

text \<open>The part of \<^verbatim>\<open>sfs_io\<close> between the end-of-file check and the label \<^verbatim>\<open>out\<close>.\<close>

definition sfs_io_body :: "vref \<Rightarrow> sfs \<Rightarrow> (sfs, unit) outcome" where
  "sfs_io_body v s =
     (let blkoff = block_off (uio_offset (req_uio s)) in
      andthen
       (if blkoff \<noteq> 0 then
          sfs_partialio v blkoff (min (nat ((512 - int blkoff) mod 2 ^ 32)) (uio_resid (req_uio s))) s
        else Ret () s)
       (\<lambda>_ s.
         if uio_resid (req_uio s) = 0 then Ret () s
         else kassert (uio_offset (req_uio s) mod 512 = 0)
           (andthen (sfs_blocks (uio_resid (req_uio s) div SFS_BLOCKSIZE) v s)
             (\<lambda>_ s. kassert (uio_resid (req_uio s) < SFS_BLOCKSIZE)
               (if uio_resid (req_uio s) > 0 then sfs_partialio v 0 (uio_resid (req_uio s)) s
                else Ret () s)))))"

text \<open>What is done at \<^verbatim>\<open>out\<close>, on success and on error alike.\<close>

definition sfs_io_out :: "vref \<Rightarrow> nat \<Rightarrow> sfs \<Rightarrow> sfs" where
  "sfs_io_out v extraresid s =
     (let s = (case sfs_vn s v of None \<Rightarrow> s
               | Some sv \<Rightarrow>
                   if uio_rw (req_uio s) = UIO_WRITE \<and>
                      uio_offset (req_uio s) > off_wrap (int (sfi_size (sv_i sv)))
                   then upd_inode v (\<lambda>i. i\<lparr>sfi_size := nat (uio_offset (req_uio s) mod 2 ^ 32)\<rparr>) s else s)
      in upd_uio (\<lambda>u. u\<lparr>uio_resid := (uio_resid u + extraresid) mod 2 ^ 32\<rparr>) s)"

definition sfs_io :: "vref \<Rightarrow> sfs \<Rightarrow> (sfs, unit) outcome" where
  "sfs_io v s = with_vn v s (\<lambda>sv.
     if uio_rw (req_uio s) = UIO_READ then
       (let size = off_wrap (int (sfi_size (sv_i sv)));
            endpos = off_wrap (uio_offset (req_uio s) + int (uio_resid (req_uio s)))
        in if uio_offset (req_uio s) \<ge> size then Ret () s
           else if endpos > size then
             (let extraresid = nat ((endpos - size) mod 2 ^ 32) in
              kassert (uio_resid (req_uio s) > extraresid)
               (within (sfs_io_out v extraresid)
                 (sfs_io_body v (upd_uio (\<lambda>u. u\<lparr>uio_resid := uio_resid u - extraresid\<rparr>) s))))
           else within (sfs_io_out v 0) (sfs_io_body v s))
     else within (sfs_io_out v 0) (sfs_io_body v s))"

section \<open>The contents of a file\<close>

text \<open>Byte \<open>p\<close> of a file; a hole reads as zero.\<close>

definition fbyte :: "sfs \<Rightarrow> vref \<Rightarrow> nat \<Rightarrow> u8" where
  "fbyte s v p = (case sfs_vn s v of None \<Rightarrow> 0
     | Some sv \<Rightarrow> (let b = block_at (block s) (sv_i sv) (p div 512) in
         if b = 0 then 0 else block s b ! (p mod 512)))"

definition fbytes :: "sfs \<Rightarrow> vref \<Rightarrow> nat \<Rightarrow> nat \<Rightarrow> u8 list" where
  "fbytes s v p n = map (fbyte s v) [p..<p + n]"

lemma length_fbytes [simp]: "length (fbytes s v p n) = n"
  by (simp add: fbytes_def)

lemma fbytes_append: "fbytes s v p (m + n) = fbytes s v p m @ fbytes s v (p + m) n"
proof -
  have "[p..<p + (m + n)] = [p..<p + m] @ [p + m..<p + m + n]"
    using upt_add_eq_append [of p "p + m" n] by (simp add: add.assoc)
  then show ?thesis by (simp add: fbytes_def)
qed

text \<open>The bytes of a file inside one of its blocks.\<close>

lemma fbytes_block:
  assumes "sfs_vn s v = Some sv" "k + n \<le> 512" "b = block_at (block s) (sv_i sv) fb" "length (block s b) = 512"
  shows "fbytes s v (fb * 512 + k) n = (if b = 0 then replicate n 0 else take n (drop k (block s b)))"
proof (rule nth_equalityI)
  fix j assume "j < length (fbytes s v (fb * 512 + k) n)"
  then have j: "j < n" by simp
  then have "(fb * 512 + k + j) div 512 = fb" "(fb * 512 + k + j) mod 512 = k + j"
    using assms(2) by (simp_all add: add.assoc)
  then show "fbytes s v (fb * 512 + k) n ! j = (if b = 0 then replicate n 0 else take n (drop k (block s b))) ! j"
    using j assms by (simp add: fbytes_def fbyte_def Let_def)
qed (use assms in auto)

lemma block_length: "space_ok s \<Longrightarrow> length (block s b) = 512"
  by (simp add: space_ok_def disk_ok_def)

lemma fbytes_cong: "sfs_vn s' v = sfs_vn s v \<Longrightarrow> block s' = block s \<Longrightarrow> fbytes s' v p n = fbytes s v p n"
  unfolding fbytes_def fbyte_def by (simp only:)

lemma fbytes_same: "same_fs s s' \<Longrightarrow> fbytes s' v p n = fbytes s v p n"
  by (rule fbytes_cong) (auto simp: same_fs_def)

lemma fs_inv_req [simp]: "fs_inv (s\<lparr>sfs_req := r\<rparr>) = fs_inv s"
  unfolding fs_inv_def space_ok_def vnodes_ok_def by simp

text \<open>
  The effect of a read on the state: only the request advances, and the bytes go to its
  memory.
\<close>

definition read_done :: "u8 list \<Rightarrow> sfs \<Rightarrow> sfs \<Rightarrow> bool" where
  "read_done bs s s' \<longleftrightarrow> (\<exists>t. same_fs s t \<and>
     s' = t\<lparr>sfs_req := (sfs_req s)\<lparr>io_mem := store (io_mem (sfs_req s)) (iov_base (req_uio s)) bs,
              io_uio := uio_advance (length bs) (req_uio s)\<rparr>\<rparr>)"

text \<open>The request as it is served: it cannot fault, and lies within the largest possible file.\<close>

definition serving :: "uio_rw \<Rightarrow> vref \<Rightarrow> sfs \<Rightarrow> bool" where
  "serving rw v s \<longleftrightarrow> fs_inv s \<and> sfs_vn s v \<noteq> None \<and> io_ok (sfs_req s) \<and> uio_rw (req_uio s) = rw \<and>
     nat (uio_offset (req_uio s)) + uio_resid (req_uio s) \<le> MAXBLOCKS * 512"

lemma same_fs_simps:
  assumes "same_fs s t"
  shows "sfs_req t = sfs_req s" "block t = block s" "sfs_vn t = sfs_vn s" "sfs_super t = sfs_super s"
    "used t = used s"
  using assms by (auto simp: same_fs_def)

lemma same_fs_space: "same_fs s t \<Longrightarrow> space_ok s \<Longrightarrow> space_ok t"
  by (auto simp: same_fs_def intro: space_ok_device)

lemma same_fs_trans: "same_fs s t \<Longrightarrow> same_fs t u \<Longrightarrow> same_fs s u"
  by (auto simp: same_fs_def)

lemma read_done_serving:
  assumes "serving UIO_READ v s" "read_done bs s s'" "length bs \<le> uio_resid (req_uio s)"
  shows "serving UIO_READ v s'" "uio_resid (req_uio s') = uio_resid (req_uio s) - length bs"
    "uio_offset (req_uio s') = uio_offset (req_uio s) + int (length bs)" "fbytes s' v p n = fbytes s v p n"
proof -
  obtain t where t: "same_fs s t" "s' = t\<lparr>sfs_req := (sfs_req s)\<lparr>io_mem := store (io_mem (sfs_req s)) (iov_base (req_uio s)) bs,
              io_uio := uio_advance (length bs) (req_uio s)\<rparr>\<rparr>" using assms(2) by (auto simp: read_done_def)
  have ok: "io_ok (sfs_req s)" "0 \<le> uio_offset (req_uio s)" using assms(1) by (auto simp: serving_def io_ok_def)
  show r: "uio_resid (req_uio s') = uio_resid (req_uio s) - length bs"
    using t(2) ok assms(3) uio_advance_resid [of "length bs" "req_uio s"] by (simp add: io_ok_def)
  show o: "uio_offset (req_uio s') = uio_offset (req_uio s) + int (length bs)" using t(2) by simp
  have "fs_inv s'" using same_fs_inv [OF t(1)] assms(1) t(2) by (simp add: serving_def)
  moreover have "io_ok (sfs_req s')" using t(2) io_ok_advance [OF ok(1) assms(3)] by simp
  ultimately show "serving UIO_READ v s'"
    using assms(1,3) r o ok(2) t same_fs_simps [OF t(1)] by (simp add: serving_def nat_add_distrib)
  have "fbytes s' v p n = fbytes t v p n" using t(2) by (intro fbytes_cong) simp_all
  then show "fbytes s' v p n = fbytes s v p n" using fbytes_same [OF t(1)] by simp
qed

lemma read_done_append:
  assumes "read_done bs s s1" "read_done cs s1 s2" "length bs + length cs \<le> uio_resid (req_uio s)"
    "uio_resid (req_uio s) < 2 ^ 32"
  shows "read_done (bs @ cs) s s2"
proof -
  obtain t where t: "same_fs s t" "s1 = t\<lparr>sfs_req := (sfs_req s)\<lparr>io_mem := store (io_mem (sfs_req s)) (iov_base (req_uio s)) bs,
              io_uio := uio_advance (length bs) (req_uio s)\<rparr>\<rparr>" using assms(1) by (auto simp: read_done_def)
  obtain u where u: "same_fs s1 u" "s2 = u\<lparr>sfs_req := (sfs_req s1)\<lparr>io_mem := store (io_mem (sfs_req s1)) (iov_base (req_uio s1)) cs,
              io_uio := uio_advance (length cs) (req_uio s1)\<rparr>\<rparr>" using assms(2) by (auto simp: read_done_def)
  obtain d where d: "u = s1\<lparr>sfs_device := d\<rparr>" "disk_ok d" "lh_sect d = block s1" "lh_blocks d = lh_blocks (sfs_device s1)"
    using u(1) by (auto simp: same_fs_def)
  have "same_fs t (t\<lparr>sfs_device := d\<rparr>)" using d t(2) by (simp add: same_fs_def) (metis sfs.surjective sfs.update_convs(1))
  then have "same_fs s (t\<lparr>sfs_device := d\<rparr>)" using same_fs_trans [OF t(1)] by blast
  moreover have "s2 = t\<lparr>sfs_device := d, sfs_req := (sfs_req s)\<lparr>io_mem := store (io_mem (sfs_req s)) (iov_base (req_uio s)) (bs @ cs),
              io_uio := uio_advance (length (bs @ cs)) (req_uio s)\<rparr>\<rparr>"
    using u(2) d(1) t(2) uio_advance_add [of "length bs" "length cs" "req_uio s"] assms(3,4)
    by (simp add: store_append)
  ultimately show ?thesis unfolding read_done_def by blast
qed

lemma file_block_nat [simp]: "fb < 2 ^ 23 \<Longrightarrow> k < 512 \<Longrightarrow> file_block (int fb * 512 + int k) = fb"
proof -
  assume a: "fb < 2 ^ 23" "k < 512"
  have "(int fb * 512 + int k) sdiv 512 = (int fb * 512 + int k) div 512"
    by (simp add: signed_divide_int_def sgn_if)
  then show ?thesis using a by (simp add: file_block_def)
qed

lemma block_off_nat: "0 \<le> off \<Longrightarrow> block_off off = nat (off mod 512)"
proof -
  assume "0 \<le> off"
  then have "off smod 512 = off mod 512" by (simp add: smod_int_range signed_modulo_int_def signed_divide_int_def sgn_if minus_div_mult_eq_mod mult.commute)
  then show ?thesis by (simp add: block_off_def)
qed

lemma serving_block:
  assumes sv: "serving rw v s" and off: "uio_offset (req_uio s) = int fb * 512 + int k"
    and "0 < uio_resid (req_uio s)"
  shows "fb < MAXBLOCKS"
proof -
  have "fb * 512 + k + uio_resid (req_uio s) \<le> MAXBLOCKS * 512"
    using sv off by (simp add: serving_def nat_add_distrib nat_mult_distrib)
  then show ?thesis using assms(3) by simp
qed

lemma bmap_read:
  assumes sv: "serving UIO_READ v s" and v: "sfs_vn s v = Some sv"
    and off: "uio_offset (req_uio s) = int fb * 512 + int k" "k < 512" and fb: "fb < MAXBLOCKS"
  shows "\<exists>t. sfs_bmap v (file_block (uio_offset (req_uio s))) False s =
           Ret (block_at (block s) (sv_i sv) fb) t \<and> same_fs s t"
  using sfs_bmap_lookup [OF _ v fb] sv off fb by (simp add: serving_def)

lemma sfs_partialio_read:
  assumes sv: "serving UIO_READ v s" and off: "uio_offset (req_uio s) = int fb * 512 + int k"
    and n: "k < 512" "k + n \<le> 512" "n \<le> uio_resid (req_uio s)" and fb: "fb < MAXBLOCKS"
  shows "\<exists>s'. sfs_partialio v k n s = Ret () s' \<and> read_done (fbytes s v (fb * 512 + k) n) s s'"
proof -
  obtain vn where v: "sfs_vn s v = Some vn" using sv by (auto simp: serving_def)
  have rw: "uio_rw (req_uio s) = UIO_READ" and inv: "fs_inv s" using sv by (simp_all add: serving_def)
  let ?b = "block_at (block s) (sv_i vn) fb"
  let ?bytes = "if ?b = 0 then replicate 512 0 else block s ?b"
  obtain t where t: "sfs_bmap v (file_block (uio_offset (req_uio s))) False s = Ret ?b t" "same_fs s t"
    using bmap_read [OF sv v off n(1) fb] by auto
  note k = same_fs_simps [OF t(2)] and sp = same_fs_space [OF t(2) fs_inv_space [OF inv]]
  obtain u where u: "(if ?b = 0 then Ret (replicate 512 0) t else fs_rblock ?b t) = Ret ?bytes u" "same_fs t u"
  proof (cases "?b = 0")
    case True
    then show thesis using that same_fs_refl [OF sp] by simp
  next
    case False
    then have "?b < sp_nblocks (sfs_super t)" using mapped_ok [OF inv v fb] k by auto
    then show thesis using fs_rblock_ok [OF sp] k False that by (auto simp: same_fs_def)
  qed
  have su: "same_fs s u" using same_fs_trans [OF t(2) u(2)] .
  have req: "sfs_req u = sfs_req s" using same_fs_simps [OF su] by simp
  have len: "length ?bytes = 512" using block_length [OF fs_inv_space [OF inv]] by simp
  have bts: "fbytes s v (fb * 512 + k) n = take n (drop k ?bytes)"
    using fbytes_block [OF v n(2) refl block_length [OF fs_inv_space [OF inv]], of fb] n by simp
  have "uiomove (drop k ?bytes) n (sfs_req s) = Ret (drop k ?bytes) ((sfs_req s)\<lparr>io_mem := store (io_mem (sfs_req s)) (iov_base (req_uio s)) (take n (drop k ?bytes)),
           io_uio := uio_advance n (req_uio s)\<rparr>)"
    using sv n len by (intro uiomove_read_ok) (auto simp: serving_def)
  then have "sfs_partialio v k n s = Ret () (u\<lparr>sfs_req := (sfs_req s)\<lparr>io_mem := store (io_mem (sfs_req s)) (iov_base (req_uio s)) (take n (drop k ?bytes)),
           io_uio := uio_advance n (req_uio s)\<rparr>\<rparr>)"
    using t(1) u(1) n rw k(1) req by (cases "?b = 0") (simp_all add: sfs_partialio_def Let_def req_uiomove_def)
  then show ?thesis unfolding read_done_def using su by (metis bts length_fbytes)
qed

text \<open>The device transfer of a whole block, seen from the caller's request.\<close>

lemma io_ok_block:
  assumes ok: "io_ok i" and r: "512 \<le> uio_resid (io_uio i)" and b: "(b + 1) * 512 < 2 ^ 31"
  shows "block_req b (i\<lparr>io_uio := (io_uio i)\<lparr>uio_offset := int b * 512, uio_resid := 512\<rparr>\<rparr>)"
  using assms by (auto simp: block_req_def io_ok_def user_ok_def)

lemma restore_uio:
  assumes "512 \<le> uio_resid u" "uio_resid u < 2 ^ 31"
  shows "(uio_advance 512 (u\<lparr>uio_offset := x, uio_resid := 512\<rparr>))\<lparr>uio_offset := x + 512 - x + uio_offset u,
           uio_resid := nat ((0 - 512 + int (uio_resid u)) mod 2 ^ 32)\<rparr> = uio_advance 512 u"
  using assms by (simp add: uio_advance_def)

lemma sfs_blockio_read:
  assumes sv: "serving UIO_READ v s" and off: "uio_offset (req_uio s) = int fb * 512"
    and n: "512 \<le> uio_resid (req_uio s)"
  shows "\<exists>s'. sfs_blockio v s = Ret () s' \<and> read_done (fbytes s v (fb * 512) 512) s s'"
proof -
  obtain vn where v: "sfs_vn s v = Some vn" using sv by (auto simp: serving_def)
  have rw: "uio_rw (req_uio s) = UIO_READ" and inv: "fs_inv s" and ok: "io_ok (sfs_req s)"
    using sv by (simp_all add: serving_def)
  have fb: "fb < MAXBLOCKS" using serving_block [OF sv, of fb 0] off n by simp
  let ?b = "block_at (block s) (sv_i vn) fb"
  obtain t where t: "sfs_bmap v (file_block (uio_offset (req_uio s))) False s = Ret ?b t" "same_fs s t"
    using bmap_read [OF sv v, of fb 0] off fb by auto
  note k = same_fs_simps [OF t(2)] and sp = same_fs_space [OF t(2) fs_inv_space [OF inv]]
  have bytes: "fbytes s v (fb * 512) 512 = (if ?b = 0 then replicate 512 0 else block s ?b)"
    using fbytes_block [OF v _ refl block_length [OF fs_inv_space [OF inv]], of 0 512 fb]
      block_length [OF fs_inv_space [OF inv]] by simp
  show ?thesis
  proof (cases "?b = 0")
    case True
    then have "sfs_blockio v s = Ret () (t\<lparr>sfs_req := (sfs_req s)\<lparr>io_mem := store (io_mem (sfs_req s)) (iov_base (req_uio s)) (replicate 512 0),
           io_uio := uio_advance 512 (req_uio s)\<rparr>\<rparr>)"
      using t(1) rw k(1) uiomovezeros_ok [OF ok rw n] by (simp add: sfs_blockio_def Let_def)
    then show ?thesis using t(2) bytes True by (auto simp: read_done_def intro!: exI [of _ t])
  next
    case False
    then have b: "?b < sp_nblocks (sfs_super t)" using mapped_ok [OF inv v fb] k by auto
    then have vb: "valid_block (sfs_device t) ?b" using sp by (auto simp: space_ok_def intro: disk_ok_valid)
    then have b2: "(?b + 1) * 512 < 2 ^ 31" by (simp add: valid_block_def)
    let ?i = "(sfs_req s)\<lparr>io_uio := (req_uio s)\<lparr>uio_offset := int ?b * 512, uio_resid := 512\<rparr>\<rparr>"
    let ?d = "(later (Suc 0) (sfs_device t))\<lparr>lh_buf := block s ?b\<rparr>"
    have nf: "\<not> lh_fail (sfs_device t) 0" using sp by (simp add: space_ok_def disk_ok_def)
    have io: "sfs_rwblock \<lparr>dk = sfs_device t, dio = ?i\<rparr> = Ret () \<lparr>dk = ?d,
        dio = ?i\<lparr>io_mem := store (io_mem ?i) (iov_base (io_uio ?i)) (block s ?b), io_uio := uio_advance 512 (io_uio ?i)\<rparr>\<rparr>"
      using read_try [OF vb io_ok_block [OF ok n b2], of 0 0] rw nf k(2) by (simp add: sfs_rwblock_def)
    have dk: "disk_ok ?d" using sp block_length [OF sp] k(2) by (simp add: space_ok_def disk_ok_def)
    have lt: "uio_resid (req_uio s) < 2 ^ 31" using ok by (simp add: io_ok_def)
    have ow: "off_wrap (int ?b * 512) = int ?b * 512" using b2 by (intro off_wrap_small) auto
    have r0: "uio_resid (uio_advance 512 (io_uio ?i)) = 0" by (simp add: uio_advance_resid)
    have "sfs_blockio v s = Ret () ((t\<lparr>sfs_device := ?d\<rparr>)\<lparr>sfs_req := (sfs_req s)\<lparr>io_mem := store (io_mem (sfs_req s)) (iov_base (req_uio s)) (block s ?b),
           io_uio := uio_advance 512 (req_uio s)\<rparr>\<rparr>)"
      using t(1) rw k(1) False n io ow restore_uio [OF n lt, of "int ?b * 512"] r0
      by (simp add: sfs_blockio_def Let_def upd_uio_def)
    moreover have "same_fs s (t\<lparr>sfs_device := ?d\<rparr>)"
      using t(2) dk by (auto simp: same_fs_def intro!: exI [of _ ?d])
    moreover have "fbytes s v (fb * 512) 512 = block s ?b" using bytes False by simp
    ultimately show ?thesis unfolding read_done_def by (metis length_fbytes)
  qed
qed

lemma sfs_blocks_read:
  assumes "serving UIO_READ v s" "uio_offset (req_uio s) = int fb * 512" "m * 512 \<le> uio_resid (req_uio s)"
  shows "\<exists>s'. sfs_blocks m v s = Ret () s' \<and> read_done (fbytes s v (fb * 512) (m * 512)) s s'"
  using assms
proof (induction m arbitrary: s fb)
  case 0
  have "uio_resid (req_uio s) < 2 ^ 32" "space_ok s" using 0 by (auto simp: serving_def io_ok_def fs_inv_def)
  then show ?case using same_fs_refl [of s] by (auto simp: read_done_def fbytes_def)
next
  case (Suc m)
  obtain s1 where s1: "sfs_blockio v s = Ret () s1" "read_done (fbytes s v (fb * 512) 512) s s1"
    using sfs_blockio_read [OF Suc.prems(1,2)] Suc.prems(3) by auto
  note r = read_done_serving [OF Suc.prems(1) s1(2)]
  have "\<exists>s'. sfs_blocks m v s1 = Ret () s' \<and> read_done (fbytes s1 v ((fb + 1) * 512) (m * 512)) s1 s'"
    using r Suc.prems by (intro Suc.IH) auto
  then obtain s2 where s2: "sfs_blocks m v s1 = Ret () s2" "read_done (fbytes s v (fb * 512 + 512) (m * 512)) s1 s2"
    using r Suc.prems by (auto simp: algebra_simps)
  have "uio_resid (req_uio s) < 2 ^ 32" using Suc.prems(1) by (simp add: serving_def io_ok_def)
  then have "read_done (fbytes s v (fb * 512) (512 + m * 512)) s s2"
    using read_done_append [OF s1(2) s2(2)] Suc.prems(3) by (simp add: fbytes_append)
  then show ?case using s1 s2 by auto
qed

lemma read_done_refl: "serving rw v s \<Longrightarrow> read_done [] s s"
  using same_fs_refl [of s] by (auto simp: read_done_def serving_def io_ok_def fs_inv_def intro!: exI [of _ s])

text \<open>The aligned part of a request: whole blocks, then a partial one.\<close>

lemma aligned_read:
  assumes sv: "serving UIO_READ v s" and off: "uio_offset (req_uio s) = int fb * 512"
  shows "\<exists>s'. andthen (sfs_blocks (uio_resid (req_uio s) div SFS_BLOCKSIZE) v s)
             (\<lambda>_ s. kassert (uio_resid (req_uio s) < SFS_BLOCKSIZE)
               (if uio_resid (req_uio s) > 0 then sfs_partialio v 0 (uio_resid (req_uio s)) s
                else Ret () s)) = Ret () s' \<and>
           read_done (fbytes s v (fb * 512) (uio_resid (req_uio s))) s s'"
proof -
  let ?r = "uio_resid (req_uio s)"
  let ?m = "?r div 512"
  have split: "?r = ?m * 512 + ?r mod 512" by simp
  obtain s1 where s1: "sfs_blocks ?m v s = Ret () s1" "read_done (fbytes s v (fb * 512) (?m * 512)) s s1"
    using sfs_blocks_read [OF sv off, of ?m] by auto
  note r = read_done_serving [OF sv s1(2)]
  have res: "uio_resid (req_uio s1) = ?r mod 512" using r(2) split by (simp add: minus_div_mult_eq_mod)
  show ?thesis
  proof (cases "?r mod 512 = 0")
    case True
    then show ?thesis using s1 res split by (auto simp: True)
  next
    case False
    have o1: "uio_offset (req_uio s1) = int (fb + ?m) * 512 + int 0" using r(3) off by simp
    then have "fb + ?m < MAXBLOCKS" using serving_block [OF r(1) o1] False res by simp
    with o1 obtain s2 where s2: "sfs_partialio v 0 (?r mod 512) s1 = Ret () s2"
        "read_done (fbytes s1 v ((fb + ?m) * 512) (?r mod 512)) s1 s2"
      using sfs_partialio_read [of v s1 "fb + ?m" 0 "?r mod 512"] r(1) res False by auto
    have "fbytes s1 v ((fb + ?m) * 512) (?r mod 512) = fbytes s v (fb * 512 + ?m * 512) (?r mod 512)"
      using r(4) by (simp add: algebra_simps)
    moreover have "fbytes s v (fb * 512) ?r = fbytes s v (fb * 512) (?m * 512) @ fbytes s v (fb * 512 + ?m * 512) (?r mod 512)"
      using fbytes_append [of s v "fb * 512" "?m * 512" "?r mod 512"] by simp
    moreover have "?r < 2 ^ 32" using sv by (simp add: serving_def io_ok_def)
    ultimately have "read_done (fbytes s v (fb * 512) ?r) s s2"
      using read_done_append [OF s1(2), of "fbytes s1 v ((fb + ?m) * 512) (?r mod 512)" s2] s2(2) by simp
    then show ?thesis using s1 s2 res False by auto
  qed
qed

lemma sfs_io_body_read:
  assumes sv: "serving UIO_READ v s" and lim: "uio_offset (req_uio s) < int MAXBLOCKS * 512"
  shows "\<exists>s'. sfs_io_body v s = Ret () s' \<and>
           read_done (fbytes s v (nat (uio_offset (req_uio s))) (uio_resid (req_uio s))) s s'"
proof -
  let ?r = "uio_resid (req_uio s)"
  define p where "p = nat (uio_offset (req_uio s))"
  define k where "k = p mod 512"
  have off: "uio_offset (req_uio s) = int p" using sv by (simp add: p_def serving_def io_ok_def)
  have bo: "block_off (uio_offset (req_uio s)) = k" by (simp add: off block_off_nat k_def nat_mod_distrib)
  have lt: "?r < 2 ^ 32" using sv by (simp add: serving_def io_ok_def)
  show ?thesis
  proof (cases "k = 0")
    case True
    then have "uio_offset (req_uio s) = int (p div 512) * 512" "p div 512 * 512 = p" "int p mod 512 = 0"
      using off by (auto simp: k_def)
    then show ?thesis
      using aligned_read [OF sv, of "p div 512"] read_done_refl [OF sv] True bo off
      by (cases "?r = 0") (simp_all add: sfs_io_body_def Let_def p_def [symmetric] fbytes_def)
  next
    case False
    let ?n = "min (512 - k) ?r"
    have kl: "k < 512" "p div 512 * 512 + k = p" by (auto simp: k_def)
    have n1: "k + ?n \<le> 512" "?n \<le> ?r" and fb: "p div 512 < MAXBLOCKS" using kl(1) lim off by auto
    have "uio_offset (req_uio s) = int (p div 512) * 512 + int k" using off kl(2) by linarith
    then obtain s1 where s1: "sfs_partialio v k ?n s = Ret () s1" "read_done (fbytes s v p ?n) s s1"
      using sfs_partialio_read [OF sv _ kl(1) n1 fb] kl(2) by auto
    note r = read_done_serving [OF sv s1(2), simplified]
    have n: "nat ((512 - int k) mod 2 ^ 32) = 512 - k" using kl(1) by (simp add: nat_diff_distrib)
    show ?thesis
    proof (cases "?r \<le> 512 - k")
      case True
      then show ?thesis using s1 False bo r(2) n by (simp add: sfs_io_body_def Let_def p_def [symmetric])
    next
      case False': False
      let ?fb = "p div 512 + 1"
      have o1: "uio_offset (req_uio s1) = int ?fb * 512" using r(3) off kl False' by (simp add: min_def)
      have p1: "?fb * 512 = p + (512 - k)" using kl by (simp add: add_mult_distrib)
      have r1: "uio_resid (req_uio s1) = ?r - (512 - k)" using r(2) False' by simp
      obtain s2 where s2: "andthen (sfs_blocks (uio_resid (req_uio s1) div SFS_BLOCKSIZE) v s1)
             (\<lambda>_ s. kassert (uio_resid (req_uio s) < SFS_BLOCKSIZE)
               (if uio_resid (req_uio s) > 0 then sfs_partialio v 0 (uio_resid (req_uio s)) s
                else Ret () s)) = Ret () s2"
          "read_done (fbytes s1 v (?fb * 512) (uio_resid (req_uio s1))) s1 s2"
        using aligned_read [OF r(1) o1] by blast
      have "fbytes s v p ?r = fbytes s v p (512 - k) @ fbytes s v (p + (512 - k)) (?r - (512 - k))"
        using fbytes_append [of s v p "512 - k" "?r - (512 - k)"] False' by simp
      then have "read_done (fbytes s v p ?r) s s2"
        using read_done_append [OF s1(2) s2(2)] r(4) r1 p1 False' lt by (simp add: min_def)
      moreover have "sfs_io_body v s = Ret () s2"
        using s1(1) s2(1) False False' bo n r1 o1 by (simp add: sfs_io_body_def Let_def)
      ultimately show ?thesis by (simp add: p_def)
    qed
  qed
qed

lemma io_ok_shrink:
  "io_ok i \<Longrightarrow> r \<le> uio_resid (io_uio i) \<Longrightarrow> io_ok (i\<lparr>io_uio := (io_uio i)\<lparr>uio_resid := r\<rparr>\<rparr>)"
  by (auto simp: io_ok_def user_ok_def)

text \<open>Reading a region: the request receives the bytes of the file up to its end, and no more.\<close>

lemma sfs_io_read:
  assumes inv: "fs_inv s" and v: "sfs_vn s v = Some sv" and ok: "io_ok (sfs_req s)"
    and rw: "uio_rw (req_uio s) = UIO_READ" and sz: "sfi_size (sv_i sv) \<le> MAXBLOCKS * 512"
    and p: "p = nat (uio_offset (req_uio s))" and n: "n = min (uio_resid (req_uio s)) (sfi_size (sv_i sv) - p)"
  shows "\<exists>s'. sfs_io v s = Ret () s' \<and> read_done (fbytes s v p n) s s'"
proof -
  let ?u = "req_uio s" and ?z = "sfi_size (sv_i sv)"
  have off: "uio_offset ?u = int p" and r: "uio_resid ?u < 2 ^ 31" "p + uio_resid ?u < 2 ^ 31"
    using ok p by (auto simp: io_ok_def)
  have w: "off_wrap (int ?z) = int ?z" "off_wrap (int p + int (uio_resid ?u)) = int (p + uio_resid ?u)"
    using sz r by (auto simp: off_wrap_def)
  define x where "x = (if p + uio_resid ?u > ?z then p + uio_resid ?u - ?z else 0)"
  let ?s = "upd_uio (\<lambda>u. u\<lparr>uio_resid := uio_resid u - x\<rparr>) s"
  have out: "sfs_io_out v y t = upd_uio (\<lambda>u. u\<lparr>uio_resid := (uio_resid u + y) mod 2 ^ 32\<rparr>) t"
    if "uio_rw (req_uio t) = UIO_READ" for t y using that by (simp add: sfs_io_out_def Let_def split: option.split)
  show ?thesis
  proof (cases "?z \<le> p")
    case True
    have "read_done [] s s" using same_fs_refl [OF fs_inv_space [OF inv]] r by (auto simp: read_done_def intro!: exI [of _ s])
    moreover have "sfs_io v s = Ret () s" using v rw w off True by (simp add: sfs_io_def with_vn_def Let_def)
    ultimately show ?thesis using True n by (simp add: fbytes_def)
  next
    case False
    have x: "x \<le> uio_resid ?u" "uio_resid ?u - x = n" "x + n = uio_resid ?u"
      using False n by (auto simp: x_def)
    have "serving UIO_READ v ?s" using inv v ok rw sz x off False n
      by (auto simp: serving_def upd_uio_def io_ok_shrink)
    moreover have "uio_offset (req_uio ?s) < int MAXBLOCKS * 512" using off False sz by (simp add: upd_uio_def)
    ultimately obtain t where t: "sfs_io_body v ?s = Ret () t" "read_done (fbytes ?s v p n) ?s t"
      using sfs_io_body_read [of v ?s] x(2) p by (auto simp: upd_uio_def)
    have fb: "fbytes ?s v p n = fbytes s v p n" by (rule fbytes_cong) (simp_all add: upd_uio_def)
    obtain q where q: "same_fs ?s q" "t = q\<lparr>sfs_req := (sfs_req ?s)\<lparr>io_mem := store (io_mem (sfs_req ?s)) (iov_base (req_uio ?s)) (fbytes s v p n),
              io_uio := uio_advance n (req_uio ?s)\<rparr>\<rparr>" using t(2) fb by (auto simp: read_done_def)
    obtain d where d: "q = ?s\<lparr>sfs_device := d\<rparr>" "disk_ok d" "lh_sect d = block s" "lh_blocks d = lh_blocks (sfs_device s)"
      using q(1) by (auto simp: same_fs_def upd_uio_def)
    have adv: "(uio_advance n (?u\<lparr>uio_resid := n\<rparr>))\<lparr>uio_resid := x mod 2 ^ 32\<rparr> = uio_advance n ?u"
      using x r by (auto simp: uio_advance_def nat_diff_distrib)
    have "sfs_io_out v x t = s\<lparr>sfs_device := d, sfs_req := (sfs_req s)\<lparr>io_mem := store (io_mem (sfs_req s)) (iov_base ?u) (fbytes s v p n),
              io_uio := uio_advance n ?u\<rparr>\<rparr>"
      using q(2) d(1) rw x(2) adv by (simp add: out upd_uio_def uio_advance_resid uio_advance_def)
    moreover have "same_fs s (s\<lparr>sfs_device := d\<rparr>)" using d by (auto simp: same_fs_def)
    ultimately have rd: "read_done (fbytes s v p n) s (sfs_io_out v x t)" unfolding read_done_def by (metis length_fbytes)
    have "sfs_io v s = Ret () (sfs_io_out v x t)"
    proof (cases "p + uio_resid ?u > ?z")
      case True
      then have "nat ((int (p + uio_resid ?u) - int ?z) mod 2 ^ 32) = x" "x < uio_resid ?u"
        using r False by (auto simp: x_def nat_diff_distrib)
      then show ?thesis using v rw w off False t(1) True by (simp add: sfs_io_def with_vn_def Let_def)
    next
      case le: False
      then have "x = 0" by (simp add: x_def)
      then have "?s = s" by (simp add: upd_uio_def)
      then show ?thesis using v rw w off False t(1) le \<open>x = 0\<close> by (simp add: sfs_io_def with_vn_def Let_def)
    qed
    with rd show ?thesis by blast
  qed
qed

section \<open>Properties\<close>

text \<open>
  C1. Reading a region of a file: the bytes of the file from the offset on, as many as were asked
  for but none past its end, are stored in the caller's memory in order, holes as zeros; the
  request advances by their number, and nothing on disk or in the tables changes.
\<close>

theorem sfs_io_reads_file:
  assumes "fs_inv s" "sfs_vn s v = Some sv" "io_ok (sfs_req s)" "uio_rw (req_uio s) = UIO_READ"
    and "sfi_size (sv_i sv) \<le> MAXBLOCKS * 512" "p = nat (uio_offset (req_uio s))"
    and "n = min (uio_resid (req_uio s)) (sfi_size (sv_i sv) - p)"
  shows "\<exists>s'. sfs_io v s = Ret () s' \<and> read_done (fbytes s v p n) s s'"
  using assms by (rule sfs_io_read)

theorem sfs_io_reads_file_witness:
  "\<exists>s'. sfs_io 0 (sample_fs 510 300 UIO_READ) = Ret () s' \<and> uio_resid (req_uio s') = 210"
proof -
  let ?s = "sample_fs 510 300 UIO_READ"
  have u: "req_uio ?s = sample_uio 0x80001000 UIO_SYSSPACE None 510 300 UIO_READ" by (simp add: sample_fs_def)
  have "io_ok (sfs_req ?s)" by (simp add: io_ok_def u) (simp add: sample_uio_def)
  then have "\<exists>s'. sfs_io 0 ?s = Ret () s' \<and> read_done (fbytes ?s 0 510 90) ?s s'"
    by (intro sfs_io_reads_file [OF sample_fs_inv sample_vn]) (simp_all add: u sample_uio_def sample_inode_def)
  then show ?thesis by (auto simp: read_done_def u sample_uio_def uio_advance_def)
qed

end
