(* ===== verification/Sfs_Write.thy ===== *)
theory Sfs_Write
  imports Sfs_File
begin

text \<open>
  Correctness of the writing side of SFS file I/O: what a write does to the contents of the file
  it goes to, and that it does nothing to any other file.
\<close>

section \<open>Distinct blocks\<close>

lemma nth_filter_inj:
  assumes "distinct (filter (\<lambda>b. b \<noteq> 0) xs)" "i < length xs" "j < length xs" "xs ! i = xs ! j" "xs ! i \<noteq> (0::nat)"
  shows "i = j"
  using assms
proof (induction xs arbitrary: i j)
  case (Cons x xs)
  have mem: "k < length xs \<Longrightarrow> xs ! k \<noteq> 0 \<Longrightarrow> xs ! k \<in> set (filter (\<lambda>b. b \<noteq> 0) xs)" for k by simp
  show ?case
  proof (cases i; cases j)
    fix i' j' assume ij: "i = Suc i'" "j = Suc j'"
    have "distinct (filter (\<lambda>b. b \<noteq> 0) xs)" using Cons.prems(1) by (simp split: if_splits)
    then show ?thesis using Cons.IH [of i' j'] Cons.prems ij by simp
  qed (use Cons.prems mem in \<open>auto split: if_splits\<close>)
qed simp

lemma block_at_inj:
  assumes d: "distinct (file_blocks C i)" and len: "length (sfi_direct i) = 15"
    and k: "j < MAXBLOCKS" "k < MAXBLOCKS" "block_at C i j = block_at C i k" "block_at C i j \<noteq> 0"
  shows "j = k"
proof -
  let ?E = "dec32s 128 (C (sfi_indirect i))"
  have dd: "distinct (filter (\<lambda>b. b \<noteq> 0) (sfi_direct i))" using d by (simp add: file_blocks_def)
  have ed: "sfi_indirect i \<noteq> 0 \<Longrightarrow> distinct (filter (\<lambda>b. b \<noteq> 0) ?E)"
    and dis: "sfi_indirect i \<noteq> 0 \<Longrightarrow> set (filter (\<lambda>b. b \<noteq> 0) (sfi_direct i)) \<inter> set (filter (\<lambda>b. b \<noteq> 0) ?E) = {}"
    using d by (auto simp: file_blocks_def indirect_blocks_def)
  have dm: "m < 15 \<Longrightarrow> sfi_direct i ! m \<noteq> 0 \<Longrightarrow> sfi_direct i ! m \<in> set (filter (\<lambda>b. b \<noteq> 0) (sfi_direct i))" for m
    using len by simp
  have em: "m < 128 \<Longrightarrow> ?E ! m \<noteq> 0 \<Longrightarrow> ?E ! m \<in> set (filter (\<lambda>b. b \<noteq> 0) ?E)" for m by simp
  have mixed: False if "m < 15" "n < 128" "sfi_indirect i \<noteq> 0" "sfi_direct i ! m = ?E ! n" "?E ! n \<noteq> 0" for m n
    using dis [OF that(3)] dm [OF that(1)] em [OF that(2,5)] that(4,5) by (metis disjoint_iff)
  have low: "block_at C i m = sfi_direct i ! m" if "m < 15" for m using that by (simp add: block_at_def)
  have high: "sfi_indirect i \<noteq> 0" "block_at C i m = ?E ! (m - 15)" if "\<not> m < 15" "block_at C i m \<noteq> 0" for m
    using that by (simp_all add: block_at_def split: if_splits)
  have k0: "block_at C i k \<noteq> 0" "j - 15 < 128" "k - 15 < 128" using k by auto
  consider "j < 15" "k < 15" | "j < 15" "\<not> k < 15" | "\<not> j < 15" "k < 15" | "\<not> j < 15" "\<not> k < 15" by blast
  then show ?thesis
  proof cases
    case 1
    then show ?thesis using nth_filter_inj [OF dd] len k low by simp
  next
    case 2
    then show ?thesis using mixed [of j "k - 15"] high [OF 2(2) k0(1)] low [OF 2(1)] k k0 by simp
  next
    case 3
    then show ?thesis using mixed [of k "j - 15"] high [OF 3(1) k(4)] low [OF 3(2)] k k0 by simp
  next
    case 4
    have "j - 15 = k - 15"
      using nth_filter_inj [OF ed [OF high(1) [OF 4(1) k(4)]], of "j - 15" "k - 15"]
        high(2) [OF 4(1) k(4)] high(2) [OF 4(2) k0(1)] k k0 by simp
    then show ?thesis using 4 by simp
  qed
qed

lemma block_at_not_indirect:
  assumes d: "distinct (file_blocks C i)" and len: "length (sfi_direct i) = 15"
    and k: "k < MAXBLOCKS" "block_at C i k \<noteq> 0"
  shows "block_at C i k \<noteq> sfi_indirect i"
proof (cases "k < 15")
  case True
  then have "sfi_direct i ! k \<in> set (filter (\<lambda>b. b \<noteq> 0) (sfi_direct i))" using k len by (simp add: block_at_def)
  moreover have "sfi_indirect i \<notin> set (filter (\<lambda>b. b \<noteq> 0) (sfi_direct i))"
    using d by (cases "sfi_indirect i = 0") (simp_all add: file_blocks_def indirect_blocks_def)
  ultimately show ?thesis using True by (auto simp: block_at_def)
next
  case False
  then have e: "sfi_indirect i \<noteq> 0" "block_at C i k = dec32s 128 (C (sfi_indirect i)) ! (k - 15)"
    using k by (auto simp: block_at_def split: if_splits)
  then have "block_at C i k \<in> set (filter (\<lambda>b. b \<noteq> 0) (dec32s 128 (C (sfi_indirect i))))" using k False by simp
  moreover have "sfi_indirect i \<notin> set (filter (\<lambda>b. b \<noteq> 0) (dec32s 128 (C (sfi_indirect i))))"
    using d e(1) by (simp add: file_blocks_def indirect_blocks_def)
  ultimately show ?thesis by metis
qed

lemma file_blocks_cases:
  assumes "x \<in> set (file_blocks C i)" "length (sfi_direct i) = 15"
  shows "x \<noteq> 0 \<and> (x = sfi_indirect i \<or> (\<exists>k < MAXBLOCKS. block_at C i k = x))"
proof -
  let ?E = "dec32s 128 (C (sfi_indirect i))"
  consider "x \<in> set (sfi_direct i)" "x \<noteq> 0" | "x = sfi_indirect i" "x \<noteq> 0"
    | "x \<in> set ?E" "x \<noteq> 0" "sfi_indirect i \<noteq> 0"
    using assms(1) by (auto simp: file_blocks_def indirect_blocks_def split: if_splits)
  then show ?thesis
  proof cases
    case 1
    then obtain k where "k < 15" "sfi_direct i ! k = x" using assms(2) by (auto simp: in_set_conv_nth)
    then show ?thesis using 1 by (auto simp: block_at_def intro!: exI [of _ k])
  next
    case 3
    then obtain k where "k < 128" "?E ! k = x" by (auto simp: in_set_conv_nth)
    then show ?thesis using 3 by (auto simp: block_at_def intro!: exI [of _ "15 + k"])
  qed simp
qed

lemma block_at_upd: "b \<noteq> sfi_indirect i \<Longrightarrow> block_at (C(b := data)) i k = block_at C i k"
  by (simp add: block_at_def)

section \<open>What a write does\<close>

text \<open>A vnode whose block pointers may have changed, and nothing else.\<close>

definition same_vnode :: "sfs_vnode \<Rightarrow> sfs_vnode \<Rightarrow> bool" where
  "same_vnode sv sv' \<longleftrightarrow> sv_ops sv' = sv_ops sv \<and> sv_refcount sv' = sv_refcount sv \<and>
     sv_opencount sv' = sv_opencount sv \<and> sv_ino sv' = sv_ino sv \<and>
     sfi_size (sv_i sv') = sfi_size (sv_i sv) \<and> sfi_type (sv_i sv') = sfi_type (sv_i sv) \<and>
     sfi_linkcount (sv_i sv') = sfi_linkcount (sv_i sv) \<and> sfi_waste (sv_i sv') = sfi_waste (sv_i sv)"

lemma same_vnodeI:
  assumes eq: "sv' = sv\<lparr>sv_i := (sv_i sv)\<lparr>sfi_direct := D, sfi_indirect := i\<rparr>, sv_dirty := b\<rparr>"
  shows "same_vnode sv sv'"
  using arg_cong [OF eq, of sv_ops] arg_cong [OF eq, of sv_refcount] arg_cong [OF eq, of sv_opencount]
    arg_cong [OF eq, of sv_ino] arg_cong [OF eq, of sv_i]
  by (simp add: same_vnode_def)

lemma same_vnode_trans: "same_vnode a b \<Longrightarrow> same_vnode b c \<Longrightarrow> same_vnode a c"
  by (simp add: same_vnode_def)

text \<open>
  The effect of writing \<open>bs\<close> at position \<open>p\<close> of file \<open>v\<close>: the file system stays consistent, the
  bytes of the file are replaced, all blocks in use that do not belong to the file keep their
  contents, and no other vnode changes.
\<close>

definition wrote :: "vref \<Rightarrow> nat \<Rightarrow> u8 list \<Rightarrow> sfs \<Rightarrow> sfs \<Rightarrow> bool" where
  "wrote v p bs s s' \<longleftrightarrow> fs_inv s' \<and> used s \<subseteq> used s' \<and> sfs_super s' = sfs_super s \<and>
     sfs_vnodes s' = sfs_vnodes s \<and> sfs_kmem s' = sfs_kmem s \<and> (\<forall>w. w \<noteq> v \<longrightarrow> sfs_vn s' w = sfs_vn s w) \<and>
     (\<exists>sv sv'. sfs_vn s v = Some sv \<and> sfs_vn s' v = Some sv' \<and> same_vnode sv sv' \<and>
        (\<forall>x \<in> used s. x \<notin> set (file_blocks (block s) (sv_i sv)) \<longrightarrow>
           block s' x = block s x \<and> x \<notin> set (file_blocks (block s') (sv_i sv')))) \<and>
     (\<forall>q < MAXBLOCKS * 512. fbyte s' v q = (if p \<le> q \<and> q < p + length bs then bs ! (q - p) else fbyte s v q))"

lemma wroteD:
  assumes "wrote v p bs s s'"
  shows "fs_inv s'" "used s \<subseteq> used s'" "sfs_super s' = sfs_super s" "sfs_vnodes s' = sfs_vnodes s"
    "sfs_kmem s' = sfs_kmem s" "w \<noteq> v \<Longrightarrow> sfs_vn s' w = sfs_vn s w"
    "q < MAXBLOCKS * 512 \<Longrightarrow> fbyte s' v q = (if p \<le> q \<and> q < p + length bs then bs ! (q - p) else fbyte s v q)"
  using assms unfolding wrote_def by blast+

lemma wrote_vn:
  assumes "wrote v p bs s s'" "sfs_vn s v = Some sv"
  shows "\<exists>sv'. sfs_vn s' v = Some sv' \<and> same_vnode sv sv' \<and>
    (\<forall>x \<in> used s. x \<notin> set (file_blocks (block s) (sv_i sv)) \<longrightarrow>
       block s' x = block s x \<and> x \<notin> set (file_blocks (block s') (sv_i sv')))"
  using assms unfolding wrote_def by (metis option.inject)

lemma wroteI:
  assumes "fs_inv s'" "used s \<subseteq> used s'" "sfs_super s' = sfs_super s" "sfs_vnodes s' = sfs_vnodes s"
    "sfs_kmem s' = sfs_kmem s" "\<And>w. w \<noteq> v \<Longrightarrow> sfs_vn s' w = sfs_vn s w"
    "sfs_vn s v = Some sv" "sfs_vn s' v = Some sv'" "same_vnode sv sv'"
    "\<And>x. x \<in> used s \<Longrightarrow> x \<notin> set (file_blocks (block s) (sv_i sv)) \<Longrightarrow>
       block s' x = block s x \<and> x \<notin> set (file_blocks (block s') (sv_i sv'))"
    "\<And>q. q < MAXBLOCKS * 512 \<Longrightarrow>
       fbyte s' v q = (if p \<le> q \<and> q < p + length bs then bs ! (q - p) else fbyte s v q)"
  shows "wrote v p bs s s'"
  unfolding wrote_def using assms by blast

lemma wrote_trans:
  assumes "wrote v p bs s s1" "wrote v (p + length bs) cs s1 s2"
  shows "wrote v p (bs @ cs) s s2"
proof -
  note d1 = wroteD [OF assms(1)] and d2 = wroteD [OF assms(2)]
  obtain sv where sv: "sfs_vn s v = Some sv" using assms(1) unfolding wrote_def by blast
  obtain sv1 where a: "sfs_vn s1 v = Some sv1" "same_vnode sv sv1"
    "\<And>x. x \<in> used s \<Longrightarrow> x \<notin> set (file_blocks (block s) (sv_i sv)) \<Longrightarrow>
       block s1 x = block s x \<and> x \<notin> set (file_blocks (block s1) (sv_i sv1))"
    using wrote_vn [OF assms(1) sv] by blast
  obtain sv2 where b: "sfs_vn s2 v = Some sv2" "same_vnode sv1 sv2"
    "\<And>x. x \<in> used s1 \<Longrightarrow> x \<notin> set (file_blocks (block s1) (sv_i sv1)) \<Longrightarrow>
       block s2 x = block s1 x \<and> x \<notin> set (file_blocks (block s2) (sv_i sv2))"
    using wrote_vn [OF assms(2) a(1)] by blast
  have keep: "block s2 x = block s x \<and> x \<notin> set (file_blocks (block s2) (sv_i sv2))"
    if "x \<in> used s" "x \<notin> set (file_blocks (block s) (sv_i sv))" for x
    using a(3) [OF that] b(3) [of x] d1(2) that(1) by auto
  have "fbyte s2 v q = (if p \<le> q \<and> q < p + length (bs @ cs) then (bs @ cs) ! (q - p) else fbyte s v q)"
    if "q < MAXBLOCKS * 512" for q
    using d1(7) [OF that] d2(7) [OF that] by (auto simp: nth_append)
  then show ?thesis
    using d1(1-6) d2(1-6) keep same_vnode_trans [OF a(2) b(2)] by (intro wroteI [OF _ _ _ _ _ _ sv b(1)]) auto
qed

section \<open>Mapping and writing a block\<close>

text \<open>
  Allocation alone changes no byte of the file: a block that was mapped stays mapped, and one that
  becomes mapped is cleared.
\<close>

lemma wrote_nothingI:
  assumes inv: "fs_inv s" and c: "fs_inv t" "used s \<subseteq> used t" "sfs_super t = sfs_super s" "sfs_vnodes t = sfs_vnodes s"
      "sfs_kmem t = sfs_kmem s" "\<And>w. w \<noteq> v \<Longrightarrow> sfs_vn t w = sfs_vn s w"
    and v: "sfs_vn s v = Some sv" "sfs_vn t v = Some sv'" "same_vnode sv sv'"
    and ind: "sfi_indirect (sv_i sv') = sfi_indirect (sv_i sv) \<or> sfi_indirect (sv_i sv') \<notin> used s"
    and at: "\<And>k. k < MAXBLOCKS \<Longrightarrow> block_at (block t) (sv_i sv') k = block_at (block s) (sv_i sv) k \<or>
        block_at (block s) (sv_i sv) k = 0 \<and> block_at (block t) (sv_i sv') k \<notin> used s \<and>
        block t (block_at (block t) (sv_i sv') k) = replicate 512 0"
    and old: "\<And>x. x \<in> used s \<Longrightarrow> x = 0 \<or> x \<noteq> sfi_indirect (sv_i sv) \<Longrightarrow> block t x = block s x"
  shows "wrote v p [] s t"
proof -
  note fv = fs_inv_vnode [OF inv v(1)] and fv' = fs_inv_vnode [OF c(1) v(2)]
  have keep: "block t x = block s x \<and> x \<notin> set (file_blocks (block t) (sv_i sv'))"
    if x: "x \<in> used s" "x \<notin> set (file_blocks (block s) (sv_i sv))" for x
  proof -
    have i: "x = 0 \<or> x \<noteq> sfi_indirect (sv_i sv)" using indirect_in_blocks [of "sv_i sv" "block s"] x(2) by auto
    have "x \<notin> set (file_blocks (block t) (sv_i sv'))"
    proof
      assume "x \<in> set (file_blocks (block t) (sv_i sv'))"
      then consider "x = sfi_indirect (sv_i sv')" "x \<noteq> 0"
        | k where "k < MAXBLOCKS" "block_at (block t) (sv_i sv') k = x" "x \<noteq> 0"
        using file_blocks_cases [OF _ fv'(1)] by blast
      then show False
      proof cases
        case 1
        then show False using ind i x(1) by auto
      next
        case (2 k)
        then show False using at [OF 2(1)] block_at_in_blocks [OF fv(1) 2(1)] x by auto
      qed
    qed
    with old [OF x(1) i] show ?thesis by blast
  qed
  have bytes: "fbyte t v q = fbyte s v q" if q: "q < MAXBLOCKS * 512" for q
  proof -
    define k where "k = q div 512"
    have k: "k < MAXBLOCKS" using q by (simp add: k_def)
    let ?x = "block_at (block s) (sv_i sv) k"
    show ?thesis
    proof (cases "?x = 0")
      case True
      then show ?thesis using v at [OF k] by (auto simp: fbyte_def Let_def k_def [symmetric])
    next
      case False
      have "?x \<in> used s" using mapped_ok [OF inv v(1) k] False by simp
      moreover have "?x \<noteq> sfi_indirect (sv_i sv)" using block_at_not_indirect [OF fv(2,1) k False] .
      ultimately have "block t ?x = block s ?x" using old by blast
      then show ?thesis using v False at [OF k] by (auto simp: fbyte_def Let_def k_def [symmetric])
    qed
  qed
  show ?thesis using c keep bytes by (intro wroteI [OF _ _ _ _ _ _ v]) auto
qed

lemma bmapped_wrote:
  assumes inv: "fs_inv s" and bm: "bmapped v fb b s t"
  shows "wrote v p [] s t"
proof -
  obtain sv sv' where m: "sfs_vn s v = Some sv" "sfs_vn t v = Some sv'"
      "sv' = sv\<lparr>sv_i := (sv_i sv)\<lparr>sfi_direct := sfi_direct (sv_i sv'), sfi_indirect := sfi_indirect (sv_i sv')\<rparr>,
                 sv_dirty := sv_dirty sv'\<rparr>"
      "sfi_indirect (sv_i sv') = sfi_indirect (sv_i sv) \<or> sfi_indirect (sv_i sv') \<notin> used s"
      "block_at (block t) (sv_i sv') fb = b"
      "\<And>k. k < MAXBLOCKS \<Longrightarrow> k \<noteq> fb \<Longrightarrow> block_at (block t) (sv_i sv') k = block_at (block s) (sv_i sv) k"
      "\<And>x. x \<in> used s \<Longrightarrow> x = 0 \<or> x \<noteq> sfi_indirect (sv_i sv) \<Longrightarrow> block t x = block s x"
      "if block_at (block s) (sv_i sv) fb = 0 then b \<notin> used s \<and> block t b = replicate 512 0
       else b = block_at (block s) (sv_i sv) fb \<and> block t = block s"
    using bm unfolding bmapped_def by blast
  have c: "fs_inv t" "used s \<subseteq> used t" "sfs_super t = sfs_super s" "sfs_vnodes t = sfs_vnodes s"
      "sfs_kmem t = sfs_kmem s" "\<And>w. w \<noteq> v \<Longrightarrow> sfs_vn t w = sfs_vn s w"
    using bm unfolding bmapped_def by blast+
  have "block_at (block t) (sv_i sv') k = block_at (block s) (sv_i sv) k \<or>
        block_at (block s) (sv_i sv) k = 0 \<and> block_at (block t) (sv_i sv') k \<notin> used s \<and>
        block t (block_at (block t) (sv_i sv') k) = replicate 512 0" if "k < MAXBLOCKS" for k
    using m(5,8) m(6) [OF that] by (cases "k = fb") (auto split: if_splits)
  then show ?thesis using c m(4,7) by (intro wrote_nothingI [OF inv _ _ _ _ _ _ m(1,2) same_vnodeI [OF m(3)]]) auto
qed

lemma wrote_same:
  assumes "fs_inv s" "same_fs s t" "sfs_vn s v = Some sv"
  shows "wrote v p [] s t"
proof -
  note k = same_fs_simps [OF assms(2)]
  have "sfs_vnodes t = sfs_vnodes s" "sfs_kmem t = sfs_kmem s" using assms(2) by (auto simp: same_fs_def)
  then show ?thesis
    using same_fs_inv [OF assms(2,1)] assms(3) k
    by (intro wrote_nothingI [OF assms(1) _ _ _ _ _ _ assms(3), of t sv]) (simp_all add: same_vnode_def)
qed

lemma indirect_added_wrote:
  assumes inv: "fs_inv s" and add: "indirect_added v ib s t" and sv: "sfs_vn s v = Some sv"
  shows "wrote v p [] s t"
proof -
  have v: "sfs_vn s v = Some sv" "sfi_indirect (sv_i sv) = 0" using sv add unfolding indirect_added_def by auto
  let ?sv = "sv\<lparr>sv_i := (sv_i sv)\<lparr>sfi_indirect := ib\<rparr>, sv_dirty := True\<rparr>"
  have a: "fs_inv t" "used s \<subseteq> used t" "sfs_super t = sfs_super s" "sfs_vnodes t = sfs_vnodes s"
    "sfs_kmem t = sfs_kmem s" "\<And>w. w \<noteq> v \<Longrightarrow> sfs_vn t w = sfs_vn s w" "ib \<notin> used s"
    "block t = (block s)(ib := replicate 512 0)" "sfs_vn t v = Some ?sv"
    using add v unfolding indirect_added_def by auto
  have "block_at (block t) (sv_i ?sv) k = block_at (block s) (sv_i sv) k" if "k < MAXBLOCKS" for k
    using indirect_added_at [OF add v that] by simp
  then show ?thesis
    using a(7,8) by (intro wrote_nothingI [OF inv a(1-6) v(1) a(9)]) (auto simp: same_vnode_def)
qed

text \<open>Replacing the contents of a data block that the file is mapped to.\<close>

lemma block_written:
  assumes inv: "fs_inv s" and v: "sfs_vn s v = Some sv" and fb: "fb < MAXBLOCKS"
    and b: "b = block_at (block s) (sv_i sv) fb" "b \<noteq> 0"
    and d: "disk_ok d" "lh_sect d = (block s)(b := take k (block s b) @ bs @ drop (k + length bs) (block s b))"
      "lh_blocks d = lh_blocks (sfs_device s)" and k: "k + length bs \<le> 512"
  shows "wrote v (fb * 512 + k) bs s (s\<lparr>sfs_device := d\<rparr>)"
proof -
  let ?t = "s\<lparr>sfs_device := d\<rparr>"
  note fv = fs_inv_vnode [OF inv]
  have bF: "b \<in> set (file_blocks (block s) (sv_i sv))"
    using block_at_in_blocks [OF fv(1) [OF v] fb] b by simp
  have nid: "b \<noteq> sfi_indirect (sv_i sw)" if "sfs_vn s w = Some sw" for w sw
  proof (cases "w = v")
    case True
    then show ?thesis using block_at_not_indirect [OF fv(2,1) [OF v] fb] b that v by auto
  next
    case False
    then show ?thesis
      using fs_inv_other(1) [OF inv that v] bF b(2) indirect_in_blocks [of "sv_i sw" "block s"] by auto
  qed
  have blks: "file_blocks (lh_sect d) (sv_i sw) = file_blocks (block s) (sv_i sw)" if "sfs_vn s w = Some sw" for w sw
    using nid [OF that] d(2) by (simp add: file_blocks_def indirect_blocks_def)
  have "vnodes_ok s" using inv by (simp add: fs_inv_def)
  then have "vnodes_ok ?t" unfolding vnodes_ok_def using blks by simp
  then have inv': "fs_inv ?t" using space_ok_device [OF fs_inv_space [OF inv] d(1,3)] by (simp add: fs_inv_def)
  have at: "block_at (lh_sect d) (sv_i sv) j = block_at (block s) (sv_i sv) j" for j
    using nid [OF v] d(2) by (simp add: block_at_upd)
  have len: "length (block s b) = 512" using block_length [OF fs_inv_space [OF inv]] .
  have bytes: "fbyte ?t v q = (if fb * 512 + k \<le> q \<and> q < fb * 512 + k + length bs then bs ! (q - (fb * 512 + k)) else fbyte s v q)"
    if q: "q < MAXBLOCKS * 512" for q
  proof (cases "q div 512 = fb")
    case True
    define r where "r = q mod 512"
    have r: "q = fb * 512 + r" "r < 512" "q mod 512 = r" using True by (auto simp: r_def)
    have "(take k (block s b) @ bs @ drop (k + length bs) (block s b)) ! r =
        (if k \<le> r \<and> r < k + length bs then bs ! (r - k) else block s b ! r)"
      using r(2) k len by (auto simp: nth_append)
    then show ?thesis using v b at True d(2) r by (simp add: fbyte_def Let_def)
  next
    case False
    have n: "q div 512 < MAXBLOCKS" using q by simp
    have "block_at (block s) (sv_i sv) (q div 512) \<noteq> b"
      using block_at_inj [OF fv(2,1) [OF v] n fb] b False by auto
    moreover have out: "\<not> (fb * 512 + k \<le> q \<and> q < fb * 512 + k + length bs)"
    proof
      assume "fb * 512 + k \<le> q \<and> q < fb * 512 + k + length bs"
      then have "fb * 512 \<le> q" "q < Suc fb * 512" using k by auto
      then show False using False by (simp add: div_nat_eqI)
    qed
    ultimately have "fbyte ?t v q = fbyte s v q" using v at d(2) by (simp add: fbyte_def Let_def)
    then show ?thesis using out by (simp only: if_False)
  qed
  show ?thesis
    using inv' bytes blks [OF v] bF d(2)
    by (intro wroteI [OF _ _ _ _ _ _ v, of ?t sv]) (auto simp: v same_vnode_def)
qed

section \<open>Serving a write request\<close>

lemma fbyte_req [simp]: "fbyte (s\<lparr>sfs_req := r\<rparr>) = fbyte s"
  unfolding fbyte_def fun_eq_iff by (simp add: Let_def split: option.split)

lemma wrote_req [simp]:
  "wrote v p bs s (s'\<lparr>sfs_req := r\<rparr>) = wrote v p bs s s'" "wrote v p bs (s\<lparr>sfs_req := r\<rparr>) s' = wrote v p bs s s'"
  unfolding wrote_def by simp_all

text \<open>The first \<open>n\<close> bytes of the request have been written.\<close>

definition wdone :: "vref \<Rightarrow> nat \<Rightarrow> sfs \<Rightarrow> sfs \<Rightarrow> bool" where
  "wdone v n s s' \<longleftrightarrow>
     wrote v (nat (uio_offset (req_uio s))) (load (io_mem (sfs_req s)) (iov_base (req_uio s)) n) s s' \<and>
     sfs_req s' = (sfs_req s)\<lparr>io_uio := uio_advance n (req_uio s)\<rparr>"

text \<open>All of the \<open>n\<close> bytes asked for, or as many as there was space for.\<close>

definition wserved :: "vref \<Rightarrow> nat \<Rightarrow> sfs \<Rightarrow> (sfs, unit) outcome \<Rightarrow> bool" where
  "wserved v n s r \<longleftrightarrow> (\<exists>s'. r = Ret () s' \<and> wdone v n s s') \<or>
     (\<exists>s' k. r = Err ENOSPC s' \<and> k \<le> n \<and> wdone v k s s')"

text \<open>The same for a region inside one block: all of it or nothing.\<close>

definition wserved1 :: "vref \<Rightarrow> nat \<Rightarrow> sfs \<Rightarrow> (sfs, unit) outcome \<Rightarrow> bool" where
  "wserved1 v n s r \<longleftrightarrow> (\<exists>s'. r = Ret () s' \<and> wdone v n s s') \<or> (\<exists>s'. r = Err ENOSPC s' \<and> wdone v 0 s s')"

lemma wserved1_wserved: "wserved1 v n s r \<Longrightarrow> wserved v n s r"
  by (auto simp: wserved1_def wserved_def)

lemma load_append: "load m a (i + j) = load m a i @ load m (a + of_nat i) j"
proof -
  have "[0..<i + j] = [0..<i] @ map (\<lambda>n. n + i) [0..<j]"
    using upt_add_eq_append [of 0 i j] map_add_upt [of i j] by (simp add: add.commute [of i])
  then show ?thesis by (simp add: load_def addrs_def algebra_simps)
qed

lemma wdone_serving:
  assumes "serving UIO_WRITE v s" "wdone v n s s'" "n \<le> uio_resid (req_uio s)"
  shows "serving UIO_WRITE v s'" "uio_resid (req_uio s') = uio_resid (req_uio s) - n"
    "uio_offset (req_uio s') = uio_offset (req_uio s) + int n"
proof -
  have ok: "io_ok (sfs_req s)" using assms(1) by (simp add: serving_def)
  have req: "sfs_req s' = (sfs_req s)\<lparr>io_uio := uio_advance n (req_uio s)\<rparr>" using assms(2) by (simp add: wdone_def)
  show r: "uio_resid (req_uio s') = uio_resid (req_uio s) - n"
    using req ok assms(3) uio_advance_resid [of n "req_uio s"] by (simp add: io_ok_def)
  show o: "uio_offset (req_uio s') = uio_offset (req_uio s) + int n" using req by simp
  have "io_ok (sfs_req s')" using req io_ok_advance [OF ok assms(3), of "io_mem (sfs_req s)"] by simp
  moreover have "fs_inv s'" "sfs_vn s' v \<noteq> None" using assms(2) unfolding wdone_def wrote_def by auto
  ultimately show "serving UIO_WRITE v s'"
    using assms(1,3) r o ok req by (auto simp: serving_def io_ok_def nat_add_distrib)
qed

lemma wdone_trans:
  assumes "serving UIO_WRITE v s" "wdone v a s s1" "wdone v b s1 s2" "a + b \<le> uio_resid (req_uio s)"
  shows "wdone v (a + b) s s2"
proof -
  let ?m = "io_mem (sfs_req s)" and ?p = "nat (uio_offset (req_uio s))" and ?b = "iov_base (req_uio s)"
  have ok: "0 \<le> uio_offset (req_uio s)" "uio_resid (req_uio s) < 2 ^ 32"
    using assms(1) by (auto simp: serving_def io_ok_def)
  have r1: "sfs_req s1 = (sfs_req s)\<lparr>io_uio := uio_advance a (req_uio s)\<rparr>" using assms(2) by (simp add: wdone_def)
  have "wrote v (?p + a) (load ?m (?b + of_nat a) b) s1 s2"
    using assms(3) r1 ok by (simp add: wdone_def nat_add_distrib)
  moreover have "wrote v ?p (load ?m ?b a) s s1" using assms(2) by (simp add: wdone_def)
  ultimately have "wrote v ?p (load ?m ?b (a + b)) s s2"
    using wrote_trans [of v ?p "load ?m ?b a" s s1] by (simp add: load_append)
  moreover have "sfs_req s2 = (sfs_req s)\<lparr>io_uio := uio_advance (a + b) (req_uio s)\<rparr>"
    using assms(3,4) r1 ok uio_advance_add [of a b "req_uio s"] by (simp add: wdone_def)
  ultimately show ?thesis by (simp add: wdone_def)
qed

lemma wserved_andthen:
  assumes "serving UIO_WRITE v s" "wserved v a s r" "a + b \<le> uio_resid (req_uio s)"
    and "\<And>s1. wdone v a s s1 \<Longrightarrow> wserved v b s1 (f s1)"
  shows "wserved v (a + b) s (andthen r (\<lambda>_. f))"
proof -
  consider s1 where "r = Ret () s1" "wdone v a s s1" | s1 k where "r = Err ENOSPC s1" "k \<le> a" "wdone v k s s1"
    using assms(2) unfolding wserved_def by blast
  then show ?thesis
  proof cases
    case 1
    consider s2 where "f s1 = Ret () s2" "wdone v b s1 s2" | s2 k where "f s1 = Err ENOSPC s2" "k \<le> b" "wdone v k s1 s2"
      using assms(4) [OF 1(2)] unfolding wserved_def by blast
    then show ?thesis
    proof cases
      case (1 s2)
      then show ?thesis
        using \<open>r = Ret () s1\<close> wdone_trans [OF assms(1) \<open>wdone v a s s1\<close> 1(2) assms(3)] by (simp add: wserved_def)
    next
      case (2 s2 k)
      then have "wdone v (a + k) s s2" using wdone_trans [OF assms(1) \<open>wdone v a s s1\<close> 2(3)] assms(3) by simp
      then show ?thesis using \<open>r = Ret () s1\<close> 2 by (auto simp: wserved_def intro!: exI [of _ "a + k"])
    qed
  next
    case (2 s1 k)
    then show ?thesis by (auto simp: wserved_def intro!: exI [of _ k])
  qed
qed

lemma wdone_0:
  assumes "serving UIO_WRITE v s" "\<And>p. wrote v p [] s s'" "sfs_req s' = sfs_req s"
  shows "wdone v 0 s s'"
proof -
  have "uio_resid (req_uio s) < 2 ^ 32" using assms(1) by (simp add: serving_def io_ok_def)
  then show ?thesis using assms by (simp add: wdone_def load_def addrs_def)
qed

lemma wdone_refl:
  assumes "serving UIO_WRITE v s"
  shows "wdone v 0 s s"
proof -
  obtain sv where "sfs_vn s v = Some sv" "fs_inv s" using assms by (auto simp: serving_def)
  then show ?thesis using wrote_same [OF _ same_fs_refl] assms by (intro wdone_0) (auto simp: fs_inv_def)
qed

lemma wrote_other:
  assumes "fs_inv s" "wrote v p bs s s'" "w \<noteq> v" "q < MAXBLOCKS * 512"
  shows "fbyte s' w q = fbyte s w q"
proof (cases "sfs_vn s w")
  case None
  then show ?thesis using wroteD(6) [OF assms(2,3)] by (simp add: fbyte_def)
next
  case (Some sw)
  obtain sv where sv: "sfs_vn s v = Some sv" using assms(2) unfolding wrote_def by blast
  have keep: "block s' x = block s x" if "x \<in> set (file_blocks (block s) (sv_i sw))" for x
  proof -
    have "x \<in> used s" "x \<notin> set (file_blocks (block s) (sv_i sv))"
      using fs_inv_vnode(3) [OF assms(1) Some] fs_inv_other(1) [OF assms(1) Some sv assms(3)] that by auto
    then show ?thesis using wrote_vn [OF assms(2) sv] by blast
  qed
  have at: "block_at (block s') (sv_i sw) k = block_at (block s) (sv_i sw) k" for k
    using keep [of "sfi_indirect (sv_i sw)"] indirect_in_blocks [of "sv_i sw" "block s"] by (auto simp: block_at_def)
  have "block s' (block_at (block s) (sv_i sw) (q div 512)) = block s (block_at (block s) (sv_i sw) (q div 512))"
    if "block_at (block s) (sv_i sw) (q div 512) \<noteq> 0"
    using keep block_at_in_blocks [OF fs_inv_vnode(1) [OF assms(1) Some] _ that] assms(4) by simp
  then show ?thesis using Some wroteD(6) [OF assms(2,3)] at by (simp add: fbyte_def Let_def)
qed

lemma bmap_write:
  assumes sv: "serving UIO_WRITE v s" and off: "uio_offset (req_uio s) = int fb * 512 + int k" "k < 512"
    and fb: "fb < MAXBLOCKS"
  shows "(\<exists>b t sv'. sfs_bmap v (file_block (uio_offset (req_uio s))) True s = Ret b t \<and> wdone v 0 s t \<and>
            sfs_vn t v = Some sv' \<and> b = block_at (block t) (sv_i sv') fb \<and> b \<noteq> 0) \<or>
         (\<exists>t. sfs_bmap v (file_block (uio_offset (req_uio s))) True s = Err ENOSPC t \<and> wdone v 0 s t)"
proof -
  obtain vn where v: "sfs_vn s v = Some vn" and inv: "fs_inv s" using sv by (auto simp: serving_def)
  have "file_block (uio_offset (req_uio s)) = fb" using off fb by simp
  moreover have "wdone v 0 s t" if "bmapped v fb b s t" for b t
    using bmapped_wrote [OF inv that] that by (intro wdone_0 [OF sv]) (simp_all add: bmapped_def)
  moreover have "\<exists>sv'. sfs_vn t v = Some sv' \<and> b = block_at (block t) (sv_i sv') fb \<and> b \<noteq> 0" if "bmapped v fb b s t" for b t
    using that unfolding bmapped_def by blast
  moreover have "wdone v 0 s t" if f: "bmap_failed v s t" for t
  proof -
    have r: "sfs_req t = sfs_req s" using f by (simp add: bmap_failed_def)
    consider "t = s" | "same_fs s t" | ib u where "indirect_added v ib s u" "same_fs u t"
      using f unfolding bmap_failed_def by blast
    then show ?thesis
    proof cases
      case 1
      then show ?thesis using wdone_refl [OF sv] by simp
    next
      case 2
      then show ?thesis using wrote_same [OF inv 2 v] r by (intro wdone_0 [OF sv])
    next
      case 3
      have w: "wrote v p [] s u" for p using indirect_added_wrote [OF inv 3(1) v] .
      obtain su where "sfs_vn u v = Some su" using wrote_vn [OF w v] by blast
      then have "wrote v p [] u t" for p using wrote_same [OF wroteD(1) [OF w] 3(2)] by blast
      then have "wrote v p [] s t" for p using wrote_trans [OF w, of p "[]" t] by simp
      then show ?thesis using r by (intro wdone_0 [OF sv])
    qed
  qed
  ultimately show ?thesis using sfs_bmap_alloc [OF inv v fb] by metis
qed

lemma wdone_0_req: "serving UIO_WRITE v s \<Longrightarrow> wdone v 0 s t \<Longrightarrow> sfs_req t = sfs_req s"
  by (simp add: wdone_def serving_def io_ok_def)

text \<open>Writing a data block after it has been mapped completes the request.\<close>

lemma wdone_block:
  assumes sv: "serving UIO_WRITE v s" and t: "wdone v 0 s t" "sfs_vn t v = Some sv'" "fb < MAXBLOCKS"
    and b: "b = block_at (block t) (sv_i sv') fb" "b \<noteq> 0"
    and off: "uio_offset (req_uio s) = int fb * 512 + int k" "k + n \<le> 512" "n \<le> uio_resid (req_uio s)"
    and d: "disk_ok d" "lh_blocks d = lh_blocks (sfs_device t)"
      "lh_sect d = (block t)(b := take k (block t b) @ load (io_mem (sfs_req s)) (iov_base (req_uio s)) n @ drop (k + n) (block t b))"
  shows "wdone v n s (t\<lparr>sfs_device := d, sfs_req := (sfs_req s)\<lparr>io_uio := uio_advance n (req_uio s)\<rparr>\<rparr>)"
proof -
  let ?bs = "load (io_mem (sfs_req s)) (iov_base (req_uio s)) n"
  have inv: "fs_inv t" using t(1) unfolding wdone_def wrote_def by blast
  have p: "nat (uio_offset (req_uio s)) = fb * 512 + k" using off(1) by (simp add: nat_add_distrib nat_mult_distrib)
  have "wrote v (fb * 512 + k) ?bs t (t\<lparr>sfs_device := d\<rparr>)"
    using d off(2) by (intro block_written [OF inv t(2,3) b]) simp_all
  moreover have "wrote v (fb * 512 + k) [] s t" using t(1) p by (simp add: wdone_def load_def addrs_def)
  ultimately have "wrote v (fb * 512 + k) ?bs s (t\<lparr>sfs_device := d\<rparr>)"
    using wrote_trans [of v "fb * 512 + k" "[]" s t ?bs] by simp
  then show ?thesis using p by (simp add: wdone_def)
qed

lemma sfs_partialio_write1:
  assumes sv: "serving UIO_WRITE v s" and off: "uio_offset (req_uio s) = int fb * 512 + int k"
    and n: "k < 512" "k + n \<le> 512" "n \<le> uio_resid (req_uio s)" and fb: "fb < MAXBLOCKS"
  shows "wserved1 v n s (sfs_partialio v k n s)"
proof -
  have rw: "uio_rw (req_uio s) = UIO_WRITE" and ok: "io_ok (sfs_req s)" using sv by (simp_all add: serving_def)
  let ?B = "sfs_bmap v (file_block (uio_offset (req_uio s))) True s"
  consider b t sv' where "?B = Ret b t" "wdone v 0 s t" "sfs_vn t v = Some sv'" "b = block_at (block t) (sv_i sv') fb" "b \<noteq> 0"
    | t where "?B = Err ENOSPC t" "wdone v 0 s t"
    using bmap_write [OF sv off n(1) fb] by blast
  then show ?thesis
  proof cases
    case 2
    then show ?thesis using n rw by (auto simp: sfs_partialio_def Let_def wserved1_def)
  next
    case (1 b t sv')
    have inv: "fs_inv t" using 1(2) unfolding wdone_def wrote_def by blast
    note sp = fs_inv_space [OF inv] and req = wdone_0_req [OF sv 1(2)]
    have lt: "b < sp_nblocks (sfs_super t)" using mapped_ok [OF inv 1(3) fb] 1(4,5) by auto
    obtain d1 where d1: "fs_rblock b t = Ret (block t b) (t\<lparr>sfs_device := d1\<rparr>)" "disk_ok d1" "lh_sect d1 = block t"
        "lh_blocks d1 = lh_blocks (sfs_device t)" using fs_rblock_ok [OF sp lt] by blast
    let ?bs = "load (io_mem (sfs_req s)) (iov_base (req_uio s)) n"
    let ?r = "(sfs_req s)\<lparr>io_uio := uio_advance n (req_uio s)\<rparr>"
    let ?data = "take k (block t b) @ ?bs @ drop (k + n) (block t b)"
    have len: "length (block t b) = 512" using block_length [OF sp] .
    have mv: "uiomove (drop k (block t b)) n (sfs_req s) = Ret (?bs @ drop n (drop k (block t b))) ?r"
      using uiomove_write_ok [OF ok rw n(3), of "drop k (block t b)"] len n(2) by simp
    have sp1: "space_ok (t\<lparr>sfs_device := d1, sfs_req := ?r\<rparr>)" using sp d1 by (simp add: space_ok_def)
    obtain d where d: "fs_wblock ?data b (t\<lparr>sfs_device := d1, sfs_req := ?r\<rparr>) = Ret () (t\<lparr>sfs_req := ?r, sfs_device := d\<rparr>)"
        "disk_ok d" "lh_sect d = (block t)(b := ?data)" "lh_blocks d = lh_blocks (sfs_device t)"
      using fs_wblock_ok [OF sp1, of b ?data] lt d1 len n by auto
    have comm: "t\<lparr>sfs_req := ?r, sfs_device := d\<rparr> = t\<lparr>sfs_device := d, sfs_req := ?r\<rparr>" by simp
    have "sfs_partialio v k n s = Ret () (t\<lparr>sfs_req := ?r, sfs_device := d\<rparr>)"
      using 1(1,5) d1(1) mv d(1) rw req n by (simp add: sfs_partialio_def Let_def req_uiomove_def add.commute)
    then show ?thesis
      using wdone_block [OF sv 1(2,3) fb 1(4,5) off n(2,3) d(2,4,3)] unfolding comm by (simp add: wserved1_def)
  qed
qed

lemmas sfs_partialio_write = wserved1_wserved [OF sfs_partialio_write1]

lemma sfs_blockio_write:
  assumes sv: "serving UIO_WRITE v s" and off: "uio_offset (req_uio s) = int fb * 512"
    and n: "512 \<le> uio_resid (req_uio s)"
  shows "wserved v 512 s (sfs_blockio v s)"
proof -
  have rw: "uio_rw (req_uio s) = UIO_WRITE" and ok: "io_ok (sfs_req s)" using sv by (simp_all add: serving_def)
  have fb: "fb < MAXBLOCKS" using serving_block [OF sv, of fb 0] off n by simp
  have off': "uio_offset (req_uio s) = int fb * 512 + int 0" using off by simp
  let ?B = "sfs_bmap v (file_block (uio_offset (req_uio s))) True s"
  consider b t sv' where "?B = Ret b t" "wdone v 0 s t" "sfs_vn t v = Some sv'" "b = block_at (block t) (sv_i sv') fb" "b \<noteq> 0"
    | t where "?B = Err ENOSPC t" "wdone v 0 s t"
    using bmap_write [OF sv off' _ fb] by auto
  then show ?thesis
  proof cases
    case 2
    then show ?thesis using rw by (auto simp: sfs_blockio_def Let_def wserved_def intro!: exI [of _ 0])
  next
    case (1 b t sv')
    have inv: "fs_inv t" using 1(2) unfolding wdone_def wrote_def by blast
    note sp = fs_inv_space [OF inv] and req = wdone_0_req [OF sv 1(2)]
    have lt: "b < sp_nblocks (sfs_super t)" using mapped_ok [OF inv 1(3) fb] 1(4,5) by auto
    then have vb: "valid_block (sfs_device t) b" using sp by (auto simp: space_ok_def intro: disk_ok_valid)
    then have b2: "(b + 1) * 512 < 2 ^ 31" by (simp add: valid_block_def)
    let ?i = "(sfs_req s)\<lparr>io_uio := (req_uio s)\<lparr>uio_offset := int b * 512, uio_resid := 512\<rparr>\<rparr>"
    let ?bs = "load (io_mem (sfs_req s)) (iov_base (req_uio s)) 512"
    let ?d = "(later 1 (sfs_device t))\<lparr>lh_buf := ?bs, lh_sect := (block t)(b := ?bs)\<rparr>"
    have nf: "\<not> lh_fail (sfs_device t) 0" using sp by (simp add: space_ok_def disk_ok_def)
    have io: "sfs_rwblock \<lparr>dk = sfs_device t, dio = ?i\<rparr> = Ret () \<lparr>dk = ?d, dio = ?i\<lparr>io_uio := uio_advance 512 (io_uio ?i)\<rparr>\<rparr>"
      using rw nf by (intro write_ok [OF vb io_ok_block [OF ok n b2]]) simp_all
    have dk: "disk_ok ?d" "lh_blocks ?d = lh_blocks (sfs_device t)" using sp by (simp_all add: space_ok_def disk_ok_def)
    have lt: "uio_resid (req_uio s) < 2 ^ 31" using ok by (simp add: io_ok_def)
    have ow: "off_wrap (int b * 512) = int b * 512" using b2 by (intro off_wrap_small) auto
    have r0: "uio_resid (uio_advance 512 (io_uio ?i)) = 0" by (simp add: uio_advance_resid)
    have "sfs_blockio v s = Ret () (t\<lparr>sfs_device := ?d, sfs_req := (sfs_req s)\<lparr>io_uio := uio_advance 512 (req_uio s)\<rparr>\<rparr>)"
      using 1(1,5) rw req n io ow restore_uio [OF n lt, of "int b * 512"] r0
      by (simp add: sfs_blockio_def Let_def upd_uio_def)
    moreover have "lh_sect ?d = (block t)(b := take 0 (block t b) @ ?bs @ drop (0 + 512) (block t b))"
      using block_length [OF sp] by simp
    ultimately show ?thesis
      using wdone_block [OF sv 1(2,3) fb 1(4,5) off' _ n dk] by (simp add: wserved_def)
  qed
qed

lemma wserved_refl: "serving UIO_WRITE v s \<Longrightarrow> wserved v 0 s (Ret () s)"
  using wdone_refl by (simp add: wserved_def)

lemma sfs_blocks_write:
  assumes "serving UIO_WRITE v s" "uio_offset (req_uio s) = int fb * 512" "m * 512 \<le> uio_resid (req_uio s)"
  shows "wserved v (m * 512) s (sfs_blocks m v s)"
  using assms
proof (induction m arbitrary: s fb)
  case 0
  then show ?case using wserved_refl by simp
next
  case (Suc m)
  have "wserved v (m * 512) s1 (sfs_blocks m v s1)" if "wdone v 512 s s1" for s1
  proof -
    note r = wdone_serving [OF Suc.prems(1) that]
    show ?thesis using r Suc.prems by (intro Suc.IH [of s1 "fb + 1"]) auto
  qed
  then have "wserved v (512 + m * 512) s (andthen (sfs_blockio v s) (\<lambda>_. sfs_blocks m v))"
    using sfs_blockio_write [OF Suc.prems(1,2)] Suc.prems(3) by (intro wserved_andthen [OF Suc.prems(1)]) auto
  then show ?case by simp
qed

lemma aligned_write:
  assumes sv: "serving UIO_WRITE v s" and off: "uio_offset (req_uio s) = int fb * 512"
  shows "wserved v (uio_resid (req_uio s)) s (andthen (sfs_blocks (uio_resid (req_uio s) div SFS_BLOCKSIZE) v s)
             (\<lambda>_ s. kassert (uio_resid (req_uio s) < SFS_BLOCKSIZE)
               (if uio_resid (req_uio s) > 0 then sfs_partialio v 0 (uio_resid (req_uio s)) s
                else Ret () s)))"
proof -
  let ?r = "uio_resid (req_uio s)"
  let ?f = "\<lambda>s. kassert (uio_resid (req_uio s) < SFS_BLOCKSIZE)
               (if uio_resid (req_uio s) > 0 then sfs_partialio v 0 (uio_resid (req_uio s)) s else Ret () s)"
  have split: "?r div 512 * 512 + ?r mod 512 = ?r" by simp
  have "wserved v (?r mod 512) s1 (?f s1)" if w: "wdone v (?r div 512 * 512) s s1" for s1
  proof -
    note r = wdone_serving [OF sv w]
    have res: "uio_resid (req_uio s1) = ?r mod 512" using r(2) by (simp add: minus_div_mult_eq_mod)
    have o1: "uio_offset (req_uio s1) = int (fb + ?r div 512) * 512 + int 0" using r(3) off by simp
    show ?thesis
    proof (cases "?r mod 512 = 0")
      case True
      then show ?thesis using res wserved_refl r(1) by simp
    next
      case False
      then have "fb + ?r div 512 < MAXBLOCKS" using serving_block [OF r(1) o1] res by simp
      then have "wserved v (?r mod 512) s1 (sfs_partialio v 0 (?r mod 512) s1)"
        using r(1) res o1 by (intro sfs_partialio_write) simp_all
      then show ?thesis using res False by simp
    qed
  qed
  then have "wserved v (?r div 512 * 512 + ?r mod 512) s (andthen (sfs_blocks (?r div 512) v s) (\<lambda>_. ?f))"
    using sfs_blocks_write [OF sv off] by (intro wserved_andthen [OF sv]) simp_all
  then show ?thesis by simp
qed

lemma sfs_io_body_write:
  assumes sv: "serving UIO_WRITE v s" and lim: "uio_offset (req_uio s) < int MAXBLOCKS * 512"
  shows "wserved v (uio_resid (req_uio s)) s (sfs_io_body v s)"
proof -
  let ?r = "uio_resid (req_uio s)"
  define p where "p = nat (uio_offset (req_uio s))"
  define k where "k = p mod 512"
  have off: "uio_offset (req_uio s) = int p" using sv by (simp add: p_def serving_def io_ok_def)
  have bo: "block_off (uio_offset (req_uio s)) = k" by (simp add: off block_off_nat k_def nat_mod_distrib)
  have kl: "k < 512" "p div 512 * 512 + k = p" by (auto simp: k_def)
  define rest where "rest = (\<lambda>s. if uio_resid (req_uio s) = 0 then Ret () s
         else kassert (uio_offset (req_uio s) mod 512 = 0)
           (andthen (sfs_blocks (uio_resid (req_uio s) div SFS_BLOCKSIZE) v s)
             (\<lambda>_ s. kassert (uio_resid (req_uio s) < SFS_BLOCKSIZE)
               (if uio_resid (req_uio s) > 0 then sfs_partialio v 0 (uio_resid (req_uio s)) s
                else Ret () s))))"
  have rest: "wserved v (uio_resid (req_uio t)) t (rest t)"
    if "serving UIO_WRITE v t" "uio_resid (req_uio t) = 0 \<or> uio_offset (req_uio t) = int fb * 512" for t fb
    using that aligned_write [of v t fb] wserved_refl [of v t] by (auto simp: rest_def)
  show ?thesis
  proof (cases "k = 0")
    case True
    then have "uio_offset (req_uio s) = int (p div 512) * 512" using off kl(2) by linarith
    moreover have "sfs_io_body v s = rest s" using True bo by (simp add: sfs_io_body_def rest_def Let_def)
    ultimately show ?thesis using rest [OF sv, of "p div 512"] by metis
  next
    case False
    let ?n = "min (512 - k) ?r"
    have n1: "k + ?n \<le> 512" "?n \<le> ?r" and fb: "p div 512 < MAXBLOCKS" using kl(1) lim off by auto
    have o: "uio_offset (req_uio s) = int (p div 512) * 512 + int k" using off kl(2) by linarith
    have w: "wserved v ?n s (sfs_partialio v k ?n s)" by (rule sfs_partialio_write [OF sv o kl(1) n1 fb])
    have n: "nat ((512 - int k) mod 2 ^ 32) = 512 - k" using kl(1) by (simp add: nat_diff_distrib)
    have "wserved v (?r - ?n) s1 (rest s1)" if w1: "wdone v ?n s s1" for s1
    proof -
      note r = wdone_serving [OF sv w1 n1(2)]
      have "uio_resid (req_uio s1) = 0 \<or> uio_offset (req_uio s1) = int (p div 512 + 1) * 512"
        using r(2,3) o kl(1) by (cases "?r \<le> 512 - k") auto
      then show ?thesis using rest [OF r(1)] r(2) by metis
    qed
    then have "wserved v (?n + (?r - ?n)) s (andthen (sfs_partialio v k ?n s) (\<lambda>_. rest))"
      using w by (intro wserved_andthen [OF sv]) simp_all
    then show ?thesis using False bo n by (simp add: sfs_io_body_def rest_def Let_def)
  qed
qed

text \<open>A region inside one block is written completely or not at all.\<close>

lemma sfs_io_body_write1:
  assumes sv: "serving UIO_WRITE v s" and off: "uio_offset (req_uio s) = int p"
    and r: "0 < uio_resid (req_uio s)" "uio_resid (req_uio s) < 512" "p mod 512 + uio_resid (req_uio s) \<le> 512"
  shows "wserved1 v (uio_resid (req_uio s)) s (sfs_io_body v s)"
proof -
  let ?r = "uio_resid (req_uio s)" and ?k = "p mod 512"
  have o: "uio_offset (req_uio s) = int (p div 512) * 512 + int ?k"
    using off by (metis div_mult_mod_eq of_nat_add of_nat_mult of_nat_numeral)
  have fb: "p div 512 < MAXBLOCKS" using serving_block [OF sv o r(1)] .
  have w: "wserved1 v ?r s (sfs_partialio v ?k ?r s)" using sfs_partialio_write1 [OF sv o _ r(3) _ fb] by simp
  have bo: "block_off (uio_offset (req_uio s)) = ?k" using off by (simp add: block_off_nat nat_mod_distrib)
  have resid: "uio_resid (req_uio t) = 0" if "wdone v ?r s t" for t
    using wdone_serving(2) [OF sv that] by simp
  show ?thesis
  proof (cases "?k = 0")
    case True
    then have "int p mod 512 = 0" using zmod_int [of p 512] by simp
    then have "sfs_io_body v s = sfs_partialio v ?k ?r s"
      using True bo r off by (simp add: sfs_io_body_def Let_def)
    then show ?thesis using w by simp
  next
    case False
    have "min (nat ((512 - int ?k) mod 2 ^ 32)) ?r = ?r" using r(3) by (simp add: nat_diff_distrib)
    then have b: "sfs_io_body v s = andthen (sfs_partialio v ?k ?r s) (\<lambda>_ s.
         if uio_resid (req_uio s) = 0 then Ret () s
         else kassert (uio_offset (req_uio s) mod 512 = 0)
           (andthen (sfs_blocks (uio_resid (req_uio s) div SFS_BLOCKSIZE) v s)
             (\<lambda>_ s. kassert (uio_resid (req_uio s) < SFS_BLOCKSIZE)
               (if uio_resid (req_uio s) > 0 then sfs_partialio v 0 (uio_resid (req_uio s)) s
                else Ret () s))))"
      using False bo by (simp add: sfs_io_body_def Let_def)
    consider t where "sfs_partialio v ?k ?r s = Ret () t" "wdone v ?r s t"
      | t where "sfs_partialio v ?k ?r s = Err ENOSPC t" "wdone v 0 s t" using w unfolding wserved1_def by blast
    then show ?thesis
    proof cases
      case 1
      have "sfs_io_body v s = Ret () t" using resid [OF 1(2)] unfolding b 1(1) by simp
      then show ?thesis using 1(2) unfolding wserved1_def by blast
    next
      case 2
      have "sfs_io_body v s = Err ENOSPC t" unfolding b 2(1) by simp
      then show ?thesis using 2(2) unfolding wserved1_def by blast
    qed
  qed
qed

section \<open>Writing a region\<close>

text \<open>The bytes of the file, its new size, and everything else.\<close>

definition written :: "vref \<Rightarrow> nat \<Rightarrow> u8 list \<Rightarrow> sfs \<Rightarrow> sfs \<Rightarrow> bool" where
  "written v p bs s s' \<longleftrightarrow> fs_inv s' \<and> used s \<subseteq> used s' \<and> sfs_super s' = sfs_super s \<and>
     sfs_vnodes s' = sfs_vnodes s \<and> sfs_kmem s' = sfs_kmem s \<and>
     (\<forall>w. w \<noteq> v \<longrightarrow> sfs_vn s' w = sfs_vn s w \<and> (\<forall>q < MAXBLOCKS * 512. fbyte s' w q = fbyte s w q)) \<and>
     (\<exists>sv sv'. sfs_vn s v = Some sv \<and> sfs_vn s' v = Some sv' \<and>
        same_vnode (sv\<lparr>sv_i := (sv_i sv)\<lparr>sfi_size := max (sfi_size (sv_i sv)) (p + length bs)\<rparr>\<rparr>) sv') \<and>
     (\<forall>q < MAXBLOCKS * 512. fbyte s' v q = (if p \<le> q \<and> q < p + length bs then bs ! (q - p) else fbyte s v q))"

lemma file_blocks_size [simp]:
  "file_blocks C (i\<lparr>sfi_size := n\<rparr>) = file_blocks C i" "block_at C (i\<lparr>sfi_size := n\<rparr>) = block_at C i"
  by (simp_all add: file_blocks_def indirect_blocks_def block_at_def fun_eq_iff)

text \<open>Changing fields of a vnode that no block depends on.\<close>

lemma fs_inv_vn_cong:
  assumes inv: "fs_inv s" and v: "sfs_vn s v = Some sv" and s': "sfs_vn s' = (sfs_vn s)(v \<mapsto> sv')" "space_ok s'"
      "block s' = block s" "used s' = used s" "sfs_super s' = sfs_super s"
    and sv': "sv_ino sv' = sv_ino sv" "sfi_direct (sv_i sv') = sfi_direct (sv_i sv)" "sfi_indirect (sv_i sv') = sfi_indirect (sv_i sv)"
  shows "fs_inv s'"
proof -
  have "mset (file_blocks (block s') (sv_i sv')) = mset (file_blocks (block s) (sv_i sv)) + mset []"
    using sv' s'(3) by (simp add: file_blocks_def indirect_blocks_def)
  then have "vnodes_ok s'"
    using fs_inv_vnode(1) [OF inv v] s' sv' by (intro vnodes_ok_grow [OF inv v s'(1), of "[]"]) simp_all
  then show ?thesis using s'(2) by (simp add: fs_inv_def)
qed

lemma upd_size:
  assumes inv: "fs_inv t" and v: "sfs_vn t v = Some sv" and s': "s' = upd_inode v (\<lambda>i. i\<lparr>sfi_size := n\<rparr>) t"
  shows "fs_inv s'" "fbyte s' w q = fbyte t w q"
proof -
  let ?sv = "sv\<lparr>sv_i := (sv_i sv)\<lparr>sfi_size := n\<rparr>, sv_dirty := True\<rparr>"
  have vn: "sfs_vn s' = (sfs_vn t)(v \<mapsto> ?sv)" using upd_inode_vn [OF v] s' by simp
  show "fs_inv s'" using fs_inv_space [OF inv] by (intro fs_inv_vn_cong [OF inv v vn]) (simp_all add: s')
  have "sfs_device s' = sfs_device t" by (simp add: s')
  then show "fbyte s' w q = fbyte t w q" using vn v by (simp add: fbyte_def Let_def split: option.split)
qed

lemma written_out:
  assumes inv: "fs_inv s" and w: "wrote v p bs s t" and rw: "uio_rw (req_uio t) = UIO_WRITE"
    and off: "uio_offset (req_uio t) = int (p + length bs)" "p + length bs < 2 ^ 31" and sz: "sfi_size (sv_i sv) < 2 ^ 31"
    and v: "sfs_vn s v = Some sv" and r: "uio_resid (req_uio t) < 2 ^ 32"
  shows "written v p bs s (sfs_io_out v 0 t)" "sfs_req (sfs_io_out v 0 t) = sfs_req t"
proof -
  let ?z = "sfi_size (sv_i sv)" and ?e = "p + length bs"
  obtain sv1 where sv1: "sfs_vn t v = Some sv1" "same_vnode sv sv1" using wrote_vn [OF w v] by blast
  have z1: "sfi_size (sv_i sv1) = ?z" using sv1(2) by (simp add: same_vnode_def)
  have w2: "off_wrap (int ?z) = int ?z" using sz by (simp add: off_wrap_small)
  note d = wroteD [OF w] and oth = wrote_other [OF inv w]
  show "written v p bs s (sfs_io_out v 0 t)"
  proof (cases "?z < ?e")
    case True
    let ?s = "upd_inode v (\<lambda>i. i\<lparr>sfi_size := ?e\<rparr>) t"
    note us = upd_size [OF d(1) sv1(1) refl, of ?e]
    have out: "sfs_io_out v 0 t = ?s\<lparr>sfs_req := sfs_req t\<rparr>"
      using sv1(1) rw True off z1 w2 r by (simp add: sfs_io_out_def upd_uio_def Let_def nat_add_distrib)
    have vn: "sfs_vn ?s = (sfs_vn t)(v \<mapsto> sv1\<lparr>sv_i := (sv_i sv1)\<lparr>sfi_size := ?e\<rparr>, sv_dirty := True\<rparr>)"
      using upd_inode_vn [OF sv1(1)] by simp
    have "same_vnode (sv\<lparr>sv_i := (sv_i sv)\<lparr>sfi_size := max ?z ?e\<rparr>\<rparr>) (sv1\<lparr>sv_i := (sv_i sv1)\<lparr>sfi_size := ?e\<rparr>, sv_dirty := True\<rparr>)"
      using sv1(2) True by (simp add: same_vnode_def)
    then show ?thesis
      unfolding written_def out using us d oth v vn by (auto simp del: upd_inode_simps(1)) (auto)
  next
    case False
    have out: "sfs_io_out v 0 t = t\<lparr>sfs_req := sfs_req t\<rparr>"
      using sv1(1) rw False off(1) z1 w2 r by (simp add: sfs_io_out_def upd_uio_def Let_def)
    have "same_vnode (sv\<lparr>sv_i := (sv_i sv)\<lparr>sfi_size := max ?z ?e\<rparr>\<rparr>) sv1"
      using sv1(2) False by (simp add: same_vnode_def)
    then show ?thesis unfolding written_def out using d oth v sv1(1) by auto
  qed
  show "sfs_req (sfs_io_out v 0 t) = sfs_req t"
    using sv1(1) r by (simp add: sfs_io_out_def upd_uio_def Let_def)
qed

text \<open>What \<^verbatim>\<open>sfs_io\<close> adds to the transfer of the data: the new size.\<close>

lemma sfs_io_write_out:
  assumes inv: "fs_inv s" and v: "sfs_vn s v = Some sv" and sg: "serving UIO_WRITE v s"
    and sz: "sfi_size (sv_i sv) < 2 ^ 31" and p: "p = nat (uio_offset (req_uio s))"
    and k: "k \<le> uio_resid (req_uio s)" and t: "wdone v k s t"
  shows "written v p (load (io_mem (sfs_req s)) (iov_base (req_uio s)) k) s (sfs_io_out v 0 t)"
    "sfs_req (sfs_io_out v 0 t) = (sfs_req s)\<lparr>io_uio := uio_advance k (req_uio s)\<rparr>"
proof -
  have ok: "io_ok (sfs_req s)" "p + uio_resid (req_uio s) \<le> MAXBLOCKS * 512" using sg p by (auto simp: serving_def)
  have off: "uio_offset (req_uio s) = int p" and lt: "uio_resid (req_uio s) < 2 ^ 31" using ok(1) p by (auto simp: io_ok_def)
  note r = wdone_serving [OF sg t k]
  have w: "wrote v p (load (io_mem (sfs_req s)) (iov_base (req_uio s)) k) s t"
    "sfs_req t = (sfs_req s)\<lparr>io_uio := uio_advance k (req_uio s)\<rparr>"
    using t p by (simp_all add: wdone_def)
  have "uio_rw (req_uio t) = UIO_WRITE" "uio_offset (req_uio t) = int (p + k)" "uio_resid (req_uio t) < 2 ^ 32"
    using r off lt by (simp_all add: serving_def)
  then show "written v p (load (io_mem (sfs_req s)) (iov_base (req_uio s)) k) s (sfs_io_out v 0 t)"
      "sfs_req (sfs_io_out v 0 t) = (sfs_req s)\<lparr>io_uio := uio_advance k (req_uio s)\<rparr>"
    using written_out [OF inv w(1) _ _ _ sz v] ok(2) k w(2) by simp_all
qed

lemma sfs_io_write:
  assumes inv: "fs_inv s" and v: "sfs_vn s v = Some sv" and ok: "io_ok (sfs_req s)"
    and rw: "uio_rw (req_uio s) = UIO_WRITE" and sz: "sfi_size (sv_i sv) < 2 ^ 31"
    and p: "p = nat (uio_offset (req_uio s))" "p < MAXBLOCKS * 512" "p + uio_resid (req_uio s) \<le> MAXBLOCKS * 512"
  shows "\<exists>s' k. (sfs_io v s = Ret () s' \<and> k = uio_resid (req_uio s) \<or> sfs_io v s = Err ENOSPC s' \<and> k \<le> uio_resid (req_uio s)) \<and>
           written v p (load (io_mem (sfs_req s)) (iov_base (req_uio s)) k) s s' \<and>
           sfs_req s' = (sfs_req s)\<lparr>io_uio := uio_advance k (req_uio s)\<rparr>"
proof -
  let ?r = "uio_resid (req_uio s)"
  have off: "uio_offset (req_uio s) = int p" using ok p(1) by (auto simp: io_ok_def)
  have sg: "serving UIO_WRITE v s" using inv v ok rw p by (auto simp: serving_def)
  have "wserved v ?r s (sfs_io_body v s)" using off p(2) by (intro sfs_io_body_write [OF sg]) simp
  then obtain t k where t: "sfs_io_body v s = Ret () t \<and> k = ?r \<or> sfs_io_body v s = Err ENOSPC t \<and> k \<le> ?r" "wdone v k s t"
    unfolding wserved_def by blast
  then have k: "k \<le> ?r" by auto
  have "sfs_io v s = within (sfs_io_out v 0) (sfs_io_body v s)" using v rw by (simp add: sfs_io_def with_vn_def)
  then show ?thesis using t(1) sfs_io_write_out [OF inv v sg sz p(1) k t(2)]
    by (intro exI [of _ "sfs_io_out v 0 t"] exI [of _ k]) auto
qed

lemma sfs_io_write1:
  assumes inv: "fs_inv s" and v: "sfs_vn s v = Some sv" and ok: "io_ok (sfs_req s)"
    and rw: "uio_rw (req_uio s) = UIO_WRITE" and sz: "sfi_size (sv_i sv) < 2 ^ 31"
    and p: "p = nat (uio_offset (req_uio s))" "p + uio_resid (req_uio s) \<le> MAXBLOCKS * 512"
    and r: "0 < uio_resid (req_uio s)" "uio_resid (req_uio s) < 512" "p mod 512 + uio_resid (req_uio s) \<le> 512"
  shows "\<exists>s' k. (sfs_io v s = Ret () s' \<and> k = uio_resid (req_uio s) \<or> sfs_io v s = Err ENOSPC s' \<and> k = 0) \<and>
           written v p (load (io_mem (sfs_req s)) (iov_base (req_uio s)) k) s s' \<and>
           sfs_req s' = (sfs_req s)\<lparr>io_uio := uio_advance k (req_uio s)\<rparr>"
proof -
  let ?r = "uio_resid (req_uio s)"
  have off: "uio_offset (req_uio s) = int p" using ok p(1) by (auto simp: io_ok_def)
  have sg: "serving UIO_WRITE v s" using inv v ok rw p by (auto simp: serving_def)
  obtain t k where t: "sfs_io_body v s = Ret () t \<and> k = ?r \<or> sfs_io_body v s = Err ENOSPC t \<and> k = 0" "wdone v k s t"
    using sfs_io_body_write1 [OF sg off r] unfolding wserved1_def by blast
  then have k: "k \<le> ?r" by auto
  have "sfs_io v s = within (sfs_io_out v 0) (sfs_io_body v s)" using v rw by (simp add: sfs_io_def with_vn_def)
  then show ?thesis using t(1) sfs_io_write_out [OF inv v sg sz p(1) k t(2)]
    by (intro exI [of _ "sfs_io_out v 0 t"] exI [of _ k]) auto
qed

lemma fbytes_written:
  assumes "written v p bs s s'" "p + length bs \<le> MAXBLOCKS * 512"
  shows "fbytes s' v p (length bs) = bs"
proof (rule nth_equalityI)
  fix i assume "i < length (fbytes s' v p (length bs))"
  then have i: "i < length bs" by simp
  then have "fbyte s' v (p + i) = bs ! i" using assms unfolding written_def by simp
  then show "fbytes s' v p (length bs) ! i = bs ! i" using i by (simp add: fbytes_def)
qed simp

section \<open>Properties\<close>

text \<open>
  C2. Writing a region of a file either succeeds completely or stops with \<^verbatim>\<open>ENOSPC\<close> after a prefix of the
  data; the bytes written replace those of the file, the file grows to cover them, every byte of
  every other file and every other vnode is unchanged, and the file system stays consistent.
\<close>

theorem sfs_io_writes_file:
  assumes "fs_inv s" "sfs_vn s v = Some sv" "io_ok (sfs_req s)" "uio_rw (req_uio s) = UIO_WRITE"
    and "sfi_size (sv_i sv) < 2 ^ 31" "p = nat (uio_offset (req_uio s))"
    and "p < MAXBLOCKS * 512" "p + uio_resid (req_uio s) \<le> MAXBLOCKS * 512"
  shows "\<exists>s' k. (sfs_io v s = Ret () s' \<and> k = uio_resid (req_uio s) \<or> sfs_io v s = Err ENOSPC s' \<and> k \<le> uio_resid (req_uio s)) \<and>
           written v p (load (io_mem (sfs_req s)) (iov_base (req_uio s)) k) s s' \<and>
           sfs_req s' = (sfs_req s)\<lparr>io_uio := uio_advance k (req_uio s)\<rparr>"
  using assms by (rule sfs_io_write)

lemma sample_req:
  "req_uio (sample_fs off n rw) = sample_uio 0x80001000 UIO_SYSSPACE None off n rw"
  by (simp add: sample_fs_def)

lemma sample_io_ok: "0 \<le> off \<Longrightarrow> off + int n \<le> 100000 \<Longrightarrow> io_ok (sfs_req (sample_fs off n rw))"
  by (simp add: io_ok_def sample_req) (simp add: sample_uio_def)

theorem sfs_io_writes_file_witness:
  "\<exists>s' k. (sfs_io 0 (sample_fs 500 1000 UIO_WRITE) = Ret () s' \<or> sfs_io 0 (sample_fs 500 1000 UIO_WRITE) = Err ENOSPC s') \<and>
     written 0 500 (load sample_mem 0x80001000 k) (sample_fs 500 1000 UIO_WRITE) s'"
proof -
  let ?s = "sample_fs 500 1000 UIO_WRITE"
  have m: "io_mem (sfs_req ?s) = sample_mem" by (simp add: sample_fs_def)
  have u: "uio_rw (req_uio ?s) = UIO_WRITE" "500 = nat (uio_offset (req_uio ?s))" "uio_resid (req_uio ?s) = 1000"
    "iov_base (req_uio ?s) = 0x80001000" by (simp_all add: sample_req sample_uio_def)
  have z: "sfi_size (sv_i \<lparr>sv_ops = File_ops, sv_refcount = 1, sv_opencount = 0, sv_countlock = free_lock, sv_i = sample_inode, sv_ino = 3, sv_dirty = False\<rparr>) < 2 ^ 31"
    by (simp add: sample_inode_def)
  show ?thesis
    using sfs_io_writes_file [OF sample_fs_inv sample_vn sample_io_ok u(1) z u(2)] unfolding u(3,4) m by auto
qed

text \<open>
  C5. Whatever a write has stored, all of its data or the prefix there was space for, a later read of
  the same region returns.
\<close>

theorem write_then_read:
  assumes "fs_inv s" "sfs_vn s v = Some sv" "io_ok (sfs_req s)" "uio_rw (req_uio s) = UIO_WRITE"
    and "sfi_size (sv_i sv) \<le> MAXBLOCKS * 512" "p = nat (uio_offset (req_uio s))"
    and "p < MAXBLOCKS * 512" "p + uio_resid (req_uio s) \<le> MAXBLOCKS * 512"
  shows "\<exists>s' k. (sfs_io v s = Ret () s' \<and> k = uio_resid (req_uio s) \<or> sfs_io v s = Err ENOSPC s' \<and> k \<le> uio_resid (req_uio s)) \<and>
           (\<forall>r. io_ok r \<and> uio_rw (io_uio r) = UIO_READ \<and> nat (uio_offset (io_uio r)) = p \<and> uio_resid (io_uio r) = k \<longrightarrow>
              (\<exists>s''. sfs_io v (s'\<lparr>sfs_req := r\<rparr>) = Ret () s'' \<and>
                 read_done (load (io_mem (sfs_req s)) (iov_base (req_uio s)) k) (s'\<lparr>sfs_req := r\<rparr>) s''))"
proof -
  have "sfi_size (sv_i sv) < 2 ^ 31" using assms(5) by simp
  then obtain s' k where w: "sfs_io v s = Ret () s' \<and> k = uio_resid (req_uio s) \<or> sfs_io v s = Err ENOSPC s' \<and> k \<le> uio_resid (req_uio s)"
      "written v p (load (io_mem (sfs_req s)) (iov_base (req_uio s)) k) s s'"
    using sfs_io_write [OF assms(1-4) _ assms(6-8)] by blast
  let ?bs = "load (io_mem (sfs_req s)) (iov_base (req_uio s)) k"
  obtain sv' where sv': "fs_inv s'" "sfs_vn s' v = Some sv'" "sfi_size (sv_i sv') = max (sfi_size (sv_i sv)) (p + k)"
    using assms(2) w(2) by (auto simp: written_def same_vnode_def)
  have kl: "p + k \<le> MAXBLOCKS * 512" using w(1) assms(8) by auto
  have k: "k = min k (max (sfi_size (sv_i sv)) (p + k) - p)" by linarith
  have "\<exists>s''. sfs_io v (s'\<lparr>sfs_req := r\<rparr>) = Ret () s'' \<and> read_done ?bs (s'\<lparr>sfs_req := r\<rparr>) s''"
    if r: "io_ok r" "uio_rw (io_uio r) = UIO_READ" "nat (uio_offset (io_uio r)) = p" "uio_resid (io_uio r) = k" for r
  proof -
    let ?s = "s'\<lparr>sfs_req := r\<rparr>"
    have "\<exists>s''. sfs_io v ?s = Ret () s'' \<and> read_done (fbytes ?s v p k) ?s s''"
      by (rule sfs_io_read [of ?s v sv']) (use sv' assms(5) r kl k in simp_all)
    moreover have "fbytes ?s v p k = ?bs"
      using fbytes_written [OF w(2)] kl fbytes_cong [of ?s v s' p k] by simp
    ultimately show ?thesis by simp
  qed
  with w(1) show ?thesis by blast
qed

theorem write_then_read_witness:
  "\<exists>s' k. (sfs_io 0 (sample_fs 500 1000 UIO_WRITE) = Ret () s' \<or> sfs_io 0 (sample_fs 500 1000 UIO_WRITE) = Err ENOSPC s') \<and>
     (\<exists>s''. sfs_io 0 (s'\<lparr>sfs_req := \<lparr>io_uio = sample_uio 0x80002000 UIO_SYSSPACE None 500 k UIO_READ, io_mem = sample_mem\<rparr>\<rparr>) = Ret () s'')"
proof -
  let ?s = "sample_fs 500 1000 UIO_WRITE"
  have u: "uio_rw (req_uio ?s) = UIO_WRITE" "500 = nat (uio_offset (req_uio ?s))" "uio_resid (req_uio ?s) = 1000"
    by (simp_all add: sample_req sample_uio_def)
  have z: "sfi_size (sv_i \<lparr>sv_ops = File_ops, sv_refcount = 1, sv_opencount = 0, sv_countlock = free_lock, sv_i = sample_inode, sv_ino = 3, sv_dirty = False\<rparr>) \<le> MAXBLOCKS * 512"
    by (simp add: sample_inode_def)
  have num: "0 \<le> (500::int)" "500 + int 1000 \<le> 100000" "500 < MAXBLOCKS * 512" "500 + uio_resid (req_uio ?s) \<le> MAXBLOCKS * 512"
    using u(3) by simp_all
  obtain s' k where w: "sfs_io 0 ?s = Ret () s' \<and> k = 1000 \<or> sfs_io 0 ?s = Err ENOSPC s' \<and> k \<le> 1000"
    "\<And>r. io_ok r \<Longrightarrow> uio_rw (io_uio r) = UIO_READ \<Longrightarrow> nat (uio_offset (io_uio r)) = 500 \<Longrightarrow> uio_resid (io_uio r) = k \<Longrightarrow>
       \<exists>s''. sfs_io 0 (s'\<lparr>sfs_req := r\<rparr>) = Ret () s''"
    using write_then_read [OF sample_fs_inv sample_vn sample_io_ok u(1) z u(2) num(3,4), OF num(1,2)]
    unfolding u(3) by (elim exE conjE) (rule that, assumption, blast)
  let ?r = "\<lparr>io_uio = sample_uio 0x80002000 UIO_SYSSPACE None 500 k UIO_READ, io_mem = sample_mem\<rparr>"
  have "io_ok ?r" using w(1) by (auto simp: io_ok_def sample_uio_def)
  then show ?thesis using w(1) w(2) [of ?r] by (auto simp: sample_uio_def)
qed

end
