(* ===== verification/Sfs_Dir.thy ===== *)
theory Sfs_Dir
  imports Sfs_Write
begin

text \<open>
  Directories of SFS: the on-disk entry, and from \<^verbatim>\<open>kern/fs/sfs/sfs_vnode.c\<close> reading and writing
  an entry by slot, searching a directory, and adding and erasing entries.  A directory is a
  file whose contents are entries; the lemmas relate the operations to the list of entries.
\<close>

section \<open>The model\<close>

record sfs_dir =
  sfd_ino :: nat
  sfd_name :: "u8 list"

definition dir_bytes :: "sfs_dir \<Rightarrow> u8 list" where
  "dir_bytes sd = enc32 (sfd_ino sd) @ sfd_name sd"

definition dir_of_bytes :: "u8 list \<Rightarrow> sfs_dir" where
  "dir_of_bytes bs = \<lparr>sfd_ino = dec32 bs, sfd_name = take SFS_NAMELEN (drop 4 bs)\<rparr>"

text \<open>
  A C string in a buffer ends at its first zero byte.  Names passed as arguments are given
  without their terminator.
\<close>

definition cstr :: "u8 list \<Rightarrow> u8 list" where
  "cstr bs = takeWhile (\<lambda>b. b \<noteq> 0) bs"

text \<open>
  I/O on a local kernel buffer: \<^verbatim>\<open>mk_kuio\<close> and \<^verbatim>\<open>sfs_io\<close>.  The request of the caller is untouched;
  the result is the buffer and what is left of \<^verbatim>\<open>uio_resid\<close>.
\<close>

definition sfs_kio :: "vref \<Rightarrow> u8 list \<Rightarrow> int \<Rightarrow> uio_rw \<Rightarrow> sfs \<Rightarrow> (sfs, u8 list \<times> nat) outcome" where
  "sfs_kio v buf pos rw s =
     (case sfs_io v (s\<lparr>sfs_req := \<lparr>io_uio = mk_kuio 0 (length buf) pos rw, io_mem = kbuf_mem buf\<rparr>\<rparr>) of
        Ret _ s' \<Rightarrow> Ret (load (io_mem (sfs_req s')) 0 (length buf), uio_resid (req_uio s')) (s'\<lparr>sfs_req := sfs_req s\<rparr>)
      | Err e s' \<Rightarrow> Err e (s'\<lparr>sfs_req := sfs_req s\<rparr>) | Panic \<Rightarrow> Panic | Undef \<Rightarrow> Undef | Sleeps \<Rightarrow> Sleeps)"

abbreviation DIRSIZE :: nat where "DIRSIZE \<equiv> 64"

text \<open>\<^verbatim>\<open>slot * sizeof(struct sfs_dir)\<close> is computed unsigned and assigned to an \<^verbatim>\<open>off_t\<close>.\<close>

definition sfs_readdir :: "vref \<Rightarrow> int \<Rightarrow> sfs \<Rightarrow> (sfs, sfs_dir) outcome" where
  "sfs_readdir v slot s =
     andthen (sfs_kio v (replicate DIRSIZE 0) (off_wrap (slot * 64)) UIO_READ s)
       (\<lambda>(buf, resid) s. if resid > 0 then Panic else Ret (dir_of_bytes buf) s)"

definition sfs_writedir :: "vref \<Rightarrow> sfs_dir \<Rightarrow> int \<Rightarrow> sfs \<Rightarrow> (sfs, unit) outcome" where
  "sfs_writedir v sd slot s =
     kassert (slot \<ge> 0)
      (andthen (sfs_kio v (dir_bytes sd) (off_wrap (slot * 64)) UIO_WRITE s)
        (\<lambda>(buf, resid) s. if resid > 0 then Panic else Ret () s))"

definition sfs_dir_nentries :: "vref \<Rightarrow> sfs \<Rightarrow> (sfs, int) outcome" where
  "sfs_dir_nentries v s = with_vn v s (\<lambda>sv.
     kassert (sfi_type (sv_i sv) = SFS_TYPE_DIR)
      (let size = sfi_size (sv_i sv) in
       if size mod DIRSIZE \<noteq> 0 then Panic else Ret (int (size div DIRSIZE)) s))"

text \<open>
  The loop of \<^verbatim>\<open>sfs_dir_findname\<close> from slot \<open>i\<close> on, with \<open>k\<close> slots to go: \<open>found\<close> is the inode
  number and slot of the name once it has been seen, \<open>emptyslot\<close> the last empty slot seen.
\<close>

primrec findname_loop ::
  "nat \<Rightarrow> int \<Rightarrow> vref \<Rightarrow> u8 list \<Rightarrow> (nat \<times> int) option \<Rightarrow> int option \<Rightarrow> sfs \<Rightarrow>
   (sfs, (nat \<times> int) option \<times> int option) outcome" where
  "findname_loop 0 i v name found emptyslot s = Ret (found, emptyslot) s"
| "findname_loop (Suc k) i v name found emptyslot s =
     andthen (sfs_readdir v i s)
      (\<lambda>tsd s.
        if sfd_ino tsd = SFS_NOINO then findname_loop k (i + 1) v name found (Some i) s
        else if cstr ((sfd_name tsd)[SFS_NAMELEN - 1 := 0]) = name then
          kassert (found = None) (findname_loop k (i + 1) v name (Some (sfd_ino tsd, i)) emptyslot s)
        else findname_loop k (i + 1) v name found emptyslot s)"

text \<open>
  \<^verbatim>\<open>sfs_dir_findname\<close> hands back \<^verbatim>\<open>*emptyslot\<close> also when it returns \<^verbatim>\<open>ENOENT\<close>; that result is the
  first component being \<open>None\<close>.
\<close>

definition sfs_dir_findname :: "vref \<Rightarrow> u8 list \<Rightarrow> sfs \<Rightarrow> (sfs, (nat \<times> int) option \<times> int option) outcome" where
  "sfs_dir_findname v name s =
     andthen (sfs_dir_nentries v s) (\<lambda>n s. findname_loop (nat n) 0 v name None None s)"

text \<open>The result of \<^verbatim>\<open>sfs_dir_link\<close> is the slot it hands back.\<close>

definition sfs_dir_link :: "vref \<Rightarrow> u8 list \<Rightarrow> nat \<Rightarrow> sfs \<Rightarrow> (sfs, int) outcome" where
  "sfs_dir_link v name ino s =
     andthen (sfs_dir_findname v name s)
      (\<lambda>(found, emptyslot) s.
        if found \<noteq> None then Err EEXIST s
        else if length name + 1 > SFS_NAMELEN then Err ENAMETOOLONG s
        else
          andthen (case emptyslot of Some i \<Rightarrow> Ret i s | None \<Rightarrow> sfs_dir_nentries v s)
           (\<lambda>slot s.
             let sd = \<lparr>sfd_ino = ino, sfd_name = name @ replicate (SFS_NAMELEN - length name) 0\<rparr>
             in andthen (sfs_writedir v sd slot s) (\<lambda>_ s. Ret slot s)))"

definition sfs_dir_unlink :: "vref \<Rightarrow> int \<Rightarrow> sfs \<Rightarrow> (sfs, unit) outcome" where
  "sfs_dir_unlink v slot s =
     sfs_writedir v \<lparr>sfd_ino = SFS_NOINO, sfd_name = replicate SFS_NAMELEN 0\<rparr> slot s"

section \<open>The entries of a directory\<close>

definition dir_entry :: "sfs \<Rightarrow> vref \<Rightarrow> nat \<Rightarrow> sfs_dir" where
  "dir_entry s v i = dir_of_bytes (fbytes s v (i * 64) 64)"

definition dir_ents :: "sfs \<Rightarrow> vref \<Rightarrow> nat \<Rightarrow> sfs_dir list" where
  "dir_ents s v n = map (dir_entry s v) [0..<n]"

definition ent_name :: "sfs_dir \<Rightarrow> u8 list" where
  "ent_name e = cstr ((sfd_name e)[SFS_NAMELEN - 1 := 0])"

text \<open>A loaded directory of \<open>n\<close> slots.\<close>

definition is_dir :: "sfs \<Rightarrow> vref \<Rightarrow> nat \<Rightarrow> bool" where
  "is_dir s v n \<longleftrightarrow> fs_inv s \<and> n * 64 \<le> MAXBLOCKS * 512 \<and>
     (\<exists>sv. sfs_vn s v = Some sv \<and> sfi_type (sv_i sv) = SFS_TYPE_DIR \<and> sfi_size (sv_i sv) = n * 64)"

lemma length_dir_ents [simp]: "length (dir_ents s v n) = n"
  by (simp add: dir_ents_def)

lemma nth_dir_ents [simp]: "i < n \<Longrightarrow> dir_ents s v n ! i = dir_entry s v i"
  by (simp add: dir_ents_def)

lemma dir_codec:
  "sfd_ino sd < 2 ^ 32 \<Longrightarrow> length (sfd_name sd) = 60 \<Longrightarrow> dir_of_bytes (dir_bytes sd) = sd"
  "length (sfd_name sd) = 60 \<Longrightarrow> length (dir_bytes sd) = 64"
  by (simp_all add: dir_of_bytes_def dir_bytes_def dec32_enc32 [simplified])

lemma is_dir_same: "is_dir s v n \<Longrightarrow> same_fs s t \<Longrightarrow> is_dir t v n"
  unfolding is_dir_def using same_fs_inv same_fs_simps(3) by metis

lemma dir_ents_same: "same_fs s t \<Longrightarrow> dir_ents t v n = dir_ents s v n"
  by (simp add: dir_ents_def dir_entry_def fbytes_same)

section \<open>Reading and writing an entry\<close>

lemma kio_req:
  assumes "int (length buf) + pos \<le> INT_MAX" "0 \<le> pos"
  shows "io_ok \<lparr>io_uio = mk_kuio 0 (length buf) pos rw, io_mem = kbuf_mem buf\<rparr>"
  using assms by (simp add: io_ok_def mk_kuio_def)

lemma mk_kuio_simps [simp]:
  "uio_rw (mk_kuio k n p rw) = rw" "uio_offset (mk_kuio k n p rw) = p" "uio_resid (mk_kuio k n p rw) = n"
  "iov_base (mk_kuio k n p rw) = k"
  by (simp_all add: mk_kuio_def)

lemma sfs_readdir_ok:
  assumes d: "is_dir s v n" and i: "i < n"
  shows "\<exists>t. sfs_readdir v (int i) s = Ret (dir_entry s v i) t \<and> same_fs s t"
proof -
  define p where "p = i * 64"
  let ?r = "\<lparr>io_uio = mk_kuio 0 64 (int p) UIO_READ, io_mem = kbuf_mem (replicate 64 0)\<rparr>"
  let ?s = "s\<lparr>sfs_req := ?r\<rparr>"
  obtain sv where sv: "fs_inv s" "sfs_vn s v = Some sv" "sfi_size (sv_i sv) = n * 64" "n * 64 \<le> MAXBLOCKS * 512"
    using d by (auto simp: is_dir_def)
  have il: "p + 64 \<le> n * 64" using i by (simp add: p_def)
  have "io_ok ?r" using kio_req [of "replicate 64 0" "int p" UIO_READ] il sv(4) by simp
  then obtain s' where s': "sfs_io v ?s = Ret () s'" "read_done (fbytes ?s v p 64) ?s s'"
    using sfs_io_read [of ?s v sv p 64] sv il by auto
  have fb: "fbytes ?s v p 64 = fbytes s v p 64" by (rule fbytes_cong) simp_all
  obtain d where dd: "s' = s\<lparr>sfs_device := d, sfs_req := ?r\<lparr>io_mem := store (io_mem ?r) 0 (fbytes s v p 64),
      io_uio := uio_advance 64 (io_uio ?r)\<rparr>\<rparr>" "disk_ok d" "lh_sect d = block s" "lh_blocks d = lh_blocks (sfs_device s)"
    using s'(2) unfolding fb by (auto simp: read_done_def same_fs_def)
  have ld: "load (store m 0 (fbytes s v p 64)) 0 64 = fbytes s v p 64" for m
    using load_store_same [of "fbytes s v p 64" m 0] by simp
  have "off_wrap (int i * 64) = int p" using il sv(4) by (simp add: off_wrap_def p_def)
  then have "sfs_readdir v (int i) s = Ret (dir_entry s v i) (s\<lparr>sfs_device := d\<rparr>)"
    using s'(1) dd(1) ld by (simp add: sfs_readdir_def sfs_kio_def dir_entry_def uio_advance_resid p_def)
  then show ?thesis using dd by (auto simp: same_fs_def)
qed

text \<open>
  Writing slot \<open>j\<close>, which exists or is the next one: the entry is replaced or appended, or the
  directory is as before and there is no space.
\<close>

definition put_entry :: "nat \<Rightarrow> sfs_dir \<Rightarrow> sfs_dir list \<Rightarrow> sfs_dir list" where
  "put_entry j sd es = (if j < length es then es[j := sd] else es @ [sd])"

definition dir_written :: "vref \<Rightarrow> sfs \<Rightarrow> sfs \<Rightarrow> bool" where
  "dir_written v s s' \<longleftrightarrow> fs_inv s' \<and> used s \<subseteq> used s' \<and> sfs_super s' = sfs_super s \<and> sfs_req s' = sfs_req s \<and>
     sfs_vnodes s' = sfs_vnodes s \<and> sfs_kmem s' = sfs_kmem s \<and>
     (\<forall>w. w \<noteq> v \<longrightarrow> sfs_vn s' w = sfs_vn s w \<and> (\<forall>q < MAXBLOCKS * 512. fbyte s' w q = fbyte s w q))"

lemma written_entries:
  assumes d: "is_dir s v n" and j: "j \<le> n" "(j + 1) * 64 \<le> MAXBLOCKS * 512"
    and w: "written v (j * 64) (dir_bytes sd) s s'" and sd: "sfd_ino sd < 2 ^ 32" "length (sfd_name sd) = 60"
  shows "is_dir s' v (max n (j + 1))" "dir_ents s' v (max n (j + 1)) = put_entry j sd (dir_ents s v n)"
proof -
  obtain sv where sv: "sfs_vn s v = Some sv" "sfi_type (sv_i sv) = SFS_TYPE_DIR" "sfi_size (sv_i sv) = n * 64" "n * 64 \<le> MAXBLOCKS * 512"
    using d by (auto simp: is_dir_def)
  note len = dir_codec(2) [OF sd(2)]
  have "max (n * 64) (j * 64 + 64) = max n (j + 1) * 64" by (auto simp: max_def)
  then show "is_dir s' v (max n (j + 1))"
    using w sv j(2) len unfolding is_dir_def written_def same_vnode_def by auto
  have e: "dir_entry s' v i = (if i = j then sd else dir_entry s v i)" if i: "i < max n (j + 1)" for i
  proof (cases "i = j")
    case True
    have "fbytes s' v (j * 64) 64 = dir_bytes sd" using fbytes_written [OF w] len j(2) by simp
    then show ?thesis using True dir_codec(1) [OF sd] by (simp add: dir_entry_def)
  next
    case False
    have "i * 64 + 64 \<le> j * 64 \<or> j * 64 + 64 \<le> i * 64" using False by linarith
    moreover have "i * 64 + 64 \<le> MAXBLOCKS * 512" using i j(2) sv(4) by auto
    ultimately have "fbytes s' v (i * 64) 64 = fbytes s v (i * 64) 64"
      using w len unfolding fbytes_def written_def by (intro map_cong) auto
    then show ?thesis using False by (simp add: dir_entry_def)
  qed
  show "dir_ents s' v (max n (j + 1)) = put_entry j sd (dir_ents s v n)"
    by (rule nth_equalityI) (use j(1) e in \<open>auto simp: put_entry_def nth_append nth_list_update\<close>)
qed

lemma written_nothing_entries:
  assumes d: "is_dir s v n" and j: "j \<le> n" and w: "written v (j * 64) [] s s'"
  shows "is_dir s' v n" "dir_ents s' v n = dir_ents s v n"
proof -
  obtain sv where sv: "sfs_vn s v = Some sv" "sfi_type (sv_i sv) = SFS_TYPE_DIR" "sfi_size (sv_i sv) = n * 64" "n * 64 \<le> MAXBLOCKS * 512"
    using d by (auto simp: is_dir_def)
  have "max (n * 64) (j * 64) = n * 64" using j by simp
  then show "is_dir s' v n" using w sv unfolding is_dir_def written_def same_vnode_def by auto
  have "fbytes s' v (i * 64) 64 = fbytes s v (i * 64) 64" if "i < n" for i
  proof -
    have "i * 64 + 64 \<le> MAXBLOCKS * 512" using that sv(4) by simp
    then show ?thesis using w unfolding fbytes_def written_def by (intro map_cong) auto
  qed
  then show "dir_ents s' v n = dir_ents s v n" by (simp add: dir_ents_def dir_entry_def)
qed

lemma written_dir_written:
  assumes "written v p bs s s'"
  shows "dir_written v s (s'\<lparr>sfs_req := sfs_req s\<rparr>)"
  using assms unfolding written_def dir_written_def by (simp add: fbyte_req)

lemma is_dir_req [simp]: "is_dir (s\<lparr>sfs_req := r\<rparr>) v n = is_dir s v n"
  by (simp add: is_dir_def)

lemma dir_ents_req [simp]: "dir_ents (s\<lparr>sfs_req := r\<rparr>) v n = dir_ents s v n"
  by (simp add: dir_ents_def dir_entry_def fbytes_def fbyte_req)

lemma written_req [simp]: "written v p bs (s\<lparr>sfs_req := r\<rparr>) s' = written v p bs s s'"
  unfolding written_def by (simp add: fbyte_req)

lemma load_kbuf_all: "length data < 2 ^ 32 \<Longrightarrow> load (kbuf_mem data) 0 (length data) = data"
  by (rule nth_equalityI) (simp_all add: load_def addrs_def kbuf_mem_def unat_of_nat)

text \<open>Writing an entry into an existing slot or the first one after the end.\<close>

lemma sfs_writedir_ok:
  assumes d: "is_dir s v n" and j: "j \<le> n" "(j + 1) * 64 \<le> MAXBLOCKS * 512"
    and sd: "sfd_ino sd < 2 ^ 32" "length (sfd_name sd) = 60"
  shows "(\<exists>s'. sfs_writedir v sd (int j) s = Ret () s' \<and> dir_written v s s' \<and> is_dir s' v (max n (j + 1)) \<and>
            dir_ents s' v (max n (j + 1)) = put_entry j sd (dir_ents s v n)) \<or>
         (\<exists>s'. sfs_writedir v sd (int j) s = Err ENOSPC s' \<and> dir_written v s s' \<and> is_dir s' v n \<and>
            dir_ents s' v n = dir_ents s v n)"
proof -
  define p where "p = j * 64"
  let ?r = "\<lparr>io_uio = mk_kuio 0 64 (int p) UIO_WRITE, io_mem = kbuf_mem (dir_bytes sd)\<rparr>"
  let ?s = "s\<lparr>sfs_req := ?r\<rparr>"
  note len = dir_codec(2) [OF sd(2)]
  obtain sv where sv: "fs_inv s" "sfs_vn s v = Some sv" "sfi_size (sv_i sv) = n * 64" "n * 64 \<le> MAXBLOCKS * 512"
    using d by (auto simp: is_dir_def)
  have pl: "p + 64 \<le> MAXBLOCKS * 512" using j(2) by (simp add: p_def)
  have "p mod (8 * 64) = (j mod 8) * 64" unfolding p_def by (rule mod_mult_mult2)
  moreover have "j mod 8 \<le> 7" using mod_less_divisor [of 8 j] by linarith
  ultimately have pm: "p mod 512 + 64 \<le> 512" by simp
  have ok: "io_ok ?r" using kio_req [of "dir_bytes sd" "int p" UIO_WRITE] len pl by simp
  obtain s' k where s': "sfs_io v ?s = Ret () s' \<and> k = 64 \<or> sfs_io v ?s = Err ENOSPC s' \<and> k = 0"
      "written v p (load (kbuf_mem (dir_bytes sd)) 0 k) s s'" "sfs_req s' = ?r\<lparr>io_uio := uio_advance k (io_uio ?r)\<rparr>"
    using sfs_io_write1 [of ?s v sv p] sv ok pl pm by auto
  let ?t = "s'\<lparr>sfs_req := sfs_req s\<rparr>"
  have o: "off_wrap (int j * 64) = int p" using pl by (simp add: off_wrap_def p_def)
  note dw = written_dir_written [OF s'(2)]
  show ?thesis
  proof (cases "k = 64")
    case True
    have "load (kbuf_mem (dir_bytes sd)) 0 64 = dir_bytes sd" using load_kbuf_all [of "dir_bytes sd"] len by simp
    then have w: "written v (j * 64) (dir_bytes sd) s s'" using s'(2) True by (simp add: p_def)
    have "sfs_writedir v sd (int j) s = Ret () ?t"
      using s'(1,3) True o len by (simp add: sfs_writedir_def sfs_kio_def uio_advance_resid)
    then show ?thesis using dw written_entries [OF d j w sd] by (intro disjI1 exI [of _ ?t]) simp
  next
    case False
    then have k: "k = 0" "sfs_io v ?s = Err ENOSPC s'" using s'(1) by auto
    have w: "written v (j * 64) [] s s'" using s'(2) k(1) by (simp add: p_def load_def addrs_def)
    have "sfs_writedir v sd (int j) s = Err ENOSPC ?t"
      using k o len by (simp add: sfs_writedir_def sfs_kio_def)
    then show ?thesis using dw written_nothing_entries [OF d j(1) w] by (intro disjI2 exI [of _ ?t]) simp
  qed
qed

section \<open>Searching\<close>

definition matches :: "u8 list \<Rightarrow> sfs_dir \<Rightarrow> bool" where
  "matches name e \<longleftrightarrow> sfd_ino e \<noteq> SFS_NOINO \<and> ent_name e = name"

definition names_unique :: "sfs_dir list \<Rightarrow> bool" where
  "names_unique es \<longleftrightarrow> (\<forall>name i j. i < length es \<longrightarrow> j < length es \<longrightarrow>
     matches name (es ! i) \<longrightarrow> matches name (es ! j) \<longrightarrow> i = j)"

text \<open>What a search must find in a list of entries.\<close>

definition scanned :: "u8 list \<Rightarrow> sfs_dir list \<Rightarrow> (nat \<times> int) option \<Rightarrow> int option \<Rightarrow> bool" where
  "scanned name es f e \<longleftrightarrow>
     (case f of None \<Rightarrow> \<forall>x\<in>set es. \<not> matches name x
      | Some (ino, i) \<Rightarrow> 0 \<le> i \<and> i < int (length es) \<and> matches name (es ! nat i) \<and> ino = sfd_ino (es ! nat i)) \<and>
     (case e of None \<Rightarrow> \<forall>x\<in>set es. sfd_ino x \<noteq> SFS_NOINO
      | Some j \<Rightarrow> 0 \<le> j \<and> j < int (length es) \<and> sfd_ino (es ! nat j) = SFS_NOINO)"

lemma scanned_snoc:
  assumes "scanned name es f e"
  shows "sfd_ino x = 0 \<Longrightarrow> scanned name (es @ [x]) f (Some (int (length es)))"
    "matches name x \<Longrightarrow> scanned name (es @ [x]) (Some (sfd_ino x, int (length es))) e"
    "sfd_ino x \<noteq> 0 \<Longrightarrow> ent_name x \<noteq> name \<Longrightarrow> scanned name (es @ [x]) f e"
  using assms by (auto simp: scanned_def nth_append matches_def split: option.splits)

lemma findname_loop_ok:
  assumes "is_dir s v n" "es = dir_ents s v n" "names_unique es" "i + k = n" "scanned name (take i es) f e"
  shows "\<exists>t f' e'. findname_loop k (int i) v name f e s = Ret (f', e') t \<and> same_fs s t \<and> scanned name es f' e'"
  using assms
proof (induction k arbitrary: i f e s)
  case 0
  then show ?case using same_fs_refl [of s] by (auto simp: is_dir_def fs_inv_def)
next
  case (Suc k)
  then have i: "i < n" by simp
  let ?x = "dir_entry s v i"
  have tk: "take (Suc i) es = take i es @ [?x]" using i Suc.prems(2) by (simp add: take_Suc_conv_app_nth)
  obtain t where t: "sfs_readdir v (int i) s = Ret ?x t" "same_fs s t" using sfs_readdir_ok [OF Suc.prems(1) i] by blast
  have t': "is_dir t v n" "es = dir_ents t v n" using Suc.prems(1,2) t(2) is_dir_same dir_ents_same by metis+
  have len: "length (take i es) = i" using i Suc.prems(2) by simp
  note sn = scanned_snoc [OF Suc.prems(5), of ?x, unfolded len, folded tk]
  have step: ?case if "scanned name (take (Suc i) es) f' e'"
      "findname_loop (Suc k) (int i) v name f e s = findname_loop k (int (Suc i)) v name f' e' t" for f' e'
    using Suc.IH [OF t' Suc.prems(3) _ that(1)] Suc.prems(4) that(2) same_fs_trans [OF t(2)] by auto
  consider "sfd_ino ?x = 0" | "matches name ?x" | "sfd_ino ?x \<noteq> 0" "ent_name ?x \<noteq> name"
    by (auto simp: matches_def)
  then show ?case
  proof cases
    case 1
    then show ?thesis using step [OF sn(1)] t(1) by (simp add: add.commute)
  next
    case 2
    have "f = None"
    proof (rule ccontr)
      assume "f \<noteq> None"
      then obtain ino l where f: "f = Some (ino, l)" by auto
      then have l: "nat l < i" "matches name (es ! nat l)" using Suc.prems(5) len by (auto simp: scanned_def)
      then have "nat l = i" using Suc.prems(2,3) i 2 unfolding names_unique_def by auto
      then show False using l by simp
    qed
    then show ?thesis using step [OF sn(2) [OF 2]] t(1) 2 by (simp add: matches_def ent_name_def add.commute)
  next
    case 3
    then show ?thesis using step [OF sn(3)] t(1) by (simp add: ent_name_def add.commute)
  qed
qed

section \<open>A directory as a table of names\<close>

definition dir_map :: "sfs_dir list \<Rightarrow> u8 list \<Rightarrow> nat option" where
  "dir_map es name = map_option sfd_ino (List.find (matches name) es)"

lemma option_eqI: "(\<And>x. a = Some x \<longleftrightarrow> b = Some x) \<Longrightarrow> a = b"
  by (cases a; cases b) auto

lemma dir_map_None: "dir_map es name = None \<longleftrightarrow> (\<forall>x\<in>set es. \<not> matches name x)"
  by (auto simp: dir_map_def find_None_iff)

lemma dir_map_Some:
  assumes "names_unique es"
  shows "dir_map es name = Some x \<longleftrightarrow> (\<exists>i < length es. matches name (es ! i) \<and> sfd_ino (es ! i) = x)"
proof
  assume "dir_map es name = Some x"
  then show "\<exists>i < length es. matches name (es ! i) \<and> sfd_ino (es ! i) = x"
    by (auto simp: dir_map_def find_Some_iff)
next
  assume "\<exists>i < length es. matches name (es ! i) \<and> sfd_ino (es ! i) = x"
  then obtain i where i: "i < length es" "matches name (es ! i)" "sfd_ino (es ! i) = x" by blast
  then have "List.find (matches name) es = Some (es ! i)"
    using assms unfolding find_Some_iff names_unique_def
    by (intro exI [of _ i]) (auto dest: less_trans)
  then show "dir_map es name = Some x" using i(3) by (simp add: dir_map_def)
qed

lemma scanned_map:
  assumes "names_unique es" "scanned name es f e"
  shows "map_option fst f = dir_map es name"
proof (cases f)
  case None
  then show ?thesis using assms(2) dir_map_None [of es name] by (simp add: scanned_def)
next
  case (Some a)
  obtain ino i where a: "a = (ino, i)" by (cases a)
  have "nat i < length es" "matches name (es ! nat i)" "ino = sfd_ino (es ! nat i)"
    using assms(2) Some a by (auto simp: scanned_def)
  then show ?thesis using dir_map_Some [OF assms(1), of name ino] Some a by auto
qed

lemma put_entry_nth:
  assumes "j \<le> length es"
  shows "length (put_entry j sd es) = max (length es) (Suc j)"
    "i < length (put_entry j sd es) \<Longrightarrow> put_entry j sd es ! i = (if i = j then sd else es ! i)"
  using assms by (auto simp: put_entry_def nth_append)

lemma put_entry_link:
  assumes u: "names_unique es" and j: "j \<le> length es" "j < length es \<Longrightarrow> sfd_ino (es ! j) = 0"
    and sd: "matches name sd" and new: "dir_map es name = None"
  shows "names_unique (put_entry j sd es)" "dir_map (put_entry j sd es) = (dir_map es)(name \<mapsto> sfd_ino sd)"
proof -
  let ?es = "put_entry j sd es"
  note nth = put_entry_nth [OF j(1), where sd = sd]
  have m: "matches m (?es ! i) \<longleftrightarrow> (if i = j then m = name else i < length es \<and> matches m (es ! i))"
    if "i < length ?es" for m i
    using that nth sd j(1) by (auto simp: matches_def)
  have no: "i < length es \<Longrightarrow> \<not> matches name (es ! i)" for i using new dir_map_None [of es name] by simp
  show u': "names_unique ?es"
    unfolding names_unique_def
  proof (intro allI impI)
    fix m i k assume a: "i < length ?es" "k < length ?es" "matches m (?es ! i)" "matches m (?es ! k)"
    show "i = k" using a(3,4) no u unfolding m [OF a(1)] m [OF a(2)] names_unique_def by (metis (full_types))
  qed
  show "dir_map ?es = (dir_map es)(name \<mapsto> sfd_ino sd)"
  proof
    fix m
    have "dir_map ?es m = Some x \<longleftrightarrow> ((dir_map es)(name \<mapsto> sfd_ino sd)) m = Some x" for x
    proof (cases "m = name")
      case True
      have "dir_map ?es name = Some x \<longleftrightarrow> (\<exists>i<length ?es. i = j \<and> sfd_ino (?es ! i) = x)"
        unfolding dir_map_Some [OF u'] using m [where m = name] no by (metis (full_types))
      then show ?thesis using True nth by auto
    next
      case False
      have "dir_map ?es m = Some x \<longleftrightarrow> (\<exists>i<length es. matches m (es ! i) \<and> sfd_ino (es ! i) = x)"
        unfolding dir_map_Some [OF u']
      proof (intro iffI; elim exE conjE)
        fix i assume i: "i < length ?es" "matches m (?es ! i)" "sfd_ino (?es ! i) = x"
        then have "i \<noteq> j" "i < length es" "matches m (es ! i)" using m [OF i(1)] False by (auto split: if_splits)
        then show "\<exists>i<length es. matches m (es ! i) \<and> sfd_ino (es ! i) = x" using nth(2) [OF i(1)] i(3) by auto
      next
        fix i assume i: "i < length es" "matches m (es ! i)" "sfd_ino (es ! i) = x"
        have "i \<noteq> j" using i j(2) by (auto simp: matches_def)
        moreover have l: "i < length ?es" using i(1) nth(1) by simp
        ultimately show "\<exists>i<length ?es. matches m (?es ! i) \<and> sfd_ino (?es ! i) = x"
          using nth(2) [OF l] i by (intro exI [of _ i]) simp
      qed
      then show ?thesis using dir_map_Some [OF u, of m x] False by simp
    qed
    then show "dir_map ?es m = ((dir_map es)(name \<mapsto> sfd_ino sd)) m" by (rule option_eqI)
  qed
qed

lemma put_entry_unlink:
  assumes u: "names_unique es" and j: "j < length es" "matches name (es ! j)" and sd: "sfd_ino sd = 0"
  shows "names_unique (put_entry j sd es)" "dir_map (put_entry j sd es) = (dir_map es)(name := None)"
proof -
  let ?es = "put_entry j sd es"
  have nth: "length ?es = length es" "i < length es \<Longrightarrow> ?es ! i = (if i = j then sd else es ! i)" for i
    using put_entry_nth [of j es, where sd = sd] j(1) by simp_all
  have m: "matches m (?es ! i) \<longleftrightarrow> i \<noteq> j \<and> matches m (es ! i)" if "i < length es" for m i
    using nth(2) [OF that] sd by (simp add: matches_def)
  show u': "names_unique ?es"
    unfolding names_unique_def nth(1)
  proof (intro allI impI)
    fix m i k assume a: "i < length es" "k < length es" "matches m (?es ! i)" "matches m (?es ! k)"
    show "i = k" using a(3,4) u a(1,2) unfolding m [OF a(1)] m [OF a(2)] names_unique_def by blast
  qed
  show "dir_map ?es = (dir_map es)(name := None)"
  proof
    fix q
    have "dir_map ?es q = Some x \<longleftrightarrow> ((dir_map es)(name := None)) q = Some x" for x
    proof (cases "q = name")
      case True
      have "\<not> matches name (?es ! i)" if "i < length es" for i
        using that j u unfolding m [OF that] names_unique_def by blast
      then show ?thesis using True dir_map_Some [OF u', of name x] nth(1) by auto
    next
      case False
      have "\<not> matches q (es ! j)" using j(2) False by (auto simp: matches_def)
      then show ?thesis
        using False m nth unfolding fun_upd_other [OF False] dir_map_Some [OF u'] dir_map_Some [OF u] by (metis (full_types))
    qed
    then show "dir_map ?es q = ((dir_map es)(name := None)) q" by (rule option_eqI)
  qed
qed

section \<open>The operations on the table\<close>

definition dir_slots :: "vref \<Rightarrow> sfs \<Rightarrow> nat" where
  "dir_slots v s = (case sfs_vn s v of None \<Rightarrow> 0 | Some sv \<Rightarrow> sfi_size (sv_i sv) div 64)"

definition dir_good :: "vref \<Rightarrow> sfs \<Rightarrow> bool" where
  "dir_good v s \<longleftrightarrow> is_dir s v (dir_slots v s) \<and> names_unique (dir_ents s v (dir_slots v s))"

definition dir_table :: "vref \<Rightarrow> sfs \<Rightarrow> u8 list \<Rightarrow> nat option" where
  "dir_table v s = dir_map (dir_ents s v (dir_slots v s))"

lemma is_dir_slots: "is_dir s v n \<Longrightarrow> dir_slots v s = n"
  by (auto simp: is_dir_def dir_slots_def)

lemma dir_goodI:
  assumes "is_dir s v n" "names_unique (dir_ents s v n)"
  shows "dir_good v s" "dir_table v s = dir_map (dir_ents s v n)"
  using assms is_dir_slots [OF assms(1)] by (simp_all add: dir_good_def dir_table_def)

lemma dir_good_same:
  assumes "dir_good v s" "same_fs s t"
  shows "dir_good v t" "dir_table v t = dir_table v s" "dir_slots v t = dir_slots v s"
proof -
  show n: "dir_slots v t = dir_slots v s" using same_fs_simps(3) [OF assms(2)] by (simp add: dir_slots_def)
  show "dir_good v t" "dir_table v t = dir_table v s"
    using assms n is_dir_same [OF _ assms(2)] dir_ents_same [OF assms(2)] by (simp_all add: dir_good_def dir_table_def)
qed

lemma dir_nentries_ok: "is_dir s v n \<Longrightarrow> sfs_dir_nentries v s = Ret (int n) s"
  by (auto simp: is_dir_def sfs_dir_nentries_def with_vn_def Let_def)

lemma sfs_dir_findname_ok:
  assumes "dir_good v s"
  shows "\<exists>t f e. sfs_dir_findname v name s = Ret (f, e) t \<and> same_fs s t \<and>
           scanned name (dir_ents s v (dir_slots v s)) f e"
  using findname_loop_ok [of s v "dir_slots v s" "dir_ents s v (dir_slots v s)" 0 "dir_slots v s" name None None]
    assms dir_nentries_ok [of s v "dir_slots v s"]
  by (simp add: dir_good_def sfs_dir_findname_def scanned_def)

lemma ent_name_new:
  assumes "0 \<notin> set name" "length name < 60"
  shows "ent_name \<lparr>sfd_ino = ino, sfd_name = name @ replicate (60 - length name) 0\<rparr> = name"
proof -
  obtain k where k: "60 - length name = Suc k" using assms(2) by (metis Suc_diff_Suc)
  have "(name @ replicate (60 - length name) 0)[59 := 0] = name @ replicate (60 - length name) 0"
    using assms(2) by (intro list_update_same_conv [THEN iffD2]) (auto simp: nth_append)
  moreover have "takeWhile (\<lambda>b. b \<noteq> 0) (name @ 0 # ys) = name" for ys using assms(1) by (induction name) auto
  ultimately show ?thesis by (simp add: ent_name_def cstr_def k)
qed

text \<open>A directory cannot grow past the largest file.\<close>

lemma sfs_writedir_full:
  assumes d: "is_dir s v 1144" and len: "length (dir_bytes sd) = 64"
  shows "sfs_writedir v sd 1144 s = Err EINVAL s"
proof -
  obtain sv where sv: "sfs_vn s v = Some sv" "sfi_size (sv_i sv) = 73216" using d by (auto simp: is_dir_def)
  let ?s = "s\<lparr>sfs_req := \<lparr>io_uio = mk_kuio 0 64 73216 UIO_WRITE, io_mem = kbuf_mem (dir_bytes sd)\<rparr>\<rparr>"
  have w: "off_wrap 73216 = 73216" by (simp add: off_wrap_def)
  have "file_block 73216 = 143" "block_off 73216 = 0"
    using file_block_nat [of 143 0] block_off_nat [of 73216] by simp_all
  moreover have "sfs_bmap v 143 True ?s = Err EINVAL ?s" using sv by (simp add: sfs_bmap_def)
  ultimately have "sfs_io_body v ?s = Err EINVAL ?s" by (simp add: sfs_io_body_def sfs_partialio_def Let_def)
  moreover have "sfs_io_out v 0 ?s = ?s" using sv w by (simp add: sfs_io_out_def upd_uio_def mk_kuio_def)
  ultimately have "sfs_io v ?s = Err EINVAL ?s" using sv by (simp add: sfs_io_def with_vn_def)
  then show ?thesis using w len by (simp add: sfs_writedir_def sfs_kio_def)
qed

text \<open>
  Adding a name.  \<open>dir_written\<close> compares the state with the one before, for everything but the
  directory itself.
\<close>

lemma same_fs_more:
  assumes "same_fs s t"
  shows "fbyte t = fbyte s" "sfs_vnodes t = sfs_vnodes s" "sfs_kmem t = sfs_kmem s"
proof -
  show "fbyte t = fbyte s" by (rule ext, rule ext) (simp only: fbyte_def same_fs_simps [OF assms])
qed (use assms in \<open>auto simp: same_fs_def\<close>)

lemma dir_written_same: "same_fs s t \<Longrightarrow> dir_written v t s' \<Longrightarrow> dir_written v s s'"
  unfolding dir_written_def by (simp add: same_fs_simps same_fs_more)

lemma same_dir_written: "same_fs s t \<Longrightarrow> fs_inv s \<Longrightarrow> dir_written v s t"
  unfolding dir_written_def by (simp add: same_fs_simps same_fs_more same_fs_inv)

lemma sfs_dir_link_exists:
  assumes "dir_good v s" "dir_table v s name \<noteq> None"
  shows "\<exists>t. sfs_dir_link v name ino s = Err EEXIST t \<and> same_fs s t"
proof -
  obtain t f e where t: "sfs_dir_findname v name s = Ret (f, e) t" "same_fs s t"
      "scanned name (dir_ents s v (dir_slots v s)) f e" using sfs_dir_findname_ok [OF assms(1)] by blast
  then have "f \<noteq> None" using scanned_map [OF _ t(3)] assms by (auto simp: dir_good_def dir_table_def)
  then show ?thesis using t by (auto simp: sfs_dir_link_def)
qed

lemma sfs_dir_link_toolong:
  assumes "dir_good v s" "dir_table v s name = None" "60 \<le> length name"
  shows "\<exists>t. sfs_dir_link v name ino s = Err ENAMETOOLONG t \<and> same_fs s t"
proof -
  obtain t f e where t: "sfs_dir_findname v name s = Ret (f, e) t" "same_fs s t"
      "scanned name (dir_ents s v (dir_slots v s)) f e" using sfs_dir_findname_ok [OF assms(1)] by blast
  then have "f = None" using scanned_map [OF _ t(3)] assms by (auto simp: dir_good_def dir_table_def)
  then show ?thesis using t assms(3) by (auto simp: sfs_dir_link_def)
qed

lemma sfs_dir_link_new:
  assumes g: "dir_good v s" and new: "dir_table v s name = None"
    and name: "0 \<notin> set name" "length name < 60" and ino: "0 < ino" "ino < 2 ^ 32"
  shows "(\<exists>j s'. sfs_dir_link v name ino s = Ret (int j) s' \<and> dir_written v s s' \<and> dir_good v s' \<and>
            dir_table v s' = (dir_table v s)(name \<mapsto> ino) \<and> j < dir_slots v s' \<and>
            matches name (dir_entry s' v j)) \<or>
         (\<exists>e s'. sfs_dir_link v name ino s = Err e s' \<and> e \<in> {ENOSPC, EINVAL} \<and> dir_written v s s' \<and> dir_good v s' \<and>
            dir_table v s' = dir_table v s)"
proof -
  define n where "n = dir_slots v s"
  define es where "es = dir_ents s v n"
  let ?sd = "\<lparr>sfd_ino = ino, sfd_name = name @ replicate (60 - length name) 0\<rparr>"
  obtain t f e where t: "sfs_dir_findname v name s = Ret (f, e) t" "same_fs s t" "scanned name es f e"
    using sfs_dir_findname_ok [OF g] unfolding es_def n_def by blast
  have u: "names_unique es" "is_dir s v n" and new': "dir_map es name = None"
    using g new by (simp_all add: dir_good_def dir_table_def es_def n_def)
  have f: "f = None" using scanned_map [OF u(1) t(3)] new' by simp
  have len: "length es = n" by (simp add: es_def)
  have dt: "is_dir t v n" "dir_ents t v n = es" using is_dir_same [OF u(2) t(2)] dir_ents_same [OF t(2)] es_def by auto
  define j where "j = (case e of None \<Rightarrow> n | Some i \<Rightarrow> nat i)"
  have j: "j \<le> n" "j < n \<Longrightarrow> sfd_ino (es ! j) = 0" "(case e of Some i \<Rightarrow> Ret i t | None \<Rightarrow> sfs_dir_nentries v t) = Ret (int j) t"
    using t(3) len dir_nentries_ok [OF dt(1)] by (auto simp: scanned_def j_def split: option.splits)
  have l: "sfs_dir_link v name ino s = andthen (sfs_writedir v ?sd (int j) t) (\<lambda>_ s. Ret (int j) s)"
    using t(1) f j(3) name(2) by (simp add: sfs_dir_link_def Let_def)
  have sd: "sfd_ino ?sd < 2 ^ 32" "length (sfd_name ?sd) = 60" "matches name ?sd"
    using ino name ent_name_new [OF name, of ino] by (simp_all add: matches_def)
  show ?thesis
  proof (cases "j = 1144")
    case True
    then have "n = 1144" using j(1) u(2) by (simp add: is_dir_def)
    then have "sfs_writedir v ?sd (int j) t = Err EINVAL t"
      using sfs_writedir_full [of t v ?sd] dt(1) True dir_codec(2) [OF sd(2)] by simp
    then show ?thesis using l t(2) same_dir_written [OF t(2)] u(2) dir_good_same [OF g t(2)] by (auto simp: is_dir_def)
  next
    case False
    then have j2: "(j + 1) * 64 \<le> MAXBLOCKS * 512" using j(1) u(2) by (simp add: is_dir_def)
    note pl = put_entry_link [OF u(1) _ _ sd(3) new', of j, unfolded len, OF j(1,2)]
    from sfs_writedir_ok [OF dt(1) j(1) j2 sd(1,2)] show ?thesis
    proof (elim disjE exE conjE)
      fix s' assume w: "sfs_writedir v ?sd (int j) t = Ret () s'" "dir_written v t s'" "is_dir s' v (max n (j + 1))"
        "dir_ents s' v (max n (j + 1)) = put_entry j ?sd (dir_ents t v n)"
      have e: "dir_ents s' v (max n (j + 1)) = put_entry j ?sd es" using w(4) dt(2) by simp
      have "dir_good v s'" "dir_table v s' = (dir_table v s)(name \<mapsto> ino)"
        using dir_goodI [OF w(3), unfolded e, OF pl(1)] pl(2) by (simp_all add: dir_table_def es_def n_def)
      moreover have "dir_ents s' v (max n (j + 1)) ! j = ?sd" using e put_entry_nth [of j es, where sd = ?sd] j(1) len by simp
      then have "dir_entry s' v j = ?sd" by simp
      ultimately show ?thesis using l w(1) dir_written_same [OF t(2) w(2)] is_dir_slots [OF w(3)] sd(3)
        by (intro disjI1 exI [of _ j] exI [of _ s']) simp
    next
      fix s' assume w: "sfs_writedir v ?sd (int j) t = Err ENOSPC s'" "dir_written v t s'" "is_dir s' v n"
        "dir_ents s' v n = dir_ents t v n"
      have "dir_good v s'" "dir_table v s' = dir_table v s"
        using dir_goodI [OF w(3)] w(4) dt(2) u(1) by (simp_all add: dir_table_def es_def n_def)
      then show ?thesis using l w(1) dir_written_same [OF t(2) w(2)]
        by (intro disjI2 exI [of _ ENOSPC] exI [of _ s']) simp
    qed
  qed
qed

lemma sfs_dir_unlink_ok:
  assumes g: "dir_good v s" and j: "j < dir_slots v s" "matches name (dir_entry s v j)"
  shows "(\<exists>s'. sfs_dir_unlink v (int j) s = Ret () s' \<and> dir_written v s s' \<and> dir_good v s' \<and>
            dir_table v s' = (dir_table v s)(name := None)) \<or>
         (\<exists>s'. sfs_dir_unlink v (int j) s = Err ENOSPC s' \<and> dir_written v s s' \<and> dir_good v s' \<and>
            dir_table v s' = dir_table v s)"
proof -
  define n where "n = dir_slots v s"
  let ?sd = "\<lparr>sfd_ino = SFS_NOINO, sfd_name = replicate 60 0\<rparr>" and ?es = "dir_ents s v n"
  have u: "names_unique ?es" "is_dir s v n" using g by (simp_all add: dir_good_def n_def)
  have jn: "j \<le> n" "(j + 1) * 64 \<le> MAXBLOCKS * 512" "max n (j + 1) = n" using j(1) u(2) by (simp_all add: is_dir_def n_def)
  have pu: "names_unique (put_entry j ?sd ?es)" "dir_map (put_entry j ?sd ?es) = (dir_map ?es)(name := None)"
    using put_entry_unlink [OF u(1), of j name ?sd] j by (simp_all add: n_def)
  from sfs_writedir_ok [OF u(2) jn(1,2), of ?sd] show ?thesis
    unfolding jn(3) sfs_dir_unlink_def using dir_goodI [of _ v n] pu u(1)
    by (simp add: dir_table_def n_def [symmetric]) metis
qed

section \<open>The interface\<close>

text \<open>
  What the vnode operations rely on: a directory is a table of names.  \<open>at name slot s\<close> says that
  the entry of a name is in a slot, which is what \<^verbatim>\<open>sfs_dir_unlink\<close> is given.
\<close>

locale name_table =
  fixes ok :: "'s \<Rightarrow> bool" and table :: "'s \<Rightarrow> u8 list \<Rightarrow> nat option" and at :: "u8 list \<Rightarrow> int \<Rightarrow> 's \<Rightarrow> bool"
    and findname :: "u8 list \<Rightarrow> 's \<Rightarrow> ('s, (nat \<times> int) option \<times> int option) outcome"
    and link :: "u8 list \<Rightarrow> nat \<Rightarrow> 's \<Rightarrow> ('s, int) outcome" and unlink :: "int \<Rightarrow> 's \<Rightarrow> ('s, unit) outcome"
  assumes find_ok: "ok s \<Longrightarrow> \<exists>t f e. findname name s = Ret (f, e) t \<and> ok t \<and> table t = table s \<and>
      map_option fst f = table s name \<and> (\<forall>ino i. f = Some (ino, i) \<longrightarrow> at name i t)"
    and link_exists: "ok s \<Longrightarrow> table s name \<noteq> None \<Longrightarrow> \<exists>t. link name ino s = Err EEXIST t \<and> ok t \<and> table t = table s"
    and link_toolong: "ok s \<Longrightarrow> table s name = None \<Longrightarrow> SFS_NAMELEN \<le> length name \<Longrightarrow>
      \<exists>t. link name ino s = Err ENAMETOOLONG t \<and> ok t \<and> table t = table s"
    and link_new: "ok s \<Longrightarrow> table s name = None \<Longrightarrow> 0 \<notin> set name \<Longrightarrow> length name < SFS_NAMELEN \<Longrightarrow> 0 < ino \<Longrightarrow> ino < 2 ^ 32 \<Longrightarrow>
      (\<exists>i t. link name ino s = Ret i t \<and> ok t \<and> table t = (table s)(name \<mapsto> ino) \<and> at name i t) \<or>
      (\<exists>e t. link name ino s = Err e t \<and> e \<in> {ENOSPC, EINVAL} \<and> ok t \<and> table t = table s)"
    and unlink_ok: "ok s \<Longrightarrow> at name i s \<Longrightarrow>
      (\<exists>t. unlink i s = Ret () t \<and> ok t \<and> table t = (table s)(name := None)) \<or>
      (\<exists>t. unlink i s = Err ENOSPC t \<and> ok t \<and> table t = table s)"
begin

lemma link_then_find:
  assumes "ok s" "0 \<notin> set name" "0 < ino" "ino < 2 ^ 32" "link name ino s = Ret i t"
  shows "\<exists>u i e. findname name t = Ret (Some (ino, i), e) u \<and> ok u \<and> table u = (table s)(name \<mapsto> ino)"
proof -
  have n: "table s name = None" using link_exists [OF assms(1), of name ino] assms(5) by (metis outcome.distinct(1))
  have l: "length name < SFS_NAMELEN" using link_toolong [OF assms(1) n, of ino] assms(5) by (cases "60 \<le> length name") auto
  have t: "ok t" "table t = (table s)(name \<mapsto> ino)" using link_new [OF assms(1) n assms(2) l assms(3,4)] assms(5) by auto
  obtain u f e where u: "findname name t = Ret (f, e) u" "ok u" "table u = table t" "map_option fst f = table t name"
    using find_ok [OF t(1)] by blast
  moreover obtain i where "f = Some (ino, i)" using u(4) t(2) by auto
  ultimately show ?thesis using t(2) by auto
qed

lemma unlink_found:
  assumes "ok s" "findname name s = Ret (Some (ino, i), e) t" "unlink i t = Ret () u"
  shows "ok u \<and> table u = (table s)(name := None) \<and> (\<exists>e' u'. findname name u = Ret (None, e') u')"
proof -
  have t: "ok t" "table t = table s" "at name i t" using find_ok [OF assms(1), of name] assms(2) by auto
  have u: "ok u" "table u = (table s)(name := None)" using unlink_ok [OF t(1,3)] assms(3) t(2) by auto
  then show ?thesis using find_ok [OF u(1), of name] by auto
qed

end

interpretation sfs_names: name_table "dir_good v" "dir_table v"
  "\<lambda>name i s. \<exists>j < dir_slots v s. i = int j \<and> matches name (dir_entry s v j)"
  "sfs_dir_findname v" "sfs_dir_link v" "sfs_dir_unlink v" for v
proof
  fix s name assume g: "dir_good v s"
  let ?es = "dir_ents s v (dir_slots v s)"
  obtain t f e where t: "sfs_dir_findname v name s = Ret (f, e) t" "same_fs s t" "scanned name ?es f e"
    using sfs_dir_findname_ok [OF g] by blast
  have "names_unique ?es" using g by (simp add: dir_good_def)
  then have "map_option fst f = dir_table v s name" using scanned_map [OF _ t(3)] by (simp add: dir_table_def)
  moreover have "\<exists>j < dir_slots v t. i = int j \<and> matches name (dir_entry t v j)" if "f = Some (ino, i)" for ino i
  proof -
    have i: "0 \<le> i" "i < int (dir_slots v s)" "matches name (?es ! nat i)" using t(3) that by (auto simp: scanned_def)
    then have "nat i < dir_slots v s" by simp
    moreover have "dir_entry t v (nat i) = ?es ! nat i" using calculation dir_ents_same [OF t(2), of v "dir_slots v s"]
      by (metis nth_dir_ents)
    ultimately show ?thesis using i dir_good_same(3) [OF g t(2)] by (intro exI [of _ "nat i"]) simp
  qed
  ultimately show "\<exists>t f e. sfs_dir_findname v name s = Ret (f, e) t \<and> dir_good v t \<and> dir_table v t = dir_table v s \<and>
      map_option fst f = dir_table v s name \<and>
      (\<forall>ino i. f = Some (ino, i) \<longrightarrow> (\<exists>j < dir_slots v t. i = int j \<and> matches name (dir_entry t v j)))"
    using t(1) dir_good_same [OF g t(2)] by blast
next
  fix s name ino assume g: "dir_good v s" "dir_table v s name \<noteq> None"
  then show "\<exists>t. sfs_dir_link v name ino s = Err EEXIST t \<and> dir_good v t \<and> dir_table v t = dir_table v s"
    using sfs_dir_link_exists [OF g] dir_good_same [OF g(1)] by blast
next
  fix s name ino assume g: "dir_good v s" "dir_table v s name = None" "60 \<le> length name"
  then show "\<exists>t. sfs_dir_link v name ino s = Err ENAMETOOLONG t \<and> dir_good v t \<and> dir_table v t = dir_table v s"
    using sfs_dir_link_toolong [OF g] dir_good_same [OF g(1)] by blast
next
  fix s name ino assume "dir_good v s" "dir_table v s name = None" "0 \<notin> set name" "length name < 60"
    and ino: "0 < ino" "(ino::nat) < 2 ^ 32"
  from sfs_dir_link_new [OF this]
  show "(\<exists>i t. sfs_dir_link v name ino s = Ret i t \<and> dir_good v t \<and> dir_table v t = (dir_table v s)(name \<mapsto> ino) \<and>
        (\<exists>j < dir_slots v t. i = int j \<and> matches name (dir_entry t v j))) \<or>
      (\<exists>e t. sfs_dir_link v name ino s = Err e t \<and> e \<in> {ENOSPC, EINVAL} \<and> dir_good v t \<and> dir_table v t = dir_table v s)"
    (is "?A \<or> ?B")
  proof (elim disjE exE conjE)
    fix j s' assume "sfs_dir_link v name ino s = Ret (int j) s'" "dir_good v s'" "dir_table v s' = (dir_table v s)(name \<mapsto> ino)"
      "j < dir_slots v s'" "matches name (dir_entry s' v j)"
    then have ?A by (intro exI [of _ "int j"] exI [of _ s'] conjI exI [of _ j]) simp_all
    then show ?thesis ..
  next
    fix e s' assume "sfs_dir_link v name ino s = Err e s'" "e \<in> {ENOSPC, EINVAL}" "dir_good v s'" "dir_table v s' = dir_table v s"
    then have ?B by (intro exI [of _ e] exI [of _ s'] conjI)
    then show ?thesis ..
  qed
next
  fix s name i assume "dir_good v s" "\<exists>j < dir_slots v s. i = int j \<and> matches name (dir_entry s v j)"
  then show "(\<exists>t. sfs_dir_unlink v i s = Ret () t \<and> dir_good v t \<and> dir_table v t = (dir_table v s)(name := None)) \<or>
      (\<exists>t. sfs_dir_unlink v i s = Err ENOSPC t \<and> dir_good v t \<and> dir_table v t = dir_table v s)"
    by (elim exE conjE) (use sfs_dir_unlink_ok in metis)
qed

section \<open>Properties\<close>

text \<open>
  A sample volume of 16 blocks: superblock, the inode of the root directory, the free map, the inode of a
  file, the block of the directory and a block of the file.  The directory holds one entry, for
  the file, in two slots; its vnode is the only one loaded.
\<close>

definition sample_entry :: sfs_dir where
  "sample_entry = \<lparr>sfd_ino = 3, sfd_name = [97] @ replicate 59 0\<rparr>"

definition sample_root :: sfs_inode where
  "sample_root = \<lparr>sfi_size = 128, sfi_type = SFS_TYPE_DIR, sfi_linkcount = 1,
     sfi_direct = 4 # replicate 14 0, sfi_indirect = 0, sfi_waste = replicate 440 0\<rparr>"

definition sample_file :: sfs_inode where
  "sample_file = \<lparr>sfi_size = 100, sfi_type = SFS_TYPE_FILE, sfi_linkcount = 1,
     sfi_direct = 5 # replicate 14 0, sfi_indirect = 0, sfi_waste = replicate 440 0\<rparr>"

definition sample_map :: "u8 list" where
  "sample_map = [- 1, 0] @ replicate 510 (- 1)"

definition sample_sect :: "nat \<Rightarrow> u8 list" where
  "sample_sect b = (if b = 0 then super_bytes sample_super else if b = 1 then inode_bytes sample_root
     else if b = 2 then sample_map else if b = 3 then inode_bytes sample_file
     else if b = 4 then dir_bytes sample_entry @ replicate 448 0 else replicate 512 (of_nat b))"

definition sample_vol :: sfs where
  "sample_vol = \<lparr>sfs_device = (sample_disk (\<lambda>_. False))\<lparr>lh_sect := sample_sect\<rparr>, sfs_super = sample_super, sfs_superdirty = False,
     sfs_freemap = \<lparr>bm_nbits = 4096, bm_v = sample_map\<rparr>, sfs_freemapdirty = False,
     sfs_vnodes = \<lparr>a_num = 1, a_max = 2, a_v = Some [Some 0, None]\<rparr>,
     sfs_vn = [0 \<mapsto> \<lparr>sv_ops = Dir_ops, sv_refcount = 1, sv_opencount = 0, sv_countlock = free_lock, sv_i = sample_root, sv_ino = 1, sv_dirty = False\<rparr>],
     sfs_req = \<lparr>io_uio = sample_uio 0x80001000 UIO_SYSSPACE None 0 0 UIO_READ, io_mem = sample_mem\<rparr>,
     sfs_kmem = (\<lambda>n. Some (Suc n, free_lock))\<rparr>"

lemma length_sample_sect: "length (sample_sect b) = 512"
  by (simp add: sample_sect_def super_bytes_def sample_super_def length_inode_bytes sample_root_def sample_file_def
      sample_map_def dir_bytes_def sample_entry_def)

lemma sample_vol_simps [simp]:
  "block sample_vol = sample_sect" "sfs_super sample_vol = sample_super" "sp_nblocks sample_super = 16"
  "sfs_vn sample_vol = [0 \<mapsto> \<lparr>sv_ops = Dir_ops, sv_refcount = 1, sv_opencount = 0, sv_countlock = free_lock, sv_i = sample_root, sv_ino = 1, sv_dirty = False\<rparr>]"
  by (simp_all add: sample_vol_def sample_super_def)

lemma sample_vol_used: "used sample_vol = {..<8} \<union> {16..<4096}"
proof -
  have "bit_at sample_map i \<longleftrightarrow> i < 8 \<or> 16 \<le> i" if i: "i < 4096" for i
  proof -
    consider "i < 8" | "8 \<le> i" "i < 16" | "16 \<le> i" by linarith
    then show ?thesis
    proof cases
      case 2
      then have "i div 8 = 1" by (simp add: div_nat_eqI)
      then show ?thesis using 2 by (simp add: bit_at_def sample_map_def)
    next
      case 3
      then have "2 \<le> i div 8" "i div 8 < 512" using i div_le_mono [of 16 i 8] by simp_all
      then have "sample_map ! (i div 8) = - 1" by (simp add: sample_map_def nth_append)
      then show ?thesis using 3 by (simp add: bit_at_def)
    qed (simp add: bit_at_def sample_map_def)
  qed
  then show ?thesis by (auto simp: sample_vol_def marked_def)
qed

lemma sample_vol_space: "space_ok sample_vol"
proof -
  have "disk_ok (sfs_device sample_vol)" "lh_blocks (sfs_device sample_vol) = 16"
    using sample_disk_ok length_sample_sect by (simp_all add: sample_vol_def disk_ok_def sample_disk_def)
  moreover have "bitmap_inv (sfs_freemap sample_vol)" "bm_nbits (sfs_freemap sample_vol) = 4096"
    by (simp_all add: sample_vol_def bitmap_inv_def bitmap_words_def sample_map_def)
  ultimately show ?thesis using sample_vol_used unfolding space_ok_def by simp
qed

lemma vnodes_ok_single:
  assumes "sfs_vn s = [v \<mapsto> sv]" "length (sfi_direct (sv_i sv)) = 15" "distinct (file_blocks (block s) (sv_i sv))"
    "set (file_blocks (block s) (sv_i sv)) \<subseteq> used s \<inter> {..<sp_nblocks (sfs_super s)}"
    "sv_ino sv \<in> used s \<inter> {..<sp_nblocks (sfs_super s)}" "sv_ino sv \<notin> set (file_blocks (block s) (sv_i sv))"
  shows "vnodes_ok s"
proof -
  have vn: "sfs_vn s w = Some sw \<longleftrightarrow> w = v \<and> sw = sv" for w sw using assms(1) by auto
  show ?thesis unfolding vnodes_ok_def vn using assms(2-6) by simp
qed

lemma sample_vol_inv: "fs_inv sample_vol"
proof -
  have f: "file_blocks C sample_root = [4]" for C by (simp add: file_blocks_def indirect_blocks_def sample_root_def)
  have "vnodes_ok sample_vol"
    by (rule vnodes_ok_single [OF sample_vol_simps(4)]) (simp_all add: f, simp_all add: sample_vol_used sample_root_def)
  then show ?thesis using sample_vol_space by (simp add: fs_inv_def)
qed

lemma sample_vol_dir: "is_dir sample_vol 0 2" "dir_ents sample_vol 0 2 = [sample_entry, \<lparr>sfd_ino = 0, sfd_name = replicate 60 0\<rparr>]"
proof -
  show "is_dir sample_vol 0 2" using sample_vol_inv by (simp add: is_dir_def sample_root_def)
  have b: "block_at sample_sect sample_root 0 = 4" by (simp add: block_at_def sample_root_def)
  have "fbytes sample_vol 0 (0 * 512 + k) 64 = take 64 (drop k (sample_sect 4))" if "k + 64 \<le> 512" for k
    using fbytes_block [of sample_vol 0 _ k 64 4 0] that b length_sample_sect by simp
  from this [of 0] this [of 64]
  have "fbytes sample_vol 0 0 64 = dir_bytes sample_entry" "fbytes sample_vol 0 64 64 = replicate 64 0"
    by (simp_all add: sample_sect_def dir_bytes_def sample_entry_def)
  moreover have "dir_of_bytes (dir_bytes sample_entry) = sample_entry" by (rule dir_codec) (simp_all add: sample_entry_def)
  moreover have "dir_of_bytes (replicate 64 0) = \<lparr>sfd_ino = 0, sfd_name = replicate 60 0\<rparr>"
    by (simp add: dir_of_bytes_def dec32_def)
  ultimately show "dir_ents sample_vol 0 2 = [sample_entry, \<lparr>sfd_ino = 0, sfd_name = replicate 60 0\<rparr>]"
    by (simp add: dir_ents_def dir_entry_def upt_rec)
qed

lemma sample_name: "ent_name sample_entry = [97]"
  using ent_name_new [of "[97]" 3] by (simp add: sample_entry_def)

lemma sample_vol_good: "dir_good 0 sample_vol" "dir_table 0 sample_vol [97] = Some 3" "dir_table 0 sample_vol [98] = None"
proof -
  have "names_unique (dir_ents sample_vol 0 2)"
    unfolding names_unique_def sample_vol_dir(2) by (auto simp: matches_def nth_Cons' split: if_splits)
  from dir_goodI [OF sample_vol_dir(1) this]
  show "dir_good 0 sample_vol" "dir_table 0 sample_vol [97] = Some 3" "dir_table 0 sample_vol [98] = None"
    by (simp_all add: sample_vol_dir(2) dir_map_def matches_def sample_name) (simp_all add: sample_entry_def)
qed

text \<open>
  C25. \<^verbatim>\<open>sfs_dir_findname\<close> finds a name exactly when the directory has it, and hands back its inode number and a
  slot that holds an entry with that name and inode.  The empty slot it reports is one of the directory and really
  empty, and it reports none only when no slot is empty; searching changes nothing.
\<close>

theorem sfs_dir_findname_finds:
  assumes "dir_good v s"
  shows "\<exists>t f e. sfs_dir_findname v name s = Ret (f, e) t \<and> same_fs s t \<and>
     (case f of None \<Rightarrow> dir_table v s name = None
      | Some (ino, i) \<Rightarrow> dir_table v s name = Some ino \<and> 0 \<le> i \<and> i < int (dir_slots v s) \<and>
          sfd_ino (dir_entry s v (nat i)) = ino \<and> ent_name (dir_entry s v (nat i)) = name) \<and>
     (case e of None \<Rightarrow> \<forall>j<dir_slots v s. sfd_ino (dir_entry s v j) \<noteq> SFS_NOINO
      | Some j \<Rightarrow> 0 \<le> j \<and> j < int (dir_slots v s) \<and> sfd_ino (dir_entry s v (nat j)) = SFS_NOINO)"
proof -
  let ?es = "dir_ents s v (dir_slots v s)"
  obtain t f e where t: "sfs_dir_findname v name s = Ret (f, e) t" "same_fs s t" "scanned name ?es f e"
    using sfs_dir_findname_ok [OF assms] by blast
  have m: "map_option fst f = dir_table v s name"
    using scanned_map [OF _ t(3)] assms by (simp add: dir_good_def dir_table_def)
  have n: "?es ! nat i = dir_entry s v (nat i)" if "0 \<le> i" "i < int (dir_slots v s)" for i
    using that by (simp add: dir_ents_def)
  have "case f of None \<Rightarrow> dir_table v s name = None
      | Some (ino, i) \<Rightarrow> dir_table v s name = Some ino \<and> 0 \<le> i \<and> i < int (dir_slots v s) \<and>
          sfd_ino (dir_entry s v (nat i)) = ino \<and> ent_name (dir_entry s v (nat i)) = name"
    using t(3) m n by (auto simp: scanned_def matches_def dir_ents_def split: option.splits)
  moreover have "case e of None \<Rightarrow> \<forall>j<dir_slots v s. sfd_ino (dir_entry s v j) \<noteq> SFS_NOINO
      | Some j \<Rightarrow> 0 \<le> j \<and> j < int (dir_slots v s) \<and> sfd_ino (dir_entry s v (nat j)) = SFS_NOINO"
    using t(3) n by (auto simp: scanned_def dir_ents_def split: option.splits)
  ultimately show ?thesis using t(1,2) by blast
qed

theorem sfs_dir_findname_finds_witness:
  "\<exists>t i e. sfs_dir_findname 0 [97] sample_vol = Ret (Some (3, i), e) t \<and> ent_name (dir_entry sample_vol 0 (nat i)) = [97]"
  using sfs_dir_findname_finds [OF sample_vol_good(1), of "[97]"] sample_vol_good(2) by (auto split: option.splits)



text \<open>
  C7. Erasing the slot in which a name was found removes exactly that name: a search for it then
  fails, and every other name is still there.  When there is no space for the write the directory
  is unchanged.
\<close>

theorem sfs_dir_unlink_erases:
  assumes "dir_good v s" "sfs_dir_findname v name s = Ret (Some (ino, i), e) t"
  shows "case sfs_dir_unlink v i t of
      Ret _ u \<Rightarrow> dir_good v u \<and> dir_table v u = (dir_table v s)(name := None) \<and>
        (\<exists>e' u'. sfs_dir_findname v name u = Ret (None, e') u')
    | Err e u \<Rightarrow> e = ENOSPC \<and> dir_good v u \<and> dir_table v u = dir_table v s
    | _ \<Rightarrow> False"
proof -
  have t: "dir_good v t" "dir_table v t = dir_table v s" "\<exists>j < dir_slots v t. i = int j \<and> matches name (dir_entry t v j)"
    using sfs_names.find_ok [OF assms(1), of name] assms(2) by auto
  from sfs_names.unlink_ok [OF t(1,3)] show ?thesis
    using sfs_names.unlink_found [OF assms] t(2) by (elim disjE exE conjE) simp_all
qed

theorem sfs_dir_unlink_erases_witness:
  "\<exists>t i e. sfs_dir_findname 0 [97] sample_vol = Ret (Some (3, i), e) t \<and>
     (case sfs_dir_unlink 0 i t of Ret _ u \<Rightarrow> dir_table 0 u [97] = None | Err e u \<Rightarrow> e = ENOSPC | _ \<Rightarrow> False)"
proof -
  obtain t f e where t: "sfs_dir_findname 0 [97] sample_vol = Ret (f, e) t" "map_option fst f = Some 3"
    using sfs_names.find_ok [OF sample_vol_good(1), of "[97]"] sample_vol_good(2) by auto
  then obtain i where "f = Some (3, i)" by auto
  with t(1) have "sfs_dir_findname 0 [97] sample_vol = Ret (Some (3, i), e) t" by simp
  with sfs_dir_unlink_erases [OF sample_vol_good(1) this] show ?thesis
    by (intro exI [of _ t] exI [of _ i] exI [of _ e]) (auto split: outcome.splits)
qed

end
