(* ===== verification/Sfs_Vnode.thy ===== *)
theory Sfs_Vnode
  imports Sfs_Dir
begin

text \<open>
  The vnode layer of \<^verbatim>\<open>kern/fs/vfs/vnode.c\<close> as SFS uses it, and the vnode operations of
  \<^verbatim>\<open>kern/fs/sfs/sfs_vnode.c\<close>: loading and reclaiming vnodes, truncation, and the operations of the
  two tables \<^verbatim>\<open>sfs_fileops\<close> and \<^verbatim>\<open>sfs_dirops\<close>.  The model follows one request, made by a thread that has number 0.
  Messages of \<^verbatim>\<open>kprintf\<close> are left out.
\<close>

unbundle bit_operations_syntax

section \<open>Vnodes\<close>

text \<open>Error handling: \<open>h\<close> runs when \<open>m\<close> returns an error.\<close>

primrec on_err :: "('s, 'a) outcome \<Rightarrow> (errno \<Rightarrow> 's \<Rightarrow> ('s, 'a) outcome) \<Rightarrow> ('s, 'a) outcome" where
  "on_err (Ret x s) h = Ret x s"
| "on_err (Err e s) h = h e s"
| "on_err Panic h = Panic"
| "on_err Undef h = Undef"
| "on_err Sleeps h = Sleeps"

definition kfree_vn :: "vref \<Rightarrow> sfs \<Rightarrow> sfs" where
  "kfree_vn v s = s\<lparr>sfs_vn := (sfs_vn s)(v := None)\<rparr>"

text \<open>
  \<^verbatim>\<open>lock_acquire\<close> and \<^verbatim>\<open>lock_release\<close> on the \<^verbatim>\<open>vn_countlock\<close> of a vnode.  The assertion fails when \<^verbatim>\<open>pointer\<close>
  already names the running thread.  While \<^verbatim>\<open>held\<close> is set the thread sleeps; no thread that would release the lock runs
  meanwhile.  Raising the interrupt level and waking sleepers have no effect on a single thread.
\<close>

abbreviation self :: nat where "self \<equiv> 0"

definition countlock_acquire :: "vref \<Rightarrow> sfs \<Rightarrow> (sfs, unit) outcome" where
  "countlock_acquire v s = with_vn v s (\<lambda>sv.
     kassert (l_pointer (sv_countlock sv) \<noteq> Some self)
      (if l_held (sv_countlock sv) \<noteq> 0 then Sleeps
       else Ret () (upd_vn v (\<lambda>sv. sv\<lparr>sv_countlock := \<lparr>l_held = 1, l_pointer = Some self\<rparr>\<rparr>) s)))"

definition countlock_release :: "vref \<Rightarrow> sfs \<Rightarrow> (sfs, unit) outcome" where
  "countlock_release v s = with_vn v s (\<lambda>_. Ret () (upd_vn v (\<lambda>sv. sv\<lparr>sv_countlock := \<lparr>l_held = 0, l_pointer = None\<rparr>\<rparr>) s))"

text \<open>
  \<^verbatim>\<open>vnode_check\<close>; the vnode and its operations table exist, so that the checks for null and
  poisoned pointers pass.  A \<^verbatim>\<open>held\<close> other than 1 is taken for an uninitialised one and cleared.
\<close>

definition vnode_check :: "string \<Rightarrow> vref \<Rightarrow> sfs \<Rightarrow> (sfs, unit) outcome" where
  "vnode_check opstr v s = with_vn v s (\<lambda>sv.
     let s = (if l_held (sv_countlock sv) \<noteq> 1
              then upd_vn v (\<lambda>sv. sv\<lparr>sv_countlock := (sv_countlock sv)\<lparr>l_held := 0\<rparr>\<rparr>) s else s) in
     andthen (countlock_acquire v s)
      (\<lambda>_ s.
        if sv_refcount sv < 0 then Panic
        else if sv_refcount sv = 0 \<and> opstr \<noteq> ''reclaim'' then Panic
        else if sv_opencount sv < 0 then Panic
        else countlock_release v s))"

text \<open>
  \<^verbatim>\<open>vnode_init\<close>: \<^verbatim>\<open>lock_create\<close> allocates the lock and its name, and frees the first when the second
  allocation fails.  It does not initialise the lock, which keeps what its memory contains.
\<close>

definition vnode_init :: "vops \<Rightarrow> vref \<Rightarrow> sfs \<Rightarrow> (sfs, unit) outcome" where
  "vnode_init vnops v s = with_vn v s (\<lambda>_.
     let s = upd_vn v (\<lambda>sv. sv\<lparr>sv_ops := vnops, sv_refcount := 1, sv_opencount := 0\<rparr>) s in
     case kmalloc_next s of
       (None, s) \<Rightarrow> Err ENOMEM s
     | (Some (_, junk), s) \<Rightarrow>
         (case kmalloc_next s of
            (None, s) \<Rightarrow> Err ENOMEM s
          | (Some _, s) \<Rightarrow> Ret () (upd_vn v (\<lambda>sv. sv\<lparr>sv_countlock := junk\<rparr>) s)))"

text \<open>
  \<^verbatim>\<open>vnode_kill\<close>; the lock is destroyed.  Its callers free the structure next, so that the cleared pointers are
  not kept.
\<close>

definition vnode_kill :: "vref \<Rightarrow> sfs \<Rightarrow> (sfs, unit) outcome" where
  "vnode_kill v s = with_vn v s (\<lambda>sv.
     kassert (sv_refcount sv = 1)
      (kassert (sv_opencount sv = 0)
        (Ret () (upd_vn v (\<lambda>sv. sv\<lparr>sv_refcount := 0, sv_opencount := 0\<rparr>) s))))"

definition vnode_incref :: "vref \<Rightarrow> sfs \<Rightarrow> (sfs, unit) outcome" where
  "vnode_incref v s =
     andthen (countlock_acquire v s)
      (\<lambda>_ s. with_vn v s (\<lambda>sv.
        defined_if (sv_refcount sv < INT_MAX)
         (countlock_release v (upd_vn v (\<lambda>sv. sv\<lparr>sv_refcount := sv_refcount sv + 1\<rparr>) s))))"

definition vnode_incopen :: "vref \<Rightarrow> sfs \<Rightarrow> (sfs, unit) outcome" where
  "vnode_incopen v s =
     andthen (countlock_acquire v s)
      (\<lambda>_ s. with_vn v s (\<lambda>sv.
        defined_if (sv_opencount sv < INT_MAX)
         (countlock_release v (upd_vn v (\<lambda>sv. sv\<lparr>sv_opencount := sv_opencount sv + 1\<rparr>) s))))"

section \<open>Truncation\<close>

text \<open>\<^verbatim>\<open>DIVROUNDUP(len, SFS_BLOCKSIZE)\<close> on a signed \<^verbatim>\<open>off_t\<close>, assigned to an unsigned number.\<close>

definition trunc_blocks :: "int \<Rightarrow> nat" where
  "trunc_blocks len = nat (((len + 512 - 1) sdiv 512) mod 2 ^ 32)"

text \<open>The loop over the direct blocks, from block \<open>i\<close> on with \<open>k\<close> to go.\<close>

primrec truncate_direct :: "nat \<Rightarrow> nat \<Rightarrow> nat \<Rightarrow> vref \<Rightarrow> sfs \<Rightarrow> (sfs, unit) outcome" where
  "truncate_direct 0 i blocklen v s = Ret () s"
| "truncate_direct (Suc k) i blocklen v s = with_vn v s (\<lambda>sv.
     let block = sfi_direct (sv_i sv) ! i in
     andthen
      (if i \<ge> blocklen \<and> block \<noteq> 0 then
         andthen (sfs_bfree block s)
          (\<lambda>_ s. Ret () (upd_inode v (\<lambda>n. n\<lparr>sfi_direct := (sfi_direct n)[i := 0]\<rparr>) s))
       else Ret () s)
      (\<lambda>_ s. truncate_direct k (i + 1) blocklen v s))"

text \<open>
  The loop over the entries of the indirect block from entry \<open>j\<close> on: the entries it leaves, and
  the flags \<^verbatim>\<open>hasnonzero\<close> and \<^verbatim>\<open>iddirty\<close>.
\<close>

primrec truncate_indirect :: "nat list \<Rightarrow> nat \<Rightarrow> nat \<Rightarrow> sfs \<Rightarrow> (sfs, nat list \<times> bool \<times> bool) outcome" where
  "truncate_indirect [] j blocklen s = Ret ([], False, False) s"
| "truncate_indirect (b # bs) j blocklen s =
     andthen
      (if blocklen < SFS_NDIRECT + j \<and> b \<noteq> 0 then andthen (sfs_bfree b s) (\<lambda>_ s. Ret (0, True) s)
       else Ret (b, False) s)
      (\<lambda>(b', dirty) s.
        andthen (truncate_indirect bs (j + 1) blocklen s)
         (\<lambda>(bs', hasnonzero, iddirty) s. Ret (b' # bs', b' \<noteq> 0 \<or> hasnonzero, dirty \<or> iddirty) s))"

definition truncate_idblock :: "vref \<Rightarrow> nat \<Rightarrow> sfs \<Rightarrow> (sfs, unit) outcome" where
  "truncate_idblock v blocklen s = with_vn v s (\<lambda>sv.
     let idblock = sfi_indirect (sv_i sv); baseblock = SFS_NDIRECT;
         highblock = baseblock + SFS_DBPERIDB - 1
     in if blocklen < highblock \<and> idblock \<noteq> 0 then
          andthen (fs_rblock idblock s)
           (\<lambda>bs s. andthen (truncate_indirect (dec32s SFS_DBPERIDB bs) 0 blocklen s)
             (\<lambda>(idbuf, hasnonzero, iddirty) s.
               if \<not> hasnonzero then
                 andthen (sfs_bfree idblock s) (\<lambda>_ s. Ret () (upd_inode v (\<lambda>n. n\<lparr>sfi_indirect := 0\<rparr>) s))
               else if iddirty then fs_wblock (enc32s idbuf) idblock s
               else Ret () s))
        else Ret () s)"

definition sfs_truncate :: "vref \<Rightarrow> int \<Rightarrow> sfs \<Rightarrow> (sfs, unit) outcome" where
  "sfs_truncate v len s =
     defined_if (len + 512 \<le> INT_MAX)
      (let blocklen = trunc_blocks len in
       andthen (truncate_direct SFS_NDIRECT 0 blocklen v s)
        (\<lambda>_ s. andthen (truncate_idblock v blocklen s)
          (\<lambda>_ s. Ret () (upd_inode v (\<lambda>n. n\<lparr>sfi_size := nat (len mod 2 ^ 32)\<rparr>) s))))"

text \<open>\<^verbatim>\<open>VOP_TRUNCATE\<close>; the table of directories has \<^verbatim>\<open>ISDIR\<close> there.\<close>

definition vop_truncate :: "vref \<Rightarrow> int \<Rightarrow> sfs \<Rightarrow> (sfs, unit) outcome" where
  "vop_truncate v len s =
     andthen (vnode_check ''truncate'' v s)
      (\<lambda>_ s. with_vn v s (\<lambda>sv. case sv_ops sv of File_ops \<Rightarrow> sfs_truncate v len s | Dir_ops \<Rightarrow> Err EISDIR s))"

section \<open>Reclaiming and releasing\<close>

text \<open>Reading a cell of the vnode table; an uninitialised cell is undefined.\<close>

definition vnodes_get :: "int \<Rightarrow> sfs \<Rightarrow> (sfs, vref) outcome" where
  "vnodes_get i s =
     (case array_getguy (sfs_vnodes s) i of
        Ret (Some v) a \<Rightarrow> Ret v s | Ret None a \<Rightarrow> Undef | Err e a \<Rightarrow> Err e s | Panic \<Rightarrow> Panic | Undef \<Rightarrow> Undef | Sleeps \<Rightarrow> Sleeps)"

text \<open>The search of \<^verbatim>\<open>sfs_reclaim\<close>: the index of the vnode from cell \<open>i\<close> on with \<open>k\<close> to go.\<close>

primrec reclaim_find :: "nat \<Rightarrow> int \<Rightarrow> vref \<Rightarrow> sfs \<Rightarrow> (sfs, int option) outcome" where
  "reclaim_find 0 i v s = Ret None s"
| "reclaim_find (Suc k) i v s =
     andthen (vnodes_get i s) (\<lambda>sv2 s. if sv2 = v then Ret (Some i) s else reclaim_find k (i + 1) v s)"

text \<open>The last part of \<^verbatim>\<open>sfs_reclaim\<close>: out of the table, and free.\<close>

definition drop_vnode :: "vref \<Rightarrow> sfs \<Rightarrow> (sfs, unit) outcome" where
  "drop_vnode v s =
     andthen (reclaim_find (nat (array_getnum (sfs_vnodes s))) 0 v s)
      (\<lambda>ix s. case ix of None \<Rightarrow> Panic
       | Some ix \<Rightarrow>
           andthen (within (\<lambda>a. s\<lparr>sfs_vnodes := a\<rparr>) (array_remove (sfs_vnodes s) ix))
            (\<lambda>_ s. andthen (vnode_kill v s) (\<lambda>_ s. Ret () (kfree_vn v s))))"

text \<open>The part of \<^verbatim>\<open>sfs_reclaim\<close> after it has made sure that nobody else uses the vnode.\<close>

definition reclaim_unused :: "vref \<Rightarrow> sfs \<Rightarrow> (sfs, unit) outcome" where
  "reclaim_unused v s = with_vn v s (\<lambda>sv.
     andthen (if sfi_linkcount (sv_i sv) = 0 then vop_truncate v 0 s else Ret () s)
      (\<lambda>_ s. andthen (sfs_sync_inode v s)
        (\<lambda>_ s. with_vn v s (\<lambda>sv.
          andthen (if sfi_linkcount (sv_i sv) = 0 then sfs_bfree (sv_ino sv) s else Ret () s)
           (\<lambda>_ s. drop_vnode v s)))))"

definition sfs_reclaim :: "vref \<Rightarrow> sfs \<Rightarrow> (sfs, unit) outcome" where
  "sfs_reclaim v s =
     andthen (countlock_acquire v s)
      (\<lambda>_ s. with_vn v s (\<lambda>sv.
        if sv_refcount sv \<noteq> 1 then
          kassert (sv_refcount sv > 1)
           (andthen (countlock_release v (upd_vn v (\<lambda>sv. sv\<lparr>sv_refcount := sv_refcount sv - 1\<rparr>) s)) (\<lambda>_ s. Err EBUSY s))
        else andthen (countlock_release v s) (\<lambda>_ s. reclaim_unused v s)))"

text \<open>Both tables have \<^verbatim>\<open>sfs_reclaim\<close>.\<close>

definition vop_reclaim :: "vref \<Rightarrow> sfs \<Rightarrow> (sfs, unit) outcome" where
  "vop_reclaim v s = andthen (vnode_check ''reclaim'' v s) (\<lambda>_ s. sfs_reclaim v s)"

definition vnode_decref :: "vref \<Rightarrow> sfs \<Rightarrow> (sfs, unit) outcome" where
  "vnode_decref v s =
     andthen (countlock_acquire v s)
      (\<lambda>_ s. with_vn v s (\<lambda>sv.
        kassert (sv_refcount sv > 0)
         (if sv_refcount sv > 1
          then countlock_release v (upd_vn v (\<lambda>sv. sv\<lparr>sv_refcount := sv_refcount sv - 1\<rparr>) s)
          else andthen (countlock_release v s) (\<lambda>_ s. on_err (vop_reclaim v s) (\<lambda>_ s. Ret () s)))))"

section \<open>Loading\<close>

text \<open>The search of \<^verbatim>\<open>sfs_loadvnode\<close> in the table of loaded vnodes.\<close>

primrec load_scan :: "nat \<Rightarrow> int \<Rightarrow> nat \<Rightarrow> sfs \<Rightarrow> (sfs, vref option) outcome" where
  "load_scan 0 i ino s = Ret None s"
| "load_scan (Suc k) i ino s =
     andthen (vnodes_get i s)
      (\<lambda>v s. with_vn v s (\<lambda>sv.
        andthen (sfs_bused (sv_ino sv) s)
         (\<lambda>u s. if \<not> u then Panic
           else if sv_ino sv = ino then Ret (Some v) s
           else load_scan k (i + 1) ino s)))"

text \<open>
  \<^verbatim>\<open>kmalloc\<close> of a vnode structure at address \<open>v\<close>; every field is set before it is first read, so that
  the contents given here do not matter.
\<close>

definition new_vnode :: "vref \<Rightarrow> sfs \<Rightarrow> sfs" where
  "new_vnode v s = s\<lparr>sfs_vn := (sfs_vn s)(v \<mapsto>
     \<lparr>sv_ops = File_ops, sv_refcount = 0, sv_opencount = 0, sv_countlock = free_lock,
      sv_i = \<lparr>sfi_size = 0, sfi_type = 0, sfi_linkcount = 0, sfi_direct = replicate SFS_NDIRECT 0, sfi_indirect = 0,
              sfi_waste = replicate 440 0\<rparr>,
      sv_ino = 0, sv_dirty = False\<rparr>)\<rparr>"

text \<open>\<^verbatim>\<open>array_add\<close> on the vnode table; it allocates only when the table is full.\<close>

definition vnodes_add :: "vref \<Rightarrow> sfs \<Rightarrow> (sfs, unit) outcome" where
  "vnodes_add v s =
     (let (ok, s) = (if a_num (sfs_vnodes s) + 1 > a_max (sfs_vnodes s)
                     then (case kmalloc_next s of (r, s) \<Rightarrow> (r \<noteq> None, s)) else (True, s))
      in within (\<lambda>a. s\<lparr>sfs_vnodes := a\<rparr>) (array_add ok (sfs_vnodes s) v))"

text \<open>The end of \<^verbatim>\<open>sfs_loadvnode\<close>: the abstract vnode, the inode number and the entry in the table.\<close>

definition load_install :: "nat \<Rightarrow> vops \<Rightarrow> vref \<Rightarrow> sfs \<Rightarrow> (sfs, vref) outcome" where
  "load_install ino vnops v s =
     andthen (on_err (vnode_init vnops v s) (\<lambda>e s. Err e (kfree_vn v s)))
      (\<lambda>_ s.
        let s = upd_vn v (\<lambda>sv. sv\<lparr>sv_ino := ino\<rparr>) s in
        andthen
         (on_err (vnodes_add v s)
           (\<lambda>e s. andthen (vnode_kill v s) (\<lambda>_ s. Err e (kfree_vn v s))))
         (\<lambda>_ s. Ret v s))"

text \<open>The part of \<^verbatim>\<open>sfs_loadvnode\<close> for an inode that is not loaded.\<close>

definition load_new :: "nat \<Rightarrow> nat \<Rightarrow> sfs \<Rightarrow> (sfs, vref) outcome" where
  "load_new ino forcetype s =
     (case kmalloc_next s of
        (None, s) \<Rightarrow> Err ENOMEM s
      | (Some (v, _), s) \<Rightarrow>
          let s = new_vnode v s in
          andthen (sfs_bused ino s)
           (\<lambda>u s. if \<not> u then Panic else
             andthen (on_err (fs_rblock ino s) (\<lambda>e s. Err e (kfree_vn v s)))
              (\<lambda>bs s.
                let s = upd_vn v (\<lambda>sv. sv\<lparr>sv_i := inode_of_bytes bs, sv_dirty := False\<rparr>) s in
                andthen
                 (if forcetype \<noteq> SFS_TYPE_INVAL then
                    kassert (sfi_type (inode_of_bytes bs) = SFS_TYPE_INVAL)
                     (Ret forcetype (upd_inode v (\<lambda>i. i\<lparr>sfi_type := forcetype\<rparr>) s))
                  else Ret (sfi_type (inode_of_bytes bs)) s)
                 (\<lambda>type s.
                   if type \<noteq> SFS_TYPE_FILE \<and> type \<noteq> SFS_TYPE_DIR then Panic
                   else load_install ino (if type = SFS_TYPE_FILE then File_ops else Dir_ops) v s))))"

definition sfs_loadvnode :: "nat \<Rightarrow> nat \<Rightarrow> sfs \<Rightarrow> (sfs, vref) outcome" where
  "sfs_loadvnode ino forcetype s =
     andthen (load_scan (nat (array_getnum (sfs_vnodes s))) 0 ino s)
      (\<lambda>r s. case r of
         Some v \<Rightarrow> kassert (forcetype = SFS_TYPE_INVAL) (andthen (vnode_incref v s) (\<lambda>_ s. Ret v s))
       | None \<Rightarrow> load_new ino forcetype s)"

definition sfs_getroot :: "sfs \<Rightarrow> (sfs, vref) outcome" where
  "sfs_getroot s = on_err (sfs_loadvnode SFS_ROOT_LOCATION SFS_TYPE_INVAL s) (\<lambda>_ _. Panic)"

text \<open>The result of \<^verbatim>\<open>sfs_lookonce\<close> is the vnode and the slot of its entry.\<close>

definition sfs_lookonce :: "vref \<Rightarrow> u8 list \<Rightarrow> sfs \<Rightarrow> (sfs, vref \<times> int) outcome" where
  "sfs_lookonce v name s =
     andthen (sfs_dir_findname v name s)
      (\<lambda>(found, _) s. case found of None \<Rightarrow> Err ENOENT s
       | Some (ino, slot) \<Rightarrow>
           andthen (sfs_loadvnode ino SFS_TYPE_INVAL s)
            (\<lambda>f s. with_vn f s (\<lambda>fv. if sfi_linkcount (sv_i fv) = 0 then Panic else Ret (f, slot) s)))"

definition sfs_makeobj :: "nat \<Rightarrow> sfs \<Rightarrow> (sfs, vref) outcome" where
  "sfs_makeobj type s = andthen (sfs_balloc s) (\<lambda>ino s. sfs_loadvnode ino type s)"

section \<open>Operations on files\<close>

abbreviation O_ACCMODE :: nat where "O_ACCMODE \<equiv> 3"
abbreviation O_RDONLY :: nat where "O_RDONLY \<equiv> 0"
abbreviation O_APPEND :: nat where "O_APPEND \<equiv> 32"
abbreviation S_IFREG :: nat where "S_IFREG \<equiv> 4096"
abbreviation S_IFDIR :: nat where "S_IFDIR \<equiv> 8192"

definition sfs_open :: "vref \<Rightarrow> nat \<Rightarrow> sfs \<Rightarrow> (sfs, unit) outcome" where
  "sfs_open v openflags s = (if openflags AND O_APPEND \<noteq> 0 then Err EUNIMP s else Ret () s)"

definition sfs_opendir :: "vref \<Rightarrow> nat \<Rightarrow> sfs \<Rightarrow> (sfs, unit) outcome" where
  "sfs_opendir v openflags s =
     (if openflags AND O_ACCMODE \<noteq> O_RDONLY then Err EISDIR s
      else if openflags AND O_APPEND \<noteq> 0 then Err EISDIR s
      else Ret () s)"

definition sfs_fsync :: "vref \<Rightarrow> sfs \<Rightarrow> (sfs, unit) outcome" where
  "sfs_fsync v s = sfs_sync_inode v s"

text \<open>Both tables have \<^verbatim>\<open>sfs_fsync\<close>.\<close>

definition vop_fsync :: "vref \<Rightarrow> sfs \<Rightarrow> (sfs, unit) outcome" where
  "vop_fsync v s = andthen (vnode_check ''fsync'' v s) (\<lambda>_ s. sfs_fsync v s)"

definition sfs_close :: "vref \<Rightarrow> sfs \<Rightarrow> (sfs, unit) outcome" where
  "sfs_close v s = vop_fsync v s"

text \<open>Both tables have \<^verbatim>\<open>sfs_close\<close>; \<^verbatim>\<open>vnode_decopen\<close> calls it on the last close.\<close>

definition vop_close :: "vref \<Rightarrow> sfs \<Rightarrow> (sfs, unit) outcome" where
  "vop_close v s = andthen (vnode_check ''close'' v s) (\<lambda>_ s. sfs_close v s)"

definition vnode_decopen :: "vref \<Rightarrow> sfs \<Rightarrow> (sfs, unit) outcome" where
  "vnode_decopen v s =
     andthen (countlock_acquire v s)
      (\<lambda>_ s. with_vn v s (\<lambda>sv.
        kassert (sv_opencount sv > 0)
         (let opencount = sv_opencount sv - 1 in
          andthen (countlock_release v (upd_vn v (\<lambda>sv. sv\<lparr>sv_opencount := opencount\<rparr>) s))
           (\<lambda>_ s. if opencount > 0 then Ret () s else on_err (vop_close v s) (\<lambda>_ s. Ret () s)))))"

definition sfs_read :: "vref \<Rightarrow> sfs \<Rightarrow> (sfs, unit) outcome" where
  "sfs_read v s = kassert (uio_rw (req_uio s) = UIO_READ) (sfs_io v s)"

definition sfs_write :: "vref \<Rightarrow> sfs \<Rightarrow> (sfs, unit) outcome" where
  "sfs_write v s = kassert (uio_rw (req_uio s) = UIO_WRITE) (sfs_io v s)"

definition sfs_ioctl :: "vref \<Rightarrow> sfs \<Rightarrow> (sfs, unit) outcome" where
  "sfs_ioctl v s = Err EINVAL s"

definition sfs_gettype :: "vref \<Rightarrow> sfs \<Rightarrow> (sfs, nat) outcome" where
  "sfs_gettype v s = with_vn v s (\<lambda>sv.
     if sfi_type (sv_i sv) = SFS_TYPE_FILE then Ret S_IFREG s
     else if sfi_type (sv_i sv) = SFS_TYPE_DIR then Ret S_IFDIR s
     else Panic)"

definition vop_gettype :: "vref \<Rightarrow> sfs \<Rightarrow> (sfs, nat) outcome" where
  "vop_gettype v s = andthen (vnode_check ''gettype'' v s) (\<lambda>_ s. sfs_gettype v s)"

record stat =
  st_mode :: nat
  st_nlink :: nat
  st_size :: int
  st_blocks :: nat

definition sfs_stat :: "vref \<Rightarrow> sfs \<Rightarrow> (sfs, stat) outcome" where
  "sfs_stat v s =
     andthen (vop_gettype v s)
      (\<lambda>mode s. with_vn v s (\<lambda>sv.
        Ret \<lparr>st_mode = mode, st_nlink = 0, st_size = off_wrap (int (sfi_size (sv_i sv))), st_blocks = 0\<rparr> s))"

definition sfs_tryseek :: "vref \<Rightarrow> int \<Rightarrow> sfs \<Rightarrow> (sfs, unit) outcome" where
  "sfs_tryseek v pos s = (if pos < 0 then Err EINVAL s else Ret () s)"

definition sfs_mmap :: "vref \<Rightarrow> sfs \<Rightarrow> (sfs, unit) outcome" where
  "sfs_mmap v s = Err EUNIMP s"

section \<open>Operations on directories\<close>

definition sfs_namefile :: "vref \<Rightarrow> sfs \<Rightarrow> (sfs, unit) outcome" where
  "sfs_namefile v s = with_vn v s (\<lambda>sv. kassert (sv_ino sv = SFS_ROOT_LOCATION) (Ret () s))"

text \<open>\<^verbatim>\<open>sfi_linkcount\<close> is an unsigned 16-bit number.\<close>

definition link_inc :: "sfs_inode \<Rightarrow> sfs_inode" where
  "link_inc i = i\<lparr>sfi_linkcount := (sfi_linkcount i + 1) mod 2 ^ 16\<rparr>"

definition link_dec :: "sfs_inode \<Rightarrow> sfs_inode" where
  "link_dec i = i\<lparr>sfi_linkcount := (sfi_linkcount i + 2 ^ 16 - 1) mod 2 ^ 16\<rparr>"

definition sfs_creat :: "vref \<Rightarrow> u8 list \<Rightarrow> bool \<Rightarrow> sfs \<Rightarrow> (sfs, vref) outcome" where
  "sfs_creat v name excl s =
     andthen (sfs_dir_findname v name s)
      (\<lambda>(found, _) s. case found of
         Some (ino, _) \<Rightarrow> if excl then Err EEXIST s else sfs_loadvnode ino SFS_TYPE_INVAL s
       | None \<Rightarrow>
           andthen (sfs_makeobj SFS_TYPE_FILE s)
            (\<lambda>newguy s. with_vn newguy s (\<lambda>nv.
              andthen
               (on_err (sfs_dir_link v name (sv_ino nv) s)
                 (\<lambda>e s. andthen (vnode_decref newguy s) (\<lambda>_ s. Err e s)))
               (\<lambda>_ s. Ret newguy (upd_inode newguy link_inc s)))))"

definition sfs_link :: "vref \<Rightarrow> u8 list \<Rightarrow> vref \<Rightarrow> sfs \<Rightarrow> (sfs, unit) outcome" where
  "sfs_link dir name file s = with_vn file s (\<lambda>f.
     andthen (sfs_dir_link dir name (sv_ino f) s) (\<lambda>_ s. Ret () (upd_inode file link_inc s)))"

definition sfs_remove :: "vref \<Rightarrow> u8 list \<Rightarrow> sfs \<Rightarrow> (sfs, unit) outcome" where
  "sfs_remove dir name s =
     andthen (sfs_lookonce dir name s)
      (\<lambda>(victim, slot) s.
        case sfs_dir_unlink dir slot s of
          Ret _ s \<Rightarrow> with_vn victim s (\<lambda>vv.
            kassert (sfi_linkcount (sv_i vv) > 0) (vnode_decref victim (upd_inode victim link_dec s)))
        | Err e s \<Rightarrow> andthen (vnode_decref victim s) (\<lambda>_ s. Err e s)
        | Panic \<Rightarrow> Panic | Undef \<Rightarrow> Undef | Sleeps \<Rightarrow> Sleeps)"

text \<open>
  \<^verbatim>\<open>sfs_rename\<close>.  The labels \<^verbatim>\<open>puke\<close> and \<^verbatim>\<open>puke_harder\<close> are the error handlers; the second does
  not mark the inode dirty.
\<close>

definition sfs_rename :: "vref \<Rightarrow> u8 list \<Rightarrow> vref \<Rightarrow> u8 list \<Rightarrow> sfs \<Rightarrow> (sfs, unit) outcome" where
  "sfs_rename d1 n1 d2 n2 s = with_vn d1 s (\<lambda>dv.
     kassert (d1 = d2) (kassert (sv_ino dv = SFS_ROOT_LOCATION)
      (andthen (sfs_lookonce d1 n1 s)
        (\<lambda>(g1, slot1) s. with_vn g1 s (\<lambda>gv.
          let puke = (\<lambda>e s. andthen (vnode_decref g1 s) (\<lambda>_ s. Err e s)) in
          kassert (sfi_type (sv_i gv) = SFS_TYPE_FILE)
           (case sfs_dir_link d1 n2 (sv_ino gv) s of
              Err e s \<Rightarrow> puke e s
            | Ret slot2 s \<Rightarrow>
                let s = upd_inode g1 link_inc s in
                (case sfs_dir_unlink d1 slot1 s of
                   Err e s \<Rightarrow>
                     (case sfs_dir_unlink d1 slot2 s of
                        Ret _ s \<Rightarrow> puke e (upd_vn g1 (\<lambda>sv. sv\<lparr>sv_i := link_dec (sv_i sv)\<rparr>) s)
                      | Err _ _ \<Rightarrow> Panic | Panic \<Rightarrow> Panic | Undef \<Rightarrow> Undef | Sleeps \<Rightarrow> Sleeps)
                 | Ret _ s \<Rightarrow> with_vn g1 s (\<lambda>gv.
                     kassert (sfi_linkcount (sv_i gv) > 0) (vnode_decref g1 (upd_inode g1 link_dec s)))
                 | Panic \<Rightarrow> Panic | Undef \<Rightarrow> Undef | Sleeps \<Rightarrow> Sleeps)
            | Panic \<Rightarrow> Panic | Undef \<Rightarrow> Undef | Sleeps \<Rightarrow> Sleeps))))))"

text \<open>The result of \<^verbatim>\<open>sfs_lookparent\<close> is the directory and the string copied to the buffer.\<close>

definition sfs_lookparent :: "vref \<Rightarrow> u8 list \<Rightarrow> nat \<Rightarrow> sfs \<Rightarrow> (sfs, vref \<times> u8 list) outcome" where
  "sfs_lookparent v path buflen s = with_vn v s (\<lambda>sv.
     if sfi_type (sv_i sv) \<noteq> SFS_TYPE_DIR then Err ENOTDIR s
     else if length path + 1 > buflen then Err ENAMETOOLONG s
     else andthen (vnode_incref v s) (\<lambda>_ s. Ret (v, path) s))"

definition sfs_lookup :: "vref \<Rightarrow> u8 list \<Rightarrow> sfs \<Rightarrow> (sfs, vref) outcome" where
  "sfs_lookup v path s = with_vn v s (\<lambda>sv.
     if sfi_type (sv_i sv) \<noteq> SFS_TYPE_DIR then Err ENOTDIR s
     else andthen (sfs_lookonce v path s) (\<lambda>(final, _) s. Ret final s))"

section \<open>The tables\<close>

text \<open>A call of a vnode operation with its arguments, and what it hands back.\<close>

datatype vop =
    Open nat | Close | Reclaim | Read | Readlink | Getdirentry | Write | Ioctl | Stat | Gettype | Tryseek int
  | Fsync | Mmap | Truncate int | Namefile | Creat "u8 list" bool | Symlink | Mkdir | Link "u8 list" vref
  | Remove "u8 list" | Rmdir | Rename "u8 list" vref "u8 list" | Lookup "u8 list" | Lookparent "u8 list" nat

datatype vret = Done | Type nat | Statbuf stat | Vnode vref | Parent vref "u8 list"

abbreviation gives :: "('a \<Rightarrow> vret) \<Rightarrow> (sfs, 'a) outcome \<Rightarrow> (sfs, vret) outcome" where
  "gives f \<equiv> map_outcome id f"

definition sfs_fileops :: "vop \<Rightarrow> vref \<Rightarrow> sfs \<Rightarrow> (sfs, vret) outcome" where
  "sfs_fileops op v s =
     (case op of
        Open flags \<Rightarrow> gives (\<lambda>_. Done) (sfs_open v flags s)
      | Close \<Rightarrow> gives (\<lambda>_. Done) (sfs_close v s)
      | Reclaim \<Rightarrow> gives (\<lambda>_. Done) (sfs_reclaim v s)
      | Read \<Rightarrow> gives (\<lambda>_. Done) (sfs_read v s)
      | Write \<Rightarrow> gives (\<lambda>_. Done) (sfs_write v s)
      | Ioctl \<Rightarrow> gives (\<lambda>_. Done) (sfs_ioctl v s)
      | Stat \<Rightarrow> gives Statbuf (sfs_stat v s)
      | Gettype \<Rightarrow> gives Type (sfs_gettype v s)
      | Tryseek pos \<Rightarrow> gives (\<lambda>_. Done) (sfs_tryseek v pos s)
      | Fsync \<Rightarrow> gives (\<lambda>_. Done) (sfs_fsync v s)
      | Mmap \<Rightarrow> gives (\<lambda>_. Done) (sfs_mmap v s)
      | Truncate len \<Rightarrow> gives (\<lambda>_. Done) (sfs_truncate v len s)
      | _ \<Rightarrow> Err ENOTDIR s)"

definition sfs_dirops :: "vop \<Rightarrow> vref \<Rightarrow> sfs \<Rightarrow> (sfs, vret) outcome" where
  "sfs_dirops op v s =
     (case op of
        Open flags \<Rightarrow> gives (\<lambda>_. Done) (sfs_opendir v flags s)
      | Close \<Rightarrow> gives (\<lambda>_. Done) (sfs_close v s)
      | Reclaim \<Rightarrow> gives (\<lambda>_. Done) (sfs_reclaim v s)
      | Read \<Rightarrow> Err EISDIR s
      | Readlink \<Rightarrow> Err EISDIR s
      | Getdirentry \<Rightarrow> Err EUNIMP s
      | Write \<Rightarrow> Err EISDIR s
      | Ioctl \<Rightarrow> gives (\<lambda>_. Done) (sfs_ioctl v s)
      | Stat \<Rightarrow> gives Statbuf (sfs_stat v s)
      | Gettype \<Rightarrow> gives Type (sfs_gettype v s)
      | Tryseek pos \<Rightarrow> Err EUNIMP s
      | Fsync \<Rightarrow> gives (\<lambda>_. Done) (sfs_fsync v s)
      | Mmap \<Rightarrow> Err EISDIR s
      | Truncate len \<Rightarrow> Err EISDIR s
      | Namefile \<Rightarrow> gives (\<lambda>_. Done) (sfs_namefile v s)
      | Creat name excl \<Rightarrow> gives Vnode (sfs_creat v name excl s)
      | Symlink \<Rightarrow> Err EUNIMP s
      | Mkdir \<Rightarrow> Err EUNIMP s
      | Link name file \<Rightarrow> gives (\<lambda>_. Done) (sfs_link v name file s)
      | Remove name \<Rightarrow> gives (\<lambda>_. Done) (sfs_remove v name s)
      | Rmdir \<Rightarrow> Err EUNIMP s
      | Rename n1 d2 n2 \<Rightarrow> gives (\<lambda>_. Done) (sfs_rename v n1 d2 n2 s)
      | Lookup path \<Rightarrow> gives Vnode (sfs_lookup v path s)
      | Lookparent path buflen \<Rightarrow> gives (\<lambda>(d, p). Parent d p) (sfs_lookparent v path buflen s))"

text \<open>\<^verbatim>\<open>VOP_...\<close>: the check, and the call through the table of the vnode.\<close>

definition VOP :: "vop \<Rightarrow> vref \<Rightarrow> sfs \<Rightarrow> (sfs, vret) outcome" where
  "VOP op v s =
     andthen (vnode_check (if op = Reclaim then ''reclaim'' else '''') v s)
      (\<lambda>_ s. with_vn v s (\<lambda>sv. case sv_ops sv of File_ops \<Rightarrow> sfs_fileops op v s | Dir_ops \<Rightarrow> sfs_dirops op v s))"

end
