(* ===== verification/Sfs_Fs.thy ===== *)
theory Sfs_Fs
  imports Sfs_Vnode
begin

text \<open>
  The file-system level operations of SFS, \<^verbatim>\<open>kern/fs/sfs/sfs_fs.c\<close>: reading and writing the free
  map, sync, unmount and mount.
\<close>

section \<open>The model\<close>

abbreviation SFS_SB_LOCATION :: nat where "SFS_SB_LOCATION \<equiv> 0"
abbreviation SFS_BLOCKBITS :: nat where "SFS_BLOCKBITS \<equiv> 4096"

text \<open>\<^verbatim>\<open>SFS_BITMAPSIZE\<close> and \<^verbatim>\<open>SFS_BITBLOCKS\<close>, in unsigned 32-bit arithmetic.\<close>

definition SFS_BITMAPSIZE :: "nat \<Rightarrow> nat" where
  "SFS_BITMAPSIZE nblocks = ((nblocks + SFS_BLOCKBITS - 1) mod 2 ^ 32) div SFS_BLOCKBITS * SFS_BLOCKBITS"

definition SFS_BITBLOCKS :: "nat \<Rightarrow> nat" where
  "SFS_BITBLOCKS nblocks = SFS_BITMAPSIZE nblocks div SFS_BLOCKBITS"

text \<open>The loop of \<^verbatim>\<open>sfs_mapio\<close> from sector \<open>j\<close> of the map on with \<open>k\<close> to go.\<close>

primrec mapio_loop :: "nat \<Rightarrow> nat \<Rightarrow> uio_rw \<Rightarrow> sfs \<Rightarrow> (sfs, unit) outcome" where
  "mapio_loop 0 j rw s = Ret () s"
| "mapio_loop (Suc k) j rw s =
     (let bitdata = bitmap_getdata (sfs_freemap s); ptr = j * SFS_BLOCKSIZE in
      defined_if (ptr + SFS_BLOCKSIZE \<le> length bitdata)
       (andthen
         (if rw = UIO_READ then
            andthen (fs_rblock (SFS_MAP_LOCATION + j) s)
             (\<lambda>bs s. Ret () (s\<lparr>sfs_freemap := (sfs_freemap s)\<lparr>bm_v :=
                take ptr bitdata @ bs @ drop (ptr + SFS_BLOCKSIZE) bitdata\<rparr>\<rparr>))
          else fs_wblock (take SFS_BLOCKSIZE (drop ptr bitdata)) (SFS_MAP_LOCATION + j) s)
         (\<lambda>_ s. mapio_loop k (j + 1) rw s)))"

definition sfs_mapio :: "uio_rw \<Rightarrow> sfs \<Rightarrow> (sfs, unit) outcome" where
  "sfs_mapio rw s = mapio_loop (SFS_BITBLOCKS (sp_nblocks (sfs_super s))) 0 rw s"

text \<open>The loop of \<^verbatim>\<open>sfs_sync\<close> over the loaded vnodes; the results of \<^verbatim>\<open>VOP_FSYNC\<close> are not looked at.\<close>

primrec sync_loop :: "nat \<Rightarrow> int \<Rightarrow> sfs \<Rightarrow> (sfs, unit) outcome" where
  "sync_loop 0 i s = Ret () s"
| "sync_loop (Suc k) i s =
     andthen (vnodes_get i s)
      (\<lambda>v s. andthen (on_err (vop_fsync v s) (\<lambda>_ s. Ret () s)) (\<lambda>_ s. sync_loop k (i + 1) s))"

definition sfs_sync :: "sfs \<Rightarrow> (sfs, unit) outcome" where
  "sfs_sync s =
     andthen (sync_loop (nat (array_getnum (sfs_vnodes s))) 0 s)
      (\<lambda>_ s. andthen
        (if sfs_freemapdirty s then
           andthen (sfs_mapio UIO_WRITE s) (\<lambda>_ s. Ret () (s\<lparr>sfs_freemapdirty := False\<rparr>))
         else Ret () s)
        (\<lambda>_ s.
          if sfs_superdirty s then
            andthen (fs_wblock (super_bytes (sfs_super s)) SFS_SB_LOCATION s)
             (\<lambda>_ s. Ret () (s\<lparr>sfs_superdirty := False\<rparr>))
          else Ret () s))"

definition sfs_getvolname :: "sfs \<Rightarrow> u8 list" where
  "sfs_getvolname s = cstr (sp_volname (sfs_super s))"

text \<open>\<^verbatim>\<open>sfs_unmount\<close>; on success the file system and its tables have been freed.\<close>

definition sfs_unmount :: "sfs \<Rightarrow> (sfs, unit) outcome" where
  "sfs_unmount s =
     (if array_getnum (sfs_vnodes s) > 0 then Err EBUSY s
      else kassert (\<not> sfs_superdirty s) (kassert (\<not> sfs_freemapdirty s) (Ret () s)))"

text \<open>
  \<^verbatim>\<open>sfs_domount\<close>: \<open>mem\<close> gives the results of the \<^verbatim>\<open>kmalloc\<close> calls, in order those of the file system,
  the vnode table, the bitmap and its data; \<open>r\<close> is the (unused) request of the new file system.  On
  errors everything allocated is freed again and only the device is left.
\<close>

definition sfs_domount :: "nat \<Rightarrow> lhd \<Rightarrow> io_state \<Rightarrow> (nat \<Rightarrow> (vref \<times> lock) option) \<Rightarrow> (lhd, sfs) outcome" where
  "sfs_domount blocksize dev r mem =
     (if blocksize \<noteq> SFS_BLOCKSIZE then Err ENXIO dev
      else if mem 0 = None then Err ENOMEM dev
      else (case array_create (mem 1 \<noteq> None) of None \<Rightarrow> Err ENOMEM dev
       | Some vnodes \<Rightarrow>
           andthen (sfs_rblock SFS_SB_LOCATION dev)
            (\<lambda>bs dev.
              let super = super_of_bytes bs in
              if sp_magic super \<noteq> SFS_MAGIC then Err EINVAL dev
              else
                let super = super\<lparr>sp_volname := (sp_volname super)[31 := 0]\<rparr> in
                (case bitmap_create (mem 2 \<noteq> None) (mem 3 \<noteq> None) (SFS_BITMAPSIZE (sp_nblocks super)) of
                   Ret (Some fm) _ \<Rightarrow>
                     (case sfs_mapio UIO_READ
                          \<lparr>sfs_device = dev, sfs_super = super, sfs_superdirty = False, sfs_freemap = fm,
                           sfs_freemapdirty = False, sfs_vnodes = vnodes, sfs_vn = Map.empty, sfs_req = r,
                           sfs_kmem = (\<lambda>n. mem (n + 4))\<rparr> of
                        Ret _ s \<Rightarrow> Ret s (sfs_device s)
                      | Err e s \<Rightarrow> Err e (sfs_device s) | Panic \<Rightarrow> Panic | Undef \<Rightarrow> Undef | Sleeps \<Rightarrow> Sleeps)
                 | Ret None _ \<Rightarrow> Err ENOMEM dev
                 | Err _ _ \<Rightarrow> Undef | Panic \<Rightarrow> Panic | Undef \<Rightarrow> Undef | Sleeps \<Rightarrow> Sleeps))))"

end
