(* ===== verification/Sfs_Truncate.thy ===== *)
theory Sfs_Truncate
  imports Sfs_Vnode
begin

text \<open>
  Correctness of \<^verbatim>\<open>sfs_truncate\<close> and of reclaiming a vnode: which blocks a truncated file keeps,
  that exactly the others become free, and that a file without links disappears completely.
\<close>

section \<open>Freeing blocks\<close>

text \<open>The entries of an array of block numbers that satisfy \<open>P\<close> on their index; the others are zeroed.\<close>

primrec masked :: "(nat \<Rightarrow> bool) \<Rightarrow> nat \<Rightarrow> nat list \<Rightarrow> nat list" where
  "masked P k [] = []"
| "masked P k (x # xs) = (if P k then x else 0) # masked P (Suc k) xs"

primrec dropped :: "(nat \<Rightarrow> bool) \<Rightarrow> nat \<Rightarrow> nat list \<Rightarrow> nat set" where
  "dropped P k [] = {}"
| "dropped P k (x # xs) = (if \<not> P k \<and> x \<noteq> 0 then {x} else {}) \<union> dropped P (Suc k) xs"

abbreviation nonzero :: "nat list \<Rightarrow> nat list" where
  "nonzero xs \<equiv> filter (\<lambda>b. b \<noteq> 0) xs"

lemma length_masked [simp]: "length (masked P k xs) = length xs"
  by (induction xs arbitrary: k) simp_all

lemma nth_masked: "i < length xs \<Longrightarrow> masked P k xs ! i = (if P (k + i) then xs ! i else 0)"
proof (induction xs arbitrary: k i)
  case (Cons x xs)
  then show ?case by (cases i) simp_all
qed simp

lemma masked_subset: "mset (nonzero (masked P k xs)) \<subseteq># mset (nonzero xs)"
proof (induction xs arbitrary: k)
  case (Cons x xs)
  then show ?case using subset_mset.order_trans [OF Cons.IH [of "Suc k"]] by simp
qed simp

lemma mset_subset_distinct: "mset xs \<subseteq># mset ys \<Longrightarrow> distinct ys \<Longrightarrow> distinct xs"
  by (metis distinct_append mset_append mset_eq_imp_distinct_iff ex_mset subset_mset.le_iff_add)

lemma dropped_eq:
  "distinct (nonzero xs) \<Longrightarrow> dropped P k xs = set (nonzero xs) - set (nonzero (masked P k xs))"
proof (induction xs arbitrary: k)
  case (Cons x xs)
  have "set (nonzero (masked P (Suc k) xs)) \<subseteq> set (nonzero xs)"
    using masked_subset [of P "Suc k" xs] by (metis set_mset_mono set_mset_mset)
  then show ?case using Cons by auto
qed simp

text \<open>\<open>F\<close> has been freed and the vnodes are now \<open>vn\<close>; nothing else has changed.\<close>

definition freed :: "nat set \<Rightarrow> (vref \<Rightarrow> sfs_vnode option) \<Rightarrow> sfs \<Rightarrow> sfs \<Rightarrow> bool" where
  "freed F vn s s' \<longleftrightarrow> (\<exists>fm d. s' = s\<lparr>sfs_freemap := fm, sfs_freemapdirty := d, sfs_vn := vn\<rparr> \<and>
     marked fm = used s - F \<and> space_ok s')"

lemma freed_refl: "space_ok s \<Longrightarrow> freed {} (sfs_vn s) s s"
  unfolding freed_def by (intro exI [of _ "sfs_freemap s"] exI [of _ "sfs_freemapdirty s"]) simp

lemma freed_trans:
  assumes "freed F vn s s1" "freed G vn' s1 s2"
  shows "freed (F \<union> G) vn' s s2"
proof -
  obtain fm d where 1: "s1 = s\<lparr>sfs_freemap := fm, sfs_freemapdirty := d, sfs_vn := vn\<rparr>" "marked fm = used s - F"
    using assms(1) unfolding freed_def by blast
  obtain fm' d' where 2: "s2 = s1\<lparr>sfs_freemap := fm', sfs_freemapdirty := d', sfs_vn := vn'\<rparr>"
      "marked fm' = used s1 - G" "space_ok s2"
    using assms(2) unfolding freed_def by blast
  have "marked fm' = used s - (F \<union> G)" using 1(2) unfolding 2(2) 1(1) by auto
  then show ?thesis unfolding freed_def using 1(1) 2(1,3) by (intro exI [of _ fm'] exI [of _ d']) simp
qed

lemma freed_simps:
  assumes "freed F vn s s'"
  shows "sfs_device s' = sfs_device s" "sfs_super s' = sfs_super s" "sfs_vn s' = vn" "used s' = used s - F"
    "space_ok s'" "sfs_req s' = sfs_req s" "sfs_vnodes s' = sfs_vnodes s" "sfs_kmem s' = sfs_kmem s"
    "sfs_superdirty s' = sfs_superdirty s"
  using assms unfolding freed_def by (elim exE conjE; simp)+

lemma bfree_freed:
  assumes "space_ok s" "b \<in> used s" "b \<noteq> 0" "b < sp_nblocks (sfs_super s)"
  shows "\<exists>s'. sfs_bfree b s = Ret () s' \<and> freed {b} (sfs_vn s) s s'"
proof -
  obtain fm where "sfs_bfree b s = Ret () (s\<lparr>sfs_freemap := fm, sfs_freemapdirty := True\<rparr>)" "marked fm = used s - {b}"
      "space_ok (s\<lparr>sfs_freemap := fm, sfs_freemapdirty := True\<rparr>)"
    using sfs_bfree_ok [OF assms] by blast
  then show ?thesis by (intro exI conjI) (auto simp: freed_def)
qed

lemma space_ok_vn [simp]: "space_ok (s\<lparr>sfs_vn := vn\<rparr>) = space_ok s"
  by (simp add: space_ok_def)

lemma freed_vn:
  assumes "freed F vn s s'"
  shows "freed F vn' s (s'\<lparr>sfs_vn := vn'\<rparr>)"
proof -
  obtain fm d where "s' = s\<lparr>sfs_freemap := fm, sfs_freemapdirty := d, sfs_vn := vn\<rparr>" "marked fm = used s - F" "space_ok s'"
    using assms unfolding freed_def by blast
  then show ?thesis unfolding freed_def by (intro exI [of _ fm] exI [of _ d]) simp
qed

lemma freed_upd:
  assumes "freed F vn s s'" "vn v = Some sv"
  shows "freed F (vn(v \<mapsto> sv\<lparr>sv_i := f (sv_i sv), sv_dirty := True\<rparr>)) s (upd_inode v f s')"
proof -
  have "upd_inode v f s' = s'\<lparr>sfs_vn := vn(v \<mapsto> sv\<lparr>sv_i := f (sv_i sv), sv_dirty := True\<rparr>)\<rparr>"
    using assms freed_simps(3) [OF assms(1)] by (simp add: upd_inode_def upd_vn_def)
  then show ?thesis using freed_vn [OF assms(1)] by simp
qed

section \<open>The loops\<close>

lemma truncate_indirect_ok:
  assumes "space_ok s" "distinct (nonzero bs)" "set (nonzero bs) \<subseteq> used s \<inter> {..<sp_nblocks (sfs_super s)}"
  shows "\<exists>s'. truncate_indirect bs j bl s = Ret (masked (\<lambda>j. SFS_NDIRECT + j \<le> bl) j bs,
             \<exists>b\<in>set (masked (\<lambda>j. SFS_NDIRECT + j \<le> bl) j bs). b \<noteq> 0, masked (\<lambda>j. SFS_NDIRECT + j \<le> bl) j bs \<noteq> bs) s' \<and>
           freed (dropped (\<lambda>j. SFS_NDIRECT + j \<le> bl) j bs) (sfs_vn s) s s'"
  using assms
proof (induction bs arbitrary: j s)
  case Nil
  then show ?case by (simp add: freed_refl)
next
  case (Cons b bs)
  let ?P = "\<lambda>j. SFS_NDIRECT + j \<le> bl"
  show ?case
  proof (cases "bl < SFS_NDIRECT + j \<and> b \<noteq> 0")
    case True
    obtain s1 where s1: "sfs_bfree b s = Ret () s1" "freed {b} (sfs_vn s) s s1"
      using bfree_freed [OF Cons.prems(1), of b] Cons.prems(3) True by auto
    note f = freed_simps [OF s1(2)]
    have "set (nonzero bs) \<subseteq> used s1 \<inter> {..<sp_nblocks (sfs_super s1)}"
      using Cons.prems(2,3) True f(2,4) by auto
    then obtain s2 where s2: "truncate_indirect bs (j + 1) bl s1 = Ret (masked ?P (j + 1) bs, \<exists>b\<in>set (masked ?P (j + 1) bs). b \<noteq> 0, masked ?P (j + 1) bs \<noteq> bs) s2"
        "freed (dropped ?P (j + 1) bs) (sfs_vn s1) s1 s2"
      using Cons.IH [OF f(5), of "j + 1"] Cons.prems(2) True by auto
    then show ?thesis using s1(1) True freed_trans [OF s1(2) s2(2)] f(3) by auto
  next
    case False
    obtain s2 where s2: "truncate_indirect bs (j + 1) bl s = Ret (masked ?P (j + 1) bs, \<exists>b\<in>set (masked ?P (j + 1) bs). b \<noteq> 0, masked ?P (j + 1) bs \<noteq> bs) s2"
        "freed (dropped ?P (j + 1) bs) (sfs_vn s) s s2"
      using Cons.IH [OF Cons.prems(1), of "j + 1"] Cons.prems(2,3) by (auto split: if_splits)
    then show ?thesis using False by auto
  qed
qed
lemma truncate_direct_ok:
  assumes "space_ok s" "sfs_vn s v = Some sv" "length (sfi_direct (sv_i sv)) = 15" "i + k = 15"
    and "distinct (nonzero (drop i (sfi_direct (sv_i sv))))"
    and "set (nonzero (drop i (sfi_direct (sv_i sv)))) \<subseteq> used s \<inter> {..<sp_nblocks (sfs_super s)}"
  shows "\<exists>s' dirty. truncate_direct k i bl v s = Ret () s' \<and>
           freed (dropped (\<lambda>fb. fb < bl) i (drop i (sfi_direct (sv_i sv))))
             ((sfs_vn s)(v \<mapsto> sv\<lparr>sv_i := (sv_i sv)\<lparr>sfi_direct :=
                take i (sfi_direct (sv_i sv)) @ masked (\<lambda>fb. fb < bl) i (drop i (sfi_direct (sv_i sv)))\<rparr>, sv_dirty := dirty\<rparr>)) s s'"
  using assms
proof (induction k arbitrary: i s sv)
  case 0
  then have vn: "(sfs_vn s)(v \<mapsto> sv) = sfs_vn s" by auto
  have "sv\<lparr>sv_i := (sv_i sv)\<lparr>sfi_direct := sfi_direct (sv_i sv)\<rparr>, sv_dirty := sv_dirty sv\<rparr> = sv" by simp
  then show ?case using 0 freed_refl [of s] vn by (intro exI [of _ s] exI [of _ "sv_dirty sv"]) simp
next
  case (Suc k)
  let ?d = "sfi_direct (sv_i sv)" and ?P = "\<lambda>fb. fb < bl"
  have i: "i < 15" using Suc.prems(4) by simp
  have dr: "drop i ?d = ?d ! i # drop (Suc i) ?d" using i Suc.prems(3) by (simp add: Cons_nth_drop_Suc)
  have tk: "take (Suc i) ?d = take i ?d @ [?d ! i]" using i Suc.prems(3) by (simp add: take_Suc_conv_app_nth)
  show ?case
  proof (cases "bl \<le> i \<and> ?d ! i \<noteq> 0")
    case True
    let ?f = "\<lambda>n. n\<lparr>sfi_direct := (sfi_direct n)[i := 0]\<rparr>"
    obtain s1 where s1: "sfs_bfree (?d ! i) s = Ret () s1" "freed {?d ! i} (sfs_vn s) s s1"
      using bfree_freed [OF Suc.prems(1), of "?d ! i"] Suc.prems(6) True dr by auto
    let ?sv = "sv\<lparr>sv_i := ?f (sv_i sv), sv_dirty := True\<rparr>"
    have f2: "freed {?d ! i} ((sfs_vn s)(v \<mapsto> ?sv)) s (upd_inode v ?f s1)" by (rule freed_upd [OF s1(2) Suc.prems(2)])
    note f = freed_simps [OF f2]
    have dr': "drop (Suc i) (sfi_direct (sv_i ?sv)) = drop (Suc i) ?d" "take (Suc i) (sfi_direct (sv_i ?sv)) = take i ?d @ [0]"
      using i Suc.prems(3) by (simp_all add: take_list_update_Suc)
    have p1: "sfs_vn (upd_inode v ?f s1) v = Some ?sv" "length (sfi_direct (sv_i ?sv)) = 15" "Suc i + k = 15"
      using f(3) Suc.prems(3,4) by simp_all
    have p2: "distinct (nonzero (drop (Suc i) ?d))"
      "set (nonzero (drop (Suc i) ?d)) \<subseteq> used (upd_inode v ?f s1) \<inter> {..<sp_nblocks (sfs_super (upd_inode v ?f s1))}"
      using Suc.prems(5,6) True unfolding dr f(2,4) by auto
    obtain s2 dirty where s2: "truncate_direct k (Suc i) bl v (upd_inode v ?f s1) = Ret () s2"
        "freed (dropped ?P (Suc i) (drop (Suc i) ?d)) ((sfs_vn (upd_inode v ?f s1))(v \<mapsto> ?sv\<lparr>sv_i := (sv_i ?sv)\<lparr>sfi_direct :=
           (take i ?d @ [0]) @ masked ?P (Suc i) (drop (Suc i) ?d)\<rparr>, sv_dirty := dirty\<rparr>)) (upd_inode v ?f s1) s2"
      using Suc.IH [OF f(5) p1, unfolded dr', OF p2] by blast
    have "truncate_direct (Suc k) i bl v s = Ret () s2" using Suc.prems(2) True s1(1) s2(1) by (simp add: with_vn_def)
    moreover have "freed (dropped ?P i (drop i ?d)) ((sfs_vn s)(v \<mapsto> sv\<lparr>sv_i := (sv_i sv)\<lparr>sfi_direct :=
        take i ?d @ masked ?P i (drop i ?d)\<rparr>, sv_dirty := dirty\<rparr>)) s s2"
      using freed_trans [OF f2 s2(2)] f(3) True dr by simp
    ultimately show ?thesis by blast
  next
    case False
    have p: "Suc i + k = 15" "distinct (nonzero (drop (Suc i) ?d))"
      "set (nonzero (drop (Suc i) ?d)) \<subseteq> used s \<inter> {..<sp_nblocks (sfs_super s)}"
      using Suc.prems(4-6) unfolding dr by (auto split: if_splits)
    obtain s2 dirty where s2: "truncate_direct k (Suc i) bl v s = Ret () s2"
        "freed (dropped ?P (Suc i) (drop (Suc i) ?d)) ((sfs_vn s)(v \<mapsto> sv\<lparr>sv_i := (sv_i sv)\<lparr>sfi_direct :=
           (take i ?d @ [?d ! i]) @ masked ?P (Suc i) (drop (Suc i) ?d)\<rparr>, sv_dirty := dirty\<rparr>)) s s2"
      using Suc.IH [OF Suc.prems(1-3) p] unfolding tk by blast
    have "truncate_direct (Suc k) i bl v s = Ret () s2" using Suc.prems(2) False s2(1) by (auto simp: with_vn_def Let_def)
    moreover have "masked ?P i (drop i ?d) = ?d ! i # masked ?P (Suc i) (drop (Suc i) ?d)"
      "dropped ?P i (drop i ?d) = dropped ?P (Suc i) (drop (Suc i) ?d)" using False dr by auto
    then have "freed (dropped ?P i (drop i ?d)) ((sfs_vn s)(v \<mapsto> sv\<lparr>sv_i := (sv_i sv)\<lparr>sfi_direct :=
        take i ?d @ masked ?P i (drop i ?d)\<rparr>, sv_dirty := dirty\<rparr>)) s s2" using s2(2) by simp
    ultimately show ?thesis by blast
  qed
qed

section \<open>Consistency when a file shrinks\<close>

lemma vnodes_ok_shrink:
  assumes inv: "fs_inv s" and v: "sfs_vn s v = Some sv"
    and s': "sfs_vn s' = (sfs_vn s)(v \<mapsto> sv')" "sfs_super s' = sfs_super s"
      "used s' = used s - (set (file_blocks (block s) (sv_i sv)) - set (file_blocks (block s') (sv_i sv')))"
    and sv': "sv_ino sv' = sv_ino sv" "length (sfi_direct (sv_i sv')) = 15" "distinct (file_blocks (block s') (sv_i sv'))"
      "set (file_blocks (block s') (sv_i sv')) \<subseteq> set (file_blocks (block s) (sv_i sv))"
    and oth: "\<And>w sw. w \<noteq> v \<Longrightarrow> sfs_vn s w = Some sw \<Longrightarrow>
      file_blocks (block s') (sv_i sw) = file_blocks (block s) (sv_i sw)"
  shows "vnodes_ok s'"
proof -
  note fv = fs_inv_vnode [OF inv] and fo = fs_inv_other [OF inv]
  let ?F = "\<lambda>s i. set (file_blocks (block s) i)"
  have key: "\<exists>sw0. sfs_vn s w = Some sw0 \<and> sv_ino sw = sv_ino sw0 \<and> ?F s' (sv_i sw) \<subseteq> ?F s (sv_i sw0) \<and>
      ?F s' (sv_i sw) \<subseteq> used s' \<and> length (sfi_direct (sv_i sw)) = 15 \<and> distinct (file_blocks (block s') (sv_i sw))"
    if w: "sfs_vn s' w = Some sw" for w sw
  proof (cases "w = v")
    case True
    then have "sw = sv'" using w s'(1) by simp
    moreover have "?F s' (sv_i sv') \<subseteq> used s'" using s'(3) sv'(4) fv(3) [OF v] by blast
    ultimately show ?thesis using True v sv' by simp
  next
    case False
    then have sw: "sfs_vn s w = Some sw" using w s'(1) by simp
    have "?F s (sv_i sw) \<subseteq> used s'" using fo(1) [OF v sw] False fv(3) [OF sw] s'(3) by blast
    with False oth [OF False sw] fv [OF sw] sw show ?thesis by simp
  qed
  show ?thesis
    unfolding vnodes_ok_def s'(2)
  proof (intro conjI allI impI)
    fix w sw assume w: "sfs_vn s' w = Some sw"
    obtain sw0 where k: "sfs_vn s w = Some sw0" "sv_ino sw = sv_ino sw0" "?F s' (sv_i sw) \<subseteq> ?F s (sv_i sw0)"
      "?F s' (sv_i sw) \<subseteq> used s'" "length (sfi_direct (sv_i sw)) = 15" "distinct (file_blocks (block s') (sv_i sw))"
      using key [OF w] by blast
    show "length (sfi_direct (sv_i sw)) = SFS_NDIRECT" "distinct (file_blocks (block s') (sv_i sw))" using k by simp_all
    show "?F s' (sv_i sw) \<subseteq> used s' \<inter> {..<sp_nblocks (sfs_super s)}" using fv(3) [OF k(1)] k(3,4) by blast
    show "sv_ino sw \<in> used s' \<inter> {..<sp_nblocks (sfs_super s)}"
      using fv(4) [OF k(1)] fo(3) [OF k(1) v] k(2) s'(3) by simp
  next
    fix a b sa sb assume ab: "a \<noteq> b" "sfs_vn s' a = Some sa" "sfs_vn s' b = Some sb"
    obtain sa0 where a: "sfs_vn s a = Some sa0" "sv_ino sa = sv_ino sa0" "?F s' (sv_i sa) \<subseteq> ?F s (sv_i sa0)"
      using key [OF ab(2)] by blast
    obtain sb0 where b: "sfs_vn s b = Some sb0" "sv_ino sb = sv_ino sb0" "?F s' (sv_i sb) \<subseteq> ?F s (sv_i sb0)"
      using key [OF ab(3)] by blast
    show "?F s' (sv_i sa) \<inter> ?F s' (sv_i sb) = {}" using fo(1) [OF a(1) b(1) ab(1)] a(3) b(3) by blast
    show "sv_ino sa \<noteq> sv_ino sb" using fo(2) [OF a(1) b(1) ab(1)] a(2) b(2) by simp
  next
    fix a b sa sb assume ab: "sfs_vn s' a = Some sa" "sfs_vn s' b = Some sb"
    obtain sa0 where a: "sfs_vn s a = Some sa0" "sv_ino sa = sv_ino sa0" using key [OF ab(1)] by blast
    obtain sb0 where b: "sfs_vn s b = Some sb0" "?F s' (sv_i sb) \<subseteq> ?F s (sv_i sb0)" using key [OF ab(2)] by blast
    show "sv_ino sa \<notin> ?F s' (sv_i sb)" using fo(3) [OF a(1) b(1)] a(2) b(2) by auto
  qed
qed

section \<open>Truncation\<close>

text \<open>The block of a file that truncation to \<open>bl\<close> blocks keeps.\<close>

definition trunc_keeps :: "nat \<Rightarrow> nat \<Rightarrow> bool" where
  "trunc_keeps bl fb \<longleftrightarrow> (if fb < SFS_NDIRECT then fb < bl else fb \<le> bl)"

text \<open>What truncation does to the inode and its indirect block.\<close>

definition truncated :: "nat \<Rightarrow> (nat \<Rightarrow> u8 list) \<Rightarrow> sfs_inode \<Rightarrow> (nat \<Rightarrow> u8 list) \<Rightarrow> sfs_inode \<Rightarrow> bool" where
  "truncated bl C i C' i' \<longleftrightarrow>
     sfi_direct i' = masked (\<lambda>fb. fb < bl) 0 (sfi_direct i) \<and>
     (let ids = dec32s SFS_DBPERIDB (C (sfi_indirect i)); ids' = masked (\<lambda>j. SFS_NDIRECT + j \<le> bl) 0 ids in
      if sfi_indirect i = 0 then sfi_indirect i' = 0 \<and> C' = C
      else if bl < 142 \<and> nonzero ids' = [] then sfi_indirect i' = 0 \<and> C' = C
      else sfi_indirect i' = sfi_indirect i \<and> dec32s SFS_DBPERIDB (C' (sfi_indirect i)) = ids' \<and>
        (\<forall>b. b \<noteq> sfi_indirect i \<longrightarrow> C' b = C b))"

lemma masked_all: "(\<And>i. i < length xs \<Longrightarrow> P (k + i)) \<Longrightarrow> masked P k xs = xs"
  by (rule nth_equalityI) (simp_all add: nth_masked)

lemma truncated_block_at:
  assumes t: "truncated bl C i C' i'" and "length (sfi_direct i) = 15" "fb < MAXBLOCKS"
  shows "block_at C' i' fb = (if trunc_keeps bl fb then block_at C i fb else 0)"
proof (cases "fb < 15")
  case True
  then show ?thesis using assms by (simp add: truncated_def block_at_def nth_masked trunc_keeps_def)
next
  case False
  let ?ids = "dec32s 128 (C (sfi_indirect i))"
  let ?ids' = "masked (\<lambda>j. 15 + j \<le> bl) 0 ?ids"
  have j: "fb - 15 < 128" using False assms(3) by simp
  have n: "?ids' ! (fb - 15) = (if fb \<le> bl then ?ids ! (fb - 15) else 0)" using j False by (simp add: nth_masked)
  have z: "?ids' ! (fb - 15) = 0" if "nonzero ?ids' = []"
    using that j nth_mem [of "fb - 15" ?ids'] by (auto simp: filter_empty_conv)
  show ?thesis using t False n z by (auto simp: truncated_def block_at_def trunc_keeps_def Let_def split: if_splits)
qed

lemma truncated_file_blocks:
  assumes t: "truncated bl C i C' i'" and d: "distinct (file_blocks C i)"
  shows "mset (file_blocks C' i') \<subseteq># mset (file_blocks C i)" "bl = 0 \<Longrightarrow> file_blocks C' i' = []"
proof -
  let ?ids = "dec32s 128 (C (sfi_indirect i))"
  let ?ids' = "masked (\<lambda>j. 15 + j \<le> bl) 0 ?ids"
  have 1: "mset (nonzero (sfi_direct i')) \<subseteq># mset (nonzero (sfi_direct i))"
    using t masked_subset by (simp add: truncated_def)
  have "mset (indirect_blocks C' i') \<subseteq># mset (indirect_blocks C i)"
    using t masked_subset [of "\<lambda>j. 15 + j \<le> bl" 0 ?ids]
    by (auto simp: truncated_def indirect_blocks_def Let_def split: if_splits)
  with 1 show "mset (file_blocks C' i') \<subseteq># mset (file_blocks C i)"
    unfolding file_blocks_def mset_append by (rule subset_mset.add_mono)
  have z: "nonzero (masked (\<lambda>j. False) k xs) = []" for k xs by (induction xs arbitrary: k) simp_all
  show "file_blocks C' i' = []" if "bl = 0"
    using t that z by (auto simp: truncated_def file_blocks_def indirect_blocks_def Let_def split: if_splits)
qed

text \<open>A state that differs from \<open>s\<close> in one vnode, the blocks \<open>F\<close> that are now free, and the disk.\<close>

definition trimmed :: "vref \<Rightarrow> sfs_vnode \<Rightarrow> nat set \<Rightarrow> sfs \<Rightarrow> sfs \<Rightarrow> bool" where
  "trimmed v sv' F s s' \<longleftrightarrow> space_ok s' \<and> used s' = used s - F \<and> sfs_vn s' = (sfs_vn s)(v \<mapsto> sv') \<and>
     sfs_super s' = sfs_super s \<and> sfs_superdirty s' = sfs_superdirty s \<and> sfs_req s' = sfs_req s \<and>
     sfs_vnodes s' = sfs_vnodes s \<and> sfs_kmem s' = sfs_kmem s"

lemma freed_trimmed: "freed F ((sfs_vn s)(v \<mapsto> sv')) s s' \<Longrightarrow> trimmed v sv' F s s'"
  unfolding trimmed_def using freed_simps by metis

lemma truncate_idblock_ok:
  assumes sp: "space_ok s" and v: "sfs_vn s v = Some sv"
    and d: "distinct (indirect_blocks (block s) (sv_i sv))"
    and u: "set (indirect_blocks (block s) (sv_i sv)) \<subseteq> used s \<inter> {..<sp_nblocks (sfs_super s)}"
  shows "\<exists>s' sv' i'. truncate_idblock v bl s = Ret () s' \<and>
           trimmed v sv' (set (indirect_blocks (block s) (sv_i sv)) - set (indirect_blocks (block s') (sv_i sv'))) s s' \<and>
           sv_i sv' = (sv_i sv)\<lparr>sfi_indirect := i'\<rparr> \<and> sv_ops sv' = sv_ops sv \<and> sv_refcount sv' = sv_refcount sv \<and>
           sv_opencount sv' = sv_opencount sv \<and> sv_ino sv' = sv_ino sv \<and>
           (let ids = dec32s SFS_DBPERIDB (block s (sfi_indirect (sv_i sv))); ids' = masked (\<lambda>j. SFS_NDIRECT + j \<le> bl) 0 ids in
            if sfi_indirect (sv_i sv) = 0 then i' = 0 \<and> block s' = block s
            else if bl < 142 \<and> nonzero ids' = [] then i' = 0 \<and> block s' = block s
            else i' = sfi_indirect (sv_i sv) \<and> dec32s SFS_DBPERIDB (block s' i') = ids' \<and> (\<forall>b. b \<noteq> i' \<longrightarrow> block s' b = block s b))"
proof (cases "bl < 142 \<and> sfi_indirect (sv_i sv) \<noteq> 0")
  case False
  let ?ids = "dec32s 128 (block s (sfi_indirect (sv_i sv)))"
  have "masked (\<lambda>j. 15 + j \<le> bl) 0 ?ids = ?ids" if "142 \<le> bl" using that by (intro masked_all) simp
  moreover have "truncate_idblock v bl s = Ret () s" using False v by (auto simp: truncate_idblock_def with_vn_def Let_def)
  moreover have "trimmed v sv {} s s" using sp v by (auto simp: trimmed_def)
  ultimately show ?thesis using False
    by (intro exI [of _ s] exI [of _ sv] exI [of _ "sfi_indirect (sv_i sv)"]) (auto simp: Let_def)
next
  case True
  let ?id = "sfi_indirect (sv_i sv)"
  let ?ids = "dec32s 128 (block s ?id)"
  let ?ids' = "masked (\<lambda>j. 15 + j \<le> bl) 0 ?ids"
  have ib: "indirect_blocks (block s) (sv_i sv) = ?id # nonzero ?ids" using True by (simp add: indirect_blocks_def)
  have id: "?id \<noteq> 0" "?id \<in> used s" "?id < sp_nblocks (sfs_super s)" "?id \<notin> set (nonzero ?ids)" "distinct (nonzero ?ids)"
    using True d u unfolding ib by auto
  obtain dd where dd: "fs_rblock ?id s = Ret (block s ?id) (s\<lparr>sfs_device := dd\<rparr>)" "disk_ok dd" "lh_sect dd = block s"
      "lh_blocks dd = lh_blocks (sfs_device s)" using fs_rblock_ok [OF sp id(3)] by blast
  let ?s2 = "s\<lparr>sfs_device := dd\<rparr>"
  have sp2: "space_ok ?s2" using sp dd by (simp add: space_ok_def)
  obtain s3 where s3: "truncate_indirect ?ids 0 bl ?s2 = Ret (?ids', \<exists>b\<in>set ?ids'. b \<noteq> 0, ?ids' \<noteq> ?ids) s3"
      "freed (set (nonzero ?ids) - set (nonzero ?ids')) (sfs_vn s) ?s2 s3"
    using truncate_indirect_ok [OF sp2 id(5), of 0 bl] u dropped_eq [OF id(5), of _ 0] unfolding ib by auto
  note f3 = freed_simps [OF s3(2)]
  have b3: "block s3 = block s" using f3(1) dd(3) by simp
  have sub: "set (nonzero ?ids') \<subseteq> set (nonzero ?ids)"
    using masked_subset by (metis set_mset_mono set_mset_mset)
  have t: "truncate_idblock v bl s =
      (if \<not> (\<exists>b\<in>set ?ids'. b \<noteq> 0) then
         andthen (sfs_bfree ?id s3) (\<lambda>_ s. Ret () (upd_inode v (\<lambda>n. n\<lparr>sfi_indirect := 0\<rparr>) s))
       else if ?ids' \<noteq> ?ids then fs_wblock (enc32s ?ids') ?id s3 else Ret () s3)"
    using v True dd(1) s3(1) by (simp add: truncate_idblock_def with_vn_def Let_def)
  have vn3: "sfs_vn s3 = (sfs_vn s)(v \<mapsto> sv)" using f3(3) v by auto
  consider (none) "nonzero ?ids' = []" | (dirty) "nonzero ?ids' \<noteq> []" "?ids' \<noteq> ?ids" | (clean) "nonzero ?ids' \<noteq> []" "?ids' = ?ids" by blast
  then show ?thesis
  proof cases
    case none
    then have n: "\<not> (\<exists>b\<in>set ?ids'. b \<noteq> 0)" by (auto simp: filter_empty_conv)
    obtain s4 where s4: "sfs_bfree ?id s3 = Ret () s4" "freed {?id} (sfs_vn s3) s3 s4"
      using bfree_freed [OF f3(5), of ?id] id f3(2,4) by auto
    let ?sv = "sv\<lparr>sv_i := (sv_i sv)\<lparr>sfi_indirect := 0\<rparr>, sv_dirty := True\<rparr>"
    define t4 where "t4 = upd_inode v (\<lambda>n. n\<lparr>sfi_indirect := 0\<rparr>) s4"
    have "freed {?id} ((sfs_vn s3)(v \<mapsto> ?sv)) s3 t4"
      using freed_upd [OF s4(2), of v sv "\<lambda>n. n\<lparr>sfi_indirect := 0\<rparr>"] vn3 by (simp add: t4_def)
    note g = freed_simps [OF freed_trans [OF s3(2) this]]
    have U: "(set (nonzero ?ids) - set (nonzero ?ids')) \<union> {?id} = set (?id # nonzero ?ids)" unfolding none by auto
    have "trimmed v ?sv (set (?id # nonzero ?ids)) s t4" "block t4 = block s"
      using g vn3 dd(3) unfolding trimmed_def U by simp_all
    moreover have "truncate_idblock v bl s = Ret () t4" using t n s4(1) by (simp add: t4_def)
    ultimately show ?thesis unfolding ib using none True
      by (intro exI [of _ t4] exI [of _ ?sv] exI [of _ 0]) (simp add: indirect_blocks_def Let_def)
  next
    case dirty
    then have n: "\<exists>b\<in>set ?ids'. b \<noteq> 0" by (auto simp: filter_empty_conv)
    obtain dw where dw: "fs_wblock (enc32s ?ids') ?id s3 = Ret () (s3\<lparr>sfs_device := dw\<rparr>)" "disk_ok dw"
        "lh_sect dw = (block s)(?id := enc32s ?ids')" "lh_blocks dw = lh_blocks (sfs_device s3)"
      using fs_wblock_ok [OF f3(5), of ?id "enc32s ?ids'"] id(3) f3(2) b3 by auto
    have "x < 2 ^ 32" if "x \<in> set ?ids'" for x
      using that sub dec32s_less [of x 128 "block s ?id"] by (cases "x = 0") auto
    then have dec: "dec32s 128 (enc32s ?ids') = ?ids'" using dec32s_enc32s [of ?ids' "[]"] by simp
    have "trimmed v sv (set (?id # nonzero ?ids) - set (?id # nonzero ?ids')) s (s3\<lparr>sfs_device := dw\<rparr>)"
      using f3 dw vn3 id(4) sub unfolding trimmed_def by (auto simp: space_ok_def)
    moreover have "truncate_idblock v bl s = Ret () (s3\<lparr>sfs_device := dw\<rparr>)"
      unfolding t if_not_P [of "\<not> (\<exists>b\<in>set ?ids'. b \<noteq> 0)", unfolded not_not, OF n] if_P [OF dirty(2)] by (rule dw(1))
    ultimately show ?thesis unfolding ib using dirty dw(3) dec True
      by (intro exI [of _ "s3\<lparr>sfs_device := dw\<rparr>"] exI [of _ sv] exI [of _ ?id]) (simp add: indirect_blocks_def Let_def)
  next
    case clean
    then have n: "\<exists>b\<in>set ?ids'. b \<noteq> 0" by (auto simp: filter_empty_conv)
    have "trimmed v sv {} s s3" using f3 vn3 clean unfolding trimmed_def by auto
    moreover have "truncate_idblock v bl s = Ret () s3"
      unfolding t if_not_P [of "\<not> (\<exists>b\<in>set ?ids'. b \<noteq> 0)", unfolded not_not, OF n] using clean(2) by simp
    ultimately show ?thesis unfolding ib using clean b3 True
      by (intro exI [of _ s3] exI [of _ sv] exI [of _ ?id]) (simp add: indirect_blocks_def Let_def)
  qed
qed

lemma trunc_blocks_nat:
  assumes "0 \<le> len" "len < 2 ^ 31"
  shows "trunc_blocks len = (nat len + 511) div 512"
proof -
  have "(len + 512 - 1) sdiv 512 = (len + 511) div 512" using assms(1) by (simp add: signed_divide_int_def sgn_if)
  moreover have "nat ((len + 511) div 512) = (nat len + 511) div 512" using assms(1) by (simp add: nat_div_distrib nat_add_distrib)
  ultimately show ?thesis using assms by (simp add: trunc_blocks_def)
qed

lemma truncated_indirect_subset:
  assumes t: "truncated bl C i C' i'"
  shows "set (indirect_blocks C' i') \<subseteq> set (indirect_blocks C i)" "set (nonzero (sfi_direct i')) \<subseteq> set (nonzero (sfi_direct i))"
proof -
  let ?ids = "dec32s 128 (C (sfi_indirect i))"
  have "set (nonzero (masked (\<lambda>j. 15 + j \<le> bl) 0 ?ids)) \<subseteq> set (nonzero ?ids)"
    using masked_subset by (metis set_mset_mono set_mset_mset)
  then show "set (indirect_blocks C' i') \<subseteq> set (indirect_blocks C i)"
    using t by (auto simp: truncated_def indirect_blocks_def Let_def split: if_splits)
  show "set (nonzero (sfi_direct i')) \<subseteq> set (nonzero (sfi_direct i))"
    using t masked_subset unfolding truncated_def by (metis set_mset_mono set_mset_mset)
qed

text \<open>The blocks a file loses are those its direct pointers and its indirect block lose.\<close>

lemma truncated_freed:
  assumes t: "truncated bl C i C' i'" and d: "distinct (file_blocks C i)"
  shows "(set (nonzero (sfi_direct i)) - set (nonzero (sfi_direct i'))) \<union> (set (indirect_blocks C i) - set (indirect_blocks C' i')) =
    set (file_blocks C i) - set (file_blocks C' i')"
  using truncated_indirect_subset [OF t] d unfolding file_blocks_def by auto

lemma truncated_other:
  assumes t: "truncated bl C i C' i'" and "set (file_blocks C i) \<inter> set (file_blocks C j) = {}"
  shows "file_blocks C' j = file_blocks C j"
proof (cases "sfi_indirect j = 0")
  case False
  have "C' (sfi_indirect j) = C (sfi_indirect j)"
  proof (cases "sfi_indirect i = 0")
    case False
    then have "sfi_indirect j \<noteq> sfi_indirect i"
      using assms(2) indirect_in_blocks [of i C] indirect_in_blocks [of j C] \<open>sfi_indirect j \<noteq> 0\<close> by auto
    then show ?thesis using t by (auto simp: truncated_def Let_def split: if_splits)
  qed (use t in \<open>simp add: truncated_def\<close>)
  then show ?thesis using file_blocks_cong(1) [OF False] by blast
qed (rule file_blocks_cong(2))

lemma upd_inode_more:
  "space_ok (upd_inode v f s) = space_ok s" "sfs_superdirty (upd_inode v f s) = sfs_superdirty s"
  "sfs_freemapdirty (upd_inode v f s) = sfs_freemapdirty s"
  by (simp_all add: upd_inode_def upd_vn_def)

lemma sfs_truncate_ok:
  assumes inv: "fs_inv s" and v: "sfs_vn s v = Some sv" and len: "0 \<le> len" "len + 512 \<le> INT_MAX"
    and bl: "bl = (nat len + 511) div 512"
  shows "\<exists>s' sv'. sfs_truncate v len s = Ret () s' \<and> fs_inv s' \<and>
     trimmed v sv' (set (file_blocks (block s) (sv_i sv)) - set (file_blocks (block s') (sv_i sv'))) s s' \<and>
     truncated bl (block s) (sv_i sv) (block s') (sv_i sv') \<and> sfi_size (sv_i sv') = nat len \<and>
     sfi_type (sv_i sv') = sfi_type (sv_i sv) \<and> sfi_linkcount (sv_i sv') = sfi_linkcount (sv_i sv) \<and>
     sfi_waste (sv_i sv') = sfi_waste (sv_i sv) \<and> sv_ops sv' = sv_ops sv \<and> sv_refcount sv' = sv_refcount sv \<and>
     sv_opencount sv' = sv_opencount sv \<and> sv_ino sv' = sv_ino sv \<and> sv_dirty sv'"
proof -
  note fv = fs_inv_vnode [OF inv v]
  let ?d = "sfi_direct (sv_i sv)"
  let ?d' = "masked (\<lambda>fb. fb < bl) 0 ?d"
  have nd: "distinct (nonzero ?d)" "set (nonzero ?d) \<subseteq> used s \<inter> {..<sp_nblocks (sfs_super s)}"
    and ni: "distinct (indirect_blocks (block s) (sv_i sv))"
      "set (indirect_blocks (block s) (sv_i sv)) \<subseteq> used s \<inter> {..<sp_nblocks (sfs_super s)}"
    and dj: "set (nonzero ?d) \<inter> set (indirect_blocks (block s) (sv_i sv)) = {}"
    using fv(2,3) unfolding file_blocks_def by auto
  obtain s1 dirty where s1: "truncate_direct 15 0 bl v s = Ret () s1"
      "freed (set (nonzero ?d) - set (nonzero ?d')) ((sfs_vn s)(v \<mapsto> sv\<lparr>sv_i := (sv_i sv)\<lparr>sfi_direct := ?d'\<rparr>, sv_dirty := dirty\<rparr>)) s s1"
    using truncate_direct_ok [OF fs_inv_space [OF inv] v fv(1), of 0 15 bl] nd dropped_eq [OF nd(1), of _ 0] by auto
  note f1 = freed_simps [OF s1(2)]
  define sv1 where "sv1 = sv\<lparr>sv_i := (sv_i sv)\<lparr>sfi_direct := ?d'\<rparr>, sv_dirty := dirty\<rparr>"
  have v1: "sfs_vn s1 v = Some sv1" and b1: "block s1 = block s" using f1(1,3) by (simp_all add: sv1_def)
  have ib1: "indirect_blocks (block s1) (sv_i sv1) = indirect_blocks (block s) (sv_i sv)"
    using b1 by (simp add: indirect_blocks_def sv1_def)
  have ni1: "set (indirect_blocks (block s1) (sv_i sv1)) \<subseteq> used s1 \<inter> {..<sp_nblocks (sfs_super s1)}"
    using ni(2) dj unfolding ib1 f1(2,4) by auto
  obtain s2 sv2 i2 where s2: "truncate_idblock v bl s1 = Ret () s2"
      "trimmed v sv2 (set (indirect_blocks (block s1) (sv_i sv1)) - set (indirect_blocks (block s2) (sv_i sv2))) s1 s2"
      "sv_i sv2 = (sv_i sv1)\<lparr>sfi_indirect := i2\<rparr>" "sv_ops sv2 = sv_ops sv1" "sv_refcount sv2 = sv_refcount sv1"
      "sv_opencount sv2 = sv_opencount sv1" "sv_ino sv2 = sv_ino sv1"
      and i2: "let ids = dec32s 128 (block s1 (sfi_indirect (sv_i sv1))); ids' = masked (\<lambda>j. 15 + j \<le> bl) 0 ids in
            if sfi_indirect (sv_i sv1) = 0 then i2 = 0 \<and> block s2 = block s1
            else if bl < 142 \<and> nonzero ids' = [] then i2 = 0 \<and> block s2 = block s1
            else i2 = sfi_indirect (sv_i sv1) \<and> dec32s 128 (block s2 i2) = ids' \<and> (\<forall>b. b \<noteq> i2 \<longrightarrow> block s2 b = block s1 b)"
    using truncate_idblock_ok [OF f1(5) v1 ni(1) [folded ib1] ni1, of bl] by blast
  define f where "f = (\<lambda>n. n\<lparr>sfi_size := nat len\<rparr> :: sfs_inode)"
  define sv' where "sv' = sv2\<lparr>sv_i := f (sv_i sv2), sv_dirty := True\<rparr>"
  define s' where "s' = upd_inode v f s2"
  have vn2: "sfs_vn s2 v = Some sv2" using s2(2) by (simp add: trimmed_def)
  have dev: "block s' = block s2" by (simp add: s'_def)
  have fb: "file_blocks (block s') (sv_i sv') = nonzero ?d' @ indirect_blocks (block s2) (sv_i sv2)"
    unfolding dev by (simp add: file_blocks_def indirect_blocks_def sv'_def s2(3) sv1_def f_def)
  have tr: "truncated bl (block s) (sv_i sv) (block s') (sv_i sv')"
    unfolding truncated_def dev using i2 b1 by (auto simp: sv'_def s2(3) sv1_def f_def Let_def split: if_splits)
  have ms: "mset (file_blocks (block s') (sv_i sv')) \<subseteq># mset (file_blocks (block s) (sv_i sv))"
    by (rule truncated_file_blocks(1) [OF tr fv(2)])
  have d': "sfi_direct (sv_i sv') = ?d'" "indirect_blocks (block s') (sv_i sv') = indirect_blocks (block s2) (sv_i sv2)"
    unfolding dev by (simp_all add: indirect_blocks_def sv'_def s2(3) sv1_def f_def)
  note F = truncated_freed [OF tr fv(2), unfolded d']
  have T: "trimmed v sv' (set (file_blocks (block s) (sv_i sv)) - set (file_blocks (block s') (sv_i sv'))) s s'"
    unfolding F [symmetric] using s2(2) f1 vn2 unfolding trimmed_def ib1 s'_def
    by (auto simp: upd_inode_vn sv'_def upd_inode_more)
  have "vnodes_ok s'"
  proof (rule vnodes_ok_shrink [OF inv v])
    show "sfs_vn s' = (sfs_vn s)(v \<mapsto> sv')" "sfs_super s' = sfs_super s"
      "used s' = used s - (set (file_blocks (block s) (sv_i sv)) - set (file_blocks (block s') (sv_i sv')))"
      using T by (simp_all add: trimmed_def)
    show "distinct (file_blocks (block s') (sv_i sv'))" by (rule mset_subset_distinct [OF ms fv(2)])
    show "set (file_blocks (block s') (sv_i sv')) \<subseteq> set (file_blocks (block s) (sv_i sv))"
      using ms by (metis set_mset_mono set_mset_mset)
    show "file_blocks (block s') (sv_i sw) = file_blocks (block s) (sv_i sw)" if "w \<noteq> v" "sfs_vn s w = Some sw" for w sw
      using truncated_other [OF tr] fs_inv_other(1) [OF inv v that(2)] that(1) by blast
  qed (use s2 fv(1) d' in \<open>simp_all add: sv'_def sv1_def\<close>)
  then have I: "fs_inv s'" using T by (simp add: fs_inv_def trimmed_def)
  have "trunc_blocks len = bl" "nat (len mod 2 ^ 32) = nat len" using trunc_blocks_nat len bl by simp_all
  then have R: "sfs_truncate v len s = Ret () s'"
    using s1(1) s2(1) len(2) by (simp add: sfs_truncate_def s'_def f_def)
  show ?thesis using R I T tr s2(3-7) by (intro exI [of _ s'] exI [of _ sv']) (simp add: sv'_def sv1_def f_def)
qed

section \<open>Properties\<close>

text \<open>
  C8. \<^verbatim>\<open>sfs_truncate\<close> to a length that fits always succeeds, keeps the volume consistent, sets the size,
  and frees exactly the blocks the file no longer refers to.  It keeps the direct blocks below
  the new number of blocks and the indirect ones up to and including that number.
\<close>

theorem sfs_truncate_frees_blocks:
  assumes "fs_inv s" "sfs_vn s v = Some sv" "0 \<le> len" "len + 512 \<le> INT_MAX" "bl = (nat len + 511) div 512"
  shows "\<exists>s' sv'. sfs_truncate v len s = Ret () s' \<and> fs_inv s' \<and> sfs_vn s' = (sfs_vn s)(v \<mapsto> sv') \<and>
     sfi_size (sv_i sv') = nat len \<and>
     used s' = used s - (set (file_blocks (block s) (sv_i sv)) - set (file_blocks (block s') (sv_i sv'))) \<and>
     (\<forall>fb < MAXBLOCKS. block_at (block s') (sv_i sv') fb =
        (if (if fb < SFS_NDIRECT then fb < bl else fb \<le> bl) then block_at (block s) (sv_i sv) fb else 0))"
proof -
  obtain s' sv' where s': "sfs_truncate v len s = Ret () s'" "fs_inv s'"
      "trimmed v sv' (set (file_blocks (block s) (sv_i sv)) - set (file_blocks (block s') (sv_i sv'))) s s'"
      "truncated bl (block s) (sv_i sv) (block s') (sv_i sv')" "sfi_size (sv_i sv') = nat len"
    using sfs_truncate_ok [OF assms] by blast
  then show ?thesis
    using truncated_block_at [OF s'(4) fs_inv_vnode(1) [OF assms(1,2)]] unfolding trimmed_def trunc_keeps_def by blast
qed

theorem sfs_truncate_frees_blocks_witness:
  "\<exists>s' sv'. sfs_truncate 0 512 (sample_fs 0 0 UIO_READ) = Ret () s' \<and> sfs_vn s' 0 = Some sv' \<and>
     block_at (block s') (sv_i sv') 0 = 4 \<and> block_at (block s') (sv_i sv') 1 = 0"
proof -
  let ?s = "sample_fs 0 0 UIO_READ"
  have "block_at C sample_inode 0 = 4" for C by (simp add: block_at_def sample_inode_def)
  then show ?thesis
    using sfs_truncate_frees_blocks [OF sample_fs_inv [of 0 0 UIO_READ] sample_vn, of 512 1] by auto
qed

text \<open>
  A sample file of sixteen blocks whose last block, number 7, is the first one that its indirect block
  refers to.
\<close>

definition sample_big :: sfs where
  "sample_big = sample_vol\<lparr>sfs_device := (sfs_device sample_vol)\<lparr>lh_sect := sample_sect(6 := enc32s (7 # replicate 127 0))\<rparr>,
     sfs_vn := [0 \<mapsto> \<lparr>sv_ops = File_ops, sv_refcount = 1, sv_opencount = 0, sv_countlock = free_lock,
       sv_i = sample_file\<lparr>sfi_size := 8000, sfi_indirect := 6\<rparr>, sv_ino = 3, sv_dirty = False\<rparr>]\<rparr>"

lemma sample_big_ids: "dec32s 128 (enc32s (7 # replicate 127 0)) = 7 # replicate 127 0"
  using dec32s_enc32s [of "7 # replicate 127 0" "[]"] by simp

lemma sample_big_inv: "fs_inv sample_big"
proof -
  have l: "length (enc32s (7 # replicate 127 0)) = 512" unfolding length_enc32s by simp
  have sp: "space_ok sample_big"
    using sample_vol_space l length_sample_sect unfolding sample_big_def space_ok_def disk_ok_def by simp
  have u: "used sample_big = {..<8} \<union> {16..<4096}" "sfs_super sample_big = sample_super"
    "block sample_big = sample_sect(6 := enc32s (7 # replicate 127 0))"
    using sample_vol_used by (simp_all add: sample_big_def)
  have f: "file_blocks (block sample_big) (sample_file\<lparr>sfi_size := 8000, sfi_indirect := 6\<rparr>) = [5, 6, 7]"
    unfolding u(3) by (simp add: file_blocks_def indirect_blocks_def sample_big_ids del: list.map concat.simps)
      (simp add: sample_file_def)
  have vn: "sfs_vn sample_big = [0 \<mapsto> \<lparr>sv_ops = File_ops, sv_refcount = 1, sv_opencount = 0, sv_countlock = free_lock,
       sv_i = sample_file\<lparr>sfi_size := 8000, sfi_indirect := 6\<rparr>, sv_ino = 3, sv_dirty = False\<rparr>]"
    by (simp add: sample_big_def)
  have "vnodes_ok sample_big"
    by (rule vnodes_ok_single [OF vn]) (simp_all add: f, simp_all add: u sample_file_def)
  then show ?thesis using sp by (simp add: fs_inv_def)
qed

text \<open>
  C30. Truncating a file of more than fifteen blocks to exactly fifteen blocks leaves the first
  indirect block number behind: the block stays allocated and mapped past the end of the file,
  although the comment promises to discard any blocks past the new end.
\<close>

theorem sfs_truncate_leaves_a_block:
  assumes "fs_inv s" "sfs_vn s v = Some sv" "block_at (block s) (sv_i sv) 15 \<noteq> 0"
  shows "\<exists>s' sv'. sfs_truncate v (15 * 512) s = Ret () s' \<and> sfs_vn s' v = Some sv' \<and> sfi_size (sv_i sv') = 15 * 512 \<and>
     block_at (block s') (sv_i sv') 15 = block_at (block s) (sv_i sv) 15 \<and> block_at (block s) (sv_i sv) 15 \<in> used s'"
proof -
  obtain s' sv' where s': "sfs_truncate v (15 * 512) s = Ret () s'" "fs_inv s'"
      "trimmed v sv' (set (file_blocks (block s) (sv_i sv)) - set (file_blocks (block s') (sv_i sv'))) s s'"
      "truncated 15 (block s) (sv_i sv) (block s') (sv_i sv')" "sfi_size (sv_i sv') = nat (15 * 512)"
    using sfs_truncate_ok [OF assms(1,2), of "15 * 512" 15] by auto
  have v': "sfs_vn s' v = Some sv'" using s'(3) by (simp add: trimmed_def)
  have b: "block_at (block s') (sv_i sv') 15 = block_at (block s) (sv_i sv) 15"
    using truncated_block_at [OF s'(4) fs_inv_vnode(1) [OF assms(1,2)], of 15] by (simp add: trunc_keeps_def)
  then have "block_at (block s) (sv_i sv) 15 \<in> used s'"
    using block_at_in_blocks [OF fs_inv_vnode(1) [OF s'(2) v'], of 15 "block s'"] fs_inv_vnode(3) [OF s'(2) v'] assms(3) by auto
  then show ?thesis using s'(1,5) v' b by auto
qed

theorem sfs_truncate_leaves_a_block_witness:
  "\<exists>s' sv'. sfs_truncate 0 (15 * 512) sample_big = Ret () s' \<and> sfs_vn s' 0 = Some sv' \<and> sfi_size (sv_i sv') = 7680 \<and> 7 \<in> used s'"
proof -
  let ?sv = "\<lparr>sv_ops = File_ops, sv_refcount = 1, sv_opencount = 0, sv_countlock = free_lock,
       sv_i = sample_file\<lparr>sfi_size := 8000, sfi_indirect := 6\<rparr>, sv_ino = 3, sv_dirty = False\<rparr>"
  have vn: "sfs_vn sample_big 0 = Some ?sv" by (simp add: sample_big_def)
  have b: "block_at (block sample_big) (sv_i ?sv) 15 = 7"
    by (simp add: sample_big_def block_at_def sample_big_ids del: list.map concat.simps)
  show ?thesis using sfs_truncate_leaves_a_block [OF sample_big_inv vn] unfolding b by auto
qed

end
