(* ===== verification/Sfs_Lifetime.thy ===== *)
theory Sfs_Lifetime
  imports Sfs_Truncate
begin

text \<open>
  The lifetime of vnodes: \<^verbatim>\<open>sfs_loadvnode\<close> gives every inode one vnode in memory, and
  \<^verbatim>\<open>vnode_decref\<close> on the last reference writes the inode back, or erases the file when no
  directory refers to it any more.  Both need the lock of the reference count, which is not initialised: the
  lemmas say in which states of the lock the operations go through and in which they sleep.
\<close>

section \<open>The table of loaded vnodes\<close>

definition loaded :: "sfs \<Rightarrow> vref list" where
  "loaded s = map the (array_cells (sfs_vnodes s))"

text \<open>
  The table holds every vnode once.  Memory that \<^verbatim>\<open>kmalloc\<close> hands out is not in use.
\<close>

definition vtable_ok :: "sfs \<Rightarrow> bool" where
  "vtable_ok s \<longleftrightarrow> array_inv (sfs_vnodes s) \<and> array_cells (sfs_vnodes s) = map Some (loaded s) \<and>
     distinct (loaded s) \<and> set (loaded s) = dom (sfs_vn s)"

definition kmem_ok :: "sfs \<Rightarrow> bool" where
  "kmem_ok s \<longleftrightarrow> (\<forall>n v j. sfs_kmem s n = Some (v, j) \<longrightarrow> sfs_vn s v = None) \<and>
     (\<forall>m n v j k. sfs_kmem s m = Some (v, j) \<longrightarrow> sfs_kmem s n = Some (v, k) \<longrightarrow> m = n)"

definition waste_ok :: "sfs \<Rightarrow> bool" where
  "waste_ok s \<longleftrightarrow> (\<forall>v sv. sfs_vn s v = Some sv \<longrightarrow> length (sfi_waste (sv_i sv)) = 440)"

lemma vtableD:
  assumes "vtable_ok s"
  shows "array_inv (sfs_vnodes s)" "array_cells (sfs_vnodes s) = map Some (loaded s)" "distinct (loaded s)"
    "set (loaded s) = dom (sfs_vn s)"
  using assms by (simp_all add: vtable_ok_def)

lemma vtable_length: "vtable_ok s \<Longrightarrow> array_getnum (sfs_vnodes s) = int (length (loaded s))"
  using array_getnum_cells [OF vtableD(1)] vtableD(2) by fastforce

lemma vnodes_get_ok:
  assumes "vtable_ok s" "i < length (loaded s)"
  shows "vnodes_get (int i) s = Ret (loaded s ! i) s"
  using array_getguy_cells [OF vtableD(1) [OF assms(1)], of i] assms vtableD(2) [OF assms(1)] by (simp add: vnodes_get_def)

lemma reclaim_find_ok:
  assumes "vtable_ok s" "j < length (loaded s)" "i \<le> j" "i + k = length (loaded s)" "loaded s ! j = v"
  shows "reclaim_find k (int i) v s = Ret (Some (int j)) s"
  using assms
proof (induction k arbitrary: i)
  case (Suc k)
  have i: "i < length (loaded s)" using Suc.prems by simp
  show ?case
  proof (cases "i = j")
    case True
    then show ?thesis using vnodes_get_ok [OF assms(1) i] Suc.prems(5) by simp
  next
    case False
    then have "loaded s ! i \<noteq> v" using vtableD(3) [OF assms(1)] i assms(2,5) by (auto simp: nth_eq_iff_index_eq)
    moreover have "reclaim_find k (int i + 1) v s = Ret (Some (int j)) s"
      using Suc.IH [of "Suc i"] Suc.prems False by (simp add: add.commute)
    ultimately show ?thesis using vnodes_get_ok [OF assms(1) i] by simp
  qed
qed simp

lemma load_scan_ok:
  assumes inv: "fs_inv s" and t: "vtable_ok s" and "i + k = length (loaded s)"
  shows "load_scan k (int i) ino s =
    Ret (List.find (\<lambda>v. \<exists>sv. sfs_vn s v = Some sv \<and> sv_ino sv = ino) (drop i (loaded s))) s"
  using assms(3)
proof (induction k arbitrary: i)
  case (Suc k)
  have i: "i < length (loaded s)" using Suc.prems by simp
  then have "loaded s ! i \<in> dom (sfs_vn s)" using vtableD(4) [OF t] nth_mem by blast
  then obtain sv where sv: "sfs_vn s (loaded s ! i) = Some sv" by auto
  have "sfs_bused (sv_ino sv) s = Ret True s"
    using sfs_bused_ok [OF fs_inv_space [OF inv], of "sv_ino sv"] fs_inv_vnode(4) [OF inv sv] by simp
  moreover have "load_scan k (int i + 1) ino s =
      Ret (List.find (\<lambda>v. \<exists>sv. sfs_vn s v = Some sv \<and> sv_ino sv = ino) (drop (Suc i) (loaded s))) s"
    using Suc.IH [of "Suc i"] Suc.prems by (simp add: add.commute)
  moreover have "drop i (loaded s) = loaded s ! i # drop (Suc i) (loaded s)" using i by (simp add: Cons_nth_drop_Suc)
  ultimately show ?case using vnodes_get_ok [OF t i] sv by (simp add: with_vn_def)
qed simp

section \<open>Writing an inode back\<close>

text \<open>An inode block is no block of a file, so writing it changes no file.\<close>

lemma inode_block_write:
  assumes inv: "fs_inv s" and v: "sfs_vn s v = Some sv" and "sfs_vn s w = Some sw"
  shows "file_blocks ((block s)(sv_ino sv := data)) (sv_i sw) = file_blocks (block s) (sv_i sw)"
    "fb < MAXBLOCKS \<Longrightarrow> block_at ((block s)(sv_ino sv := data)) (sv_i sw) fb = block_at (block s) (sv_i sw) fb"
proof -
  have n: "sv_ino sv \<notin> set (file_blocks (block s) (sv_i sw))" using fs_inv_other(3) [OF inv v assms(3)] .
  then show "file_blocks ((block s)(sv_ino sv := data)) (sv_i sw) = file_blocks (block s) (sv_i sw)" by (rule file_blocks_upd)
  show "block_at ((block s)(sv_ino sv := data)) (sv_i sw) fb = block_at (block s) (sv_i sw) fb"
    using n indirect_in_blocks [of "sv_i sw" "block s"] by (auto simp: block_at_def)
qed

lemma vnodes_ok_sub:
  assumes "vnodes_ok s" "sfs_super s' = sfs_super s"
    and "\<And>w sw'. sfs_vn s' w = Some sw' \<Longrightarrow> \<exists>sw. sfs_vn s w = Some sw \<and> sv_ino sw' = sv_ino sw \<and>
      length (sfi_direct (sv_i sw')) = length (sfi_direct (sv_i sw)) \<and>
      file_blocks (block s') (sv_i sw') = file_blocks (block s) (sv_i sw) \<and>
      insert (sv_ino sw) (set (file_blocks (block s) (sv_i sw))) \<subseteq> used s'"
  shows "vnodes_ok s'"
proof -
  note a = assms(1) [unfolded vnodes_ok_def]
  show ?thesis
    unfolding vnodes_ok_def assms(2)
  proof (intro conjI allI impI)
    fix w sw assume "sfs_vn s' w = Some sw"
    then obtain sx where sx: "sfs_vn s w = Some sx" "sv_ino sw = sv_ino sx" "length (sfi_direct (sv_i sw)) = length (sfi_direct (sv_i sx))"
      "file_blocks (block s') (sv_i sw) = file_blocks (block s) (sv_i sx)"
      "insert (sv_ino sx) (set (file_blocks (block s) (sv_i sx))) \<subseteq> used s'" using assms(3) by blast
    then show "length (sfi_direct (sv_i sw)) = SFS_NDIRECT" "distinct (file_blocks (block s') (sv_i sw))"
      "set (file_blocks (block s') (sv_i sw)) \<subseteq> used s' \<inter> {..<sp_nblocks (sfs_super s)}"
      "sv_ino sw \<in> used s' \<inter> {..<sp_nblocks (sfs_super s)}" using a by auto
  next
    fix v w sv sw assume w: "v \<noteq> w" "sfs_vn s' v = Some sv" "sfs_vn s' w = Some sw"
    from assms(3) [OF w(2)] assms(3) [OF w(3)] w(1)
    show "set (file_blocks (block s') (sv_i sv)) \<inter> set (file_blocks (block s') (sv_i sw)) = {}" "sv_ino sv \<noteq> sv_ino sw"
      using a by metis+
  next
    fix v w sv sw assume w: "sfs_vn s' v = Some sv" "sfs_vn s' w = Some sw"
    from assms(3) [OF w(1)] assms(3) [OF w(2)]
    show "sv_ino sv \<notin> set (file_blocks (block s') (sv_i sw))" using a by metis
  qed
qed

lemma sfs_sync_inode_ok:
  assumes inv: "fs_inv s" and v: "sfs_vn s v = Some sv" and w: "length (sfi_waste (sv_i sv)) = 440"
  shows "\<exists>s' d. sfs_sync_inode v s = Ret () s' \<and> fs_inv s' \<and>
     s' = s\<lparr>sfs_device := d, sfs_vn := (sfs_vn s)(v \<mapsto> sv\<lparr>sv_dirty := False\<rparr>)\<rparr> \<and>
     block s' = (if sv_dirty sv then (block s)(sv_ino sv := inode_bytes (sv_i sv)) else block s)"
proof (cases "sv_dirty sv")
  case False
  then have "sv\<lparr>sv_dirty := False\<rparr> = sv" by simp
  then have "(sfs_vn s)(v \<mapsto> sv\<lparr>sv_dirty := False\<rparr>) = sfs_vn s" using v by auto
  then show ?thesis using False v inv by (intro exI [of _ s] exI [of _ "sfs_device s"]) (simp add: sfs_sync_inode_def with_vn_def)
next
  case True
  note fv = fs_inv_vnode [OF inv v]
  obtain d where d: "fs_wblock (inode_bytes (sv_i sv)) (sv_ino sv) s = Ret () (s\<lparr>sfs_device := d\<rparr>)" "disk_ok d"
      "lh_sect d = (block s)(sv_ino sv := inode_bytes (sv_i sv))" "lh_blocks d = lh_blocks (sfs_device s)"
    using fs_wblock_ok [OF fs_inv_space [OF inv], of "sv_ino sv" "inode_bytes (sv_i sv)"] fv(1,4) length_inode_bytes w by auto
  define s' where "s' = s\<lparr>sfs_device := d, sfs_vn := (sfs_vn s)(v \<mapsto> sv\<lparr>sv_dirty := False\<rparr>)\<rparr>"
  have R: "sfs_sync_inode v s = Ret () s'"
    using True v d(1) by (simp add: sfs_sync_inode_def with_vn_def upd_vn_def s'_def)
  have "vnodes_ok s'"
  proof (rule vnodes_ok_sub [of s])
    show "vnodes_ok s" using inv by (simp add: fs_inv_def)
    fix x sx' assume x: "sfs_vn s' x = Some sx'"
    obtain sx where sx: "sfs_vn s x = Some sx" "sv_ino sx' = sv_ino sx" "sv_i sx' = sv_i sx"
      using x v by (auto simp: s'_def split: if_splits)
    then show "\<exists>sx. sfs_vn s x = Some sx \<and> sv_ino sx' = sv_ino sx \<and> length (sfi_direct (sv_i sx')) = length (sfi_direct (sv_i sx)) \<and>
        file_blocks (block s') (sv_i sx') = file_blocks (block s) (sv_i sx) \<and>
        insert (sv_ino sx) (set (file_blocks (block s) (sv_i sx))) \<subseteq> used s'"
      using inode_block_write(1) [OF inv v sx(1)] d(3) fs_inv_vnode(3,4) [OF inv sx(1)] by (intro exI [of _ sx]) (simp add: s'_def)
  qed (simp_all add: s'_def)
  moreover have "space_ok s'" using fs_inv_space [OF inv] d by (simp add: s'_def space_ok_def)
  ultimately show ?thesis using True R d(3) by (intro exI [of _ s'] exI [of _ d]) (simp add: fs_inv_def s'_def)
qed

section \<open>Releasing the last reference\<close>

lemma drop_vnode_ok:
  assumes t: "vtable_ok s" and v: "sfs_vn s v = Some sv" "sv_refcount sv = 1" "sv_opencount sv = 0"
  shows "\<exists>s' a. drop_vnode v s = Ret () s' \<and> s' = s\<lparr>sfs_vnodes := a, sfs_vn := (sfs_vn s)(v := None)\<rparr> \<and>
     vtable_ok s' \<and> loaded s' = remove1 v (loaded s)"
proof -
  have "v \<in> set (loaded s)" using vtableD(4) [OF t] v(1) by auto
  then obtain j where j: "j < length (loaded s)" "loaded s ! j = v" by (auto simp: in_set_conv_nth)
  have f: "reclaim_find (nat (array_getnum (sfs_vnodes s))) 0 v s = Ret (Some (int j)) s"
    using reclaim_find_ok [OF t j(1), of 0 "length (loaded s)" v] j(2) vtable_length [OF t] by simp
  let ?c = "array_cells (sfs_vnodes s)"
  have c: "?c = map Some (loaded s)" using vtableD(2) [OF t] .
  obtain a where a: "array_remove (sfs_vnodes s) (int j) = Ret () a" "array_inv a" "array_cells a = take j ?c @ drop (Suc j) ?c"
    using kern_array.remove [OF vtableD(1) [OF t], of j] j(1) c by auto
  have r1: "remove1 v (loaded s) = take j (loaded s) @ drop (Suc j) (loaded s)"
  proof -
    have "v \<notin> set (take j (loaded s))"
      using j vtableD(3) [OF t] by (auto simp: in_set_conv_nth nth_eq_iff_index_eq)
    then show ?thesis using id_take_nth_drop [OF j(1)] j(2) by (metis remove1.simps(2) remove1_append)
  qed
  have ca: "array_cells a = map Some (remove1 v (loaded s))" using a(3) c r1 by (simp add: take_map drop_map)
  define s' where "s' = s\<lparr>sfs_vnodes := a, sfs_vn := (sfs_vn s)(v := None)\<rparr>"
  have l: "loaded s' = remove1 v (loaded s)" using ca by (simp add: loaded_def s'_def comp_def)
  have "drop_vnode v s = Ret () s'"
    using f a(1) v by (simp add: drop_vnode_def vnode_kill_def kfree_vn_def upd_vn_def with_vn_def s'_def)
  moreover have "vtable_ok s'"
    using a(2) ca l vtableD [OF t] unfolding vtable_ok_def by (auto simp: s'_def length_remove1)
  ultimately show ?thesis using l s'_def by blast
qed

lemma vnodes_ok_drop:
  assumes inv: "fs_inv s" and v: "sfs_vn s v = Some sv"
    and s': "sfs_vn s' = (sfs_vn s)(v := None)" "sfs_super s' = sfs_super s"
      "block s' = block s" "used s' = used s - F" "F \<subseteq> insert (sv_ino sv) (set (file_blocks (block s) (sv_i sv)))"
  shows "vnodes_ok s'"
proof (rule vnodes_ok_sub [of s])
  show "vnodes_ok s" using inv by (simp add: fs_inv_def)
  fix w sw assume "sfs_vn s' w = Some sw"
  then have w: "w \<noteq> v" "sfs_vn s w = Some sw" using s'(1) by (auto split: if_splits)
  have "insert (sv_ino sw) (set (file_blocks (block s) (sv_i sw))) \<inter> F = {}"
    using fs_inv_other [OF inv v w(2)] fs_inv_other(3) [OF inv w(2) v] w(1) s'(5) by auto
  then show "\<exists>sx. sfs_vn s w = Some sx \<and> sv_ino sw = sv_ino sx \<and> length (sfi_direct (sv_i sw)) = length (sfi_direct (sv_i sx)) \<and>
      file_blocks (block s') (sv_i sw) = file_blocks (block s) (sv_i sx) \<and>
      insert (sv_ino sx) (set (file_blocks (block s) (sv_i sx))) \<subseteq> used s'"
    using w(2) s'(3,4) fs_inv_vnode(3,4) [OF inv w(2)] by (intro exI [of _ sw]) auto
qed (rule s'(2))

lemma space_ok_vnodes [simp]: "space_ok (s\<lparr>sfs_vnodes := a\<rparr>) = space_ok s"
  by (simp add: space_ok_def)

lemma vtable_cong:
  assumes "vtable_ok s" "sfs_vnodes s' = sfs_vnodes s" "dom (sfs_vn s') = dom (sfs_vn s)"
  shows "vtable_ok s'" "loaded s' = loaded s"
  using assms by (simp_all add: vtable_ok_def loaded_def)

section \<open>The lock of the counts\<close>

text \<open>The states of the lock in which a thread that does not hold it gets it at once.\<close>

definition idle_lock :: "lock \<Rightarrow> bool" where
  "idle_lock l \<longleftrightarrow> l_held l = 0 \<and> l_pointer l \<noteq> Some self"

lemma idle_free [simp]: "idle_lock free_lock"
  by (simp add: idle_lock_def)

abbreviation unlocked :: "vref \<Rightarrow> sfs_vnode \<Rightarrow> sfs \<Rightarrow> sfs" where
  "unlocked v sv s \<equiv> s\<lparr>sfs_vn := (sfs_vn s)(v \<mapsto> sv\<lparr>sv_countlock := free_lock\<rparr>)\<rparr>"

lemma countlock_acquire_cases:
  assumes "sfs_vn s v = Some sv"
  shows "countlock_acquire v s =
     (if l_pointer (sv_countlock sv) = Some self then Panic else if l_held (sv_countlock sv) \<noteq> 0 then Sleeps
      else Ret () (s\<lparr>sfs_vn := (sfs_vn s)(v \<mapsto> sv\<lparr>sv_countlock := \<lparr>l_held = 1, l_pointer = Some self\<rparr>\<rparr>)\<rparr>))"
  using assms by (simp add: countlock_acquire_def with_vn_def upd_vn_def kassert_def)

lemma countlock_release_eq: "sfs_vn s v = Some sv \<Longrightarrow> countlock_release v s = Ret () (unlocked v sv s)"
  by (simp add: countlock_release_def with_vn_def upd_vn_def)

text \<open>\<^verbatim>\<open>vnode_check\<close> repairs a lock whose \<^verbatim>\<open>held\<close> is neither 0 nor 1; with 1 it sleeps.\<close>

lemma vnode_check_cases:
  assumes "sfs_vn s v = Some sv" "0 < sv_refcount sv" "0 \<le> sv_opencount sv"
  shows "vnode_check op v s =
     (if l_pointer (sv_countlock sv) = Some self then Panic else if l_held (sv_countlock sv) = 1 then Sleeps
      else Ret () (unlocked v sv s))"
  using assms by (simp add: vnode_check_def with_vn_def upd_vn_def countlock_acquire_cases countlock_release_eq)

lemma vnode_check_free:
  assumes "sfs_vn s v = Some sv" "0 < sv_refcount sv" "0 \<le> sv_opencount sv" "sv_countlock sv = free_lock"
  shows "vnode_check op v s = Ret () s"
proof -
  have "sv\<lparr>sv_countlock := free_lock\<rparr> = sv" using assms(4) by (cases sv) simp
  then have "unlocked v sv s = s" using assms(1) by (simp add: fun_upd_idem)
  then show ?thesis using vnode_check_cases [OF assms(1-3), of op] assms(4) by simp
qed

lemma vnode_incref_cases:
  assumes "sfs_vn s v = Some sv" "sv_refcount sv < INT_MAX"
  shows "vnode_incref v s =
     (if l_pointer (sv_countlock sv) = Some self then Panic else if l_held (sv_countlock sv) \<noteq> 0 then Sleeps
      else Ret () (unlocked v (sv\<lparr>sv_refcount := sv_refcount sv + 1\<rparr>) s))"
  using assms by (simp add: vnode_incref_def countlock_acquire_cases with_vn_def upd_vn_def countlock_release_eq)

text \<open>The last reference: with the lock free, the vnode is reclaimed.\<close>

lemma vnode_decref_last:
  assumes "sfs_vn s v = Some sv" "sv_refcount sv = 1" "sv_opencount sv = 0"
  shows "vnode_decref v s =
     (if l_pointer (sv_countlock sv) = Some self then Panic else if l_held (sv_countlock sv) \<noteq> 0 then Sleeps
      else on_err (reclaim_unused v (unlocked v sv s)) (\<lambda>_ s. Ret () s))"
proof -
  have v: "sfs_vn (unlocked v sv s) v = Some (sv\<lparr>sv_countlock := free_lock\<rparr>)" by simp
  have "vnode_check ''reclaim'' v (unlocked v sv s) = Ret () (unlocked v sv s)"
    by (rule vnode_check_free [OF v]) (use assms in simp_all)
  moreover have "sfs_reclaim v (unlocked v sv s) = reclaim_unused v (unlocked v sv s)"
    using assms by (simp add: sfs_reclaim_def countlock_acquire_cases with_vn_def countlock_release_eq)
  ultimately show ?thesis
    using assms by (simp add: vnode_decref_def countlock_acquire_cases with_vn_def countlock_release_eq vop_reclaim_def)
qed

lemma unlocked_ok:
  assumes "fs_inv s" "vtable_ok s" "sfs_vn s v = Some sv"
  shows "fs_inv (unlocked v sv s)" "vtable_ok (unlocked v sv s)" "loaded (unlocked v sv s) = loaded s"
proof -
  show "fs_inv (unlocked v sv s)"
    by (rule fs_inv_vn_cong [OF assms(1,3), of _ "sv\<lparr>sv_countlock := free_lock\<rparr>"]) (use fs_inv_space [OF assms(1)] in \<open>simp_all add: space_ok_def\<close>)
  show "vtable_ok (unlocked v sv s)" "loaded (unlocked v sv s) = loaded s"
    using vtable_cong [OF assms(2), of "unlocked v sv s"] assms(3) by auto
qed

section \<open>Dropping the last reference\<close>


text \<open>The vnode of a file without links: its blocks and its inode are freed.\<close>

lemma reclaim_unlinked:
  assumes inv: "fs_inv s" and t: "vtable_ok s" and v: "sfs_vn s v = Some sv" and f: "sv_ops sv = File_ops" "sv_ino sv \<noteq> 0"
    and c: "sv_refcount sv = 1" "sv_opencount sv = 0" "sfi_linkcount (sv_i sv) = 0" "length (sfi_waste (sv_i sv)) = 440" "sv_countlock sv = free_lock"
  shows "\<exists>s'. reclaim_unused v s = Ret () s' \<and> fs_inv s' \<and> vtable_ok s' \<and> loaded s' = remove1 v (loaded s) \<and>
     sfs_vn s' = (sfs_vn s)(v := None) \<and> used s' = used s - insert (sv_ino sv) (set (file_blocks (block s) (sv_i sv))) \<and>
     sfs_super s' = sfs_super s \<and> sfs_kmem s' = sfs_kmem s \<and> sfs_req s' = sfs_req s \<and>
     (\<forall>b. b \<noteq> sv_ino sv \<longrightarrow> block s' b = block s b)"
proof -
  let ?F = "set (file_blocks (block s) (sv_i sv))"
  obtain s0 sv0 where s0: "sfs_truncate v 0 s = Ret () s0" "fs_inv s0"
      "trimmed v sv0 (?F - set (file_blocks (block s0) (sv_i sv0))) s s0" "truncated 0 (block s) (sv_i sv) (block s0) (sv_i sv0)"
      "sfi_linkcount (sv_i sv0) = 0" "sfi_waste (sv_i sv0) = sfi_waste (sv_i sv)" "sv_refcount sv0 = 1" "sv_opencount sv0 = 0"
      "sv_ino sv0 = sv_ino sv" "sv_dirty sv0"
    using sfs_truncate_ok [OF inv v, of 0 0] c by auto
  have e0: "file_blocks (block s0) (sv_i sv0) = []"
    using truncated_file_blocks(2) [OF s0(4) fs_inv_vnode(2) [OF inv v]] by simp
  have i0: "sfi_indirect (sv_i sv0) = 0" using e0 indirect_in_blocks [of "sv_i sv0" "block s0"] by (metis empty_iff list.set(1))
  have b0: "block s0 = block s" using s0(4) i0 by (auto simp: truncated_def Let_def split: if_splits)
  note tm = s0(3) [unfolded trimmed_def e0]
  have v0: "sfs_vn s0 v = Some sv0" using tm by simp
  obtain s1 d where s1: "sfs_sync_inode v s0 = Ret () s1" "fs_inv s1" "s1 = s0\<lparr>sfs_device := d, sfs_vn := (sfs_vn s0)(v \<mapsto> sv0\<lparr>sv_dirty := False\<rparr>)\<rparr>"
      "block s1 = (block s0)(sv_ino sv := inode_bytes (sv_i sv0))"
    using sfs_sync_inode_ok [OF s0(2) v0] s0(6,9,10) c(4) by auto
  have v1: "sfs_vn s1 v = Some (sv0\<lparr>sv_dirty := False\<rparr>)" using s1(3) by simp
  have ino: "sv_ino sv \<in> used s1" "sv_ino sv < sp_nblocks (sfs_super s1)" using fs_inv_vnode(4) [OF s1(2) v1] s0(9) by simp_all
  obtain s2 where s2: "sfs_bfree (sv_ino sv) s1 = Ret () s2" "freed {sv_ino sv} (sfs_vn s1) s1 s2"
    using bfree_freed [OF fs_inv_space [OF s1(2)] ino(1) f(2) ino(2)] by blast
  note f2 = freed_simps [OF s2(2)]
  have t2: "vtable_ok s2" "loaded s2 = loaded s" using vtable_cong [OF t, of s2] f2(3,7) s1(3) tm v by auto
  obtain s3 a where s3: "drop_vnode v s2 = Ret () s3" "s3 = s2\<lparr>sfs_vnodes := a, sfs_vn := (sfs_vn s2)(v := None)\<rparr>"
      "vtable_ok s3" "loaded s3 = remove1 v (loaded s2)"
    using drop_vnode_ok [OF t2(1), of v "sv0\<lparr>sv_dirty := False\<rparr>"] f2(3) v1 s0(7,8) by auto
  have "vop_truncate v 0 s = Ret () s0"
    using v f(1) c s0(1) vnode_check_free [OF v] by (simp add: vop_truncate_def with_vn_def)
  then have R: "reclaim_unused v s = Ret () s3"
    using v c s1(1) v1 s2(1) s3(1) s0(5,9)
    by (simp add: reclaim_unused_def with_vn_def)
  have "vnodes_ok s3" using s3(2) f2 s0(9) by (intro vnodes_ok_drop [OF s1(2) v1, of s3 "{sv_ino sv}"]) simp_all
  moreover have "space_ok s3" using s3(2) f2(5) by simp
  moreover have "used s3 = used s - insert (sv_ino sv) ?F" using s3(2) f2(4) s1(3) tm by auto
  ultimately show ?thesis using R s3 f2 s1(3,4) tm t2(2) b0 by (intro exI [of _ s3]) (simp add: fs_inv_def)
qed

section \<open>Loading\<close>

lemma vnodes_add_ok:
  assumes a: "array_inv (sfs_vnodes s)" "length (array_cells (sfs_vnodes s)) + 1 < 2 ^ 29"
  shows "(\<exists>a k. vnodes_add v s = Ret () (s\<lparr>sfs_vnodes := a, sfs_kmem := (\<lambda>n. sfs_kmem s (n + k))\<rparr>) \<and> k \<le> 1 \<and> array_inv a \<and>
            array_cells a = array_cells (sfs_vnodes s) @ [Some v]) \<or>
         (\<exists>k. vnodes_add v s = Err ENOMEM (s\<lparr>sfs_kmem := (\<lambda>n. sfs_kmem s (n + k))\<rparr>) \<and> (\<exists>n. sfs_kmem s n = None))"
proof (cases "a_num (sfs_vnodes s) + 1 > a_max (sfs_vnodes s)")
  case False
  then obtain b where "array_add True (sfs_vnodes s) v = Ret () b" "array_inv b" "array_cells b = array_cells (sfs_vnodes s) @ [Some v]"
    using array_add_room [OF a(1), of True v] by auto
  then show ?thesis using False by (intro disjI1 exI [of _ b] exI [of _ 0]) (simp add: vnodes_add_def)
next
  case True
  then have full: "a_num (sfs_vnodes s) = a_max (sfs_vnodes s)" using a(1) by (simp add: array_inv_def)
  let ?s = "s\<lparr>sfs_kmem := (\<lambda>n. sfs_kmem s (n + 1))\<rparr>"
  have e: "vnodes_add v s = within (\<lambda>a. ?s\<lparr>sfs_vnodes := a\<rparr>) (array_add (sfs_kmem s 0 \<noteq> None) (sfs_vnodes s) v)"
    using True by (simp add: vnodes_add_def kmalloc_next_def)
  show ?thesis
  proof (cases "sfs_kmem s 0")
    case None
    have "a_num (sfs_vnodes s) + 1 < 2 ^ 29" using a length_array_cells [OF a(1)] by simp
    then have "array_add False (sfs_vnodes s) v = Err ENOMEM (sfs_vnodes s)"
      using array_add_full [OF a(1) full, of False v] by simp
    then show ?thesis using e None by (intro disjI2 exI [of _ 1]) auto
  next
    case (Some x)
    obtain b where "array_add True (sfs_vnodes s) v = Ret () b" "array_inv b" "array_cells b = array_cells (sfs_vnodes s) @ [Some v]"
      using kern_array.add_mem [OF a] by blast
    then show ?thesis using e Some by (intro disjI1 exI [of _ b] exI [of _ 1]) simp
  qed
qed

lemma load_install_ok:
  assumes a: "array_inv (sfs_vnodes s)" "length (array_cells (sfs_vnodes s)) + 1 < 2 ^ 29" and v: "sfs_vn s v = Some sv"
  shows "(\<exists>a k. load_install ino vnops v s = Ret v (s\<lparr>sfs_vnodes := a, sfs_kmem := (\<lambda>n. sfs_kmem s (n + k)),
              sfs_vn := (sfs_vn s)(v \<mapsto> sv\<lparr>sv_ops := vnops, sv_refcount := 1, sv_opencount := 0,
                sv_countlock := snd (the (sfs_kmem s 0)), sv_ino := ino\<rparr>)\<rparr>) \<and>
            array_inv a \<and> array_cells a = array_cells (sfs_vnodes s) @ [Some v]) \<or>
         (\<exists>k. load_install ino vnops v s = Err ENOMEM (s\<lparr>sfs_kmem := (\<lambda>n. sfs_kmem s (n + k)), sfs_vn := (sfs_vn s)(v := None)\<rparr>) \<and>
            (\<exists>n. sfs_kmem s n = None))"
proof -
  consider "sfs_kmem s 0 = None" | "sfs_kmem s 0 \<noteq> None" "sfs_kmem s 1 = None" | x y where "sfs_kmem s 0 = Some x" "sfs_kmem s 1 = Some y"
    by blast
  then show ?thesis
  proof cases
    case 1
    then show ?thesis using v
      by (intro disjI2 exI [of _ 1]) (auto simp add: load_install_def vnode_init_def with_vn_def upd_vn_def kmalloc_next_def kfree_vn_def)
  next
    case 2
    then show ?thesis using v
      by (intro disjI2 exI [of _ 2])
         (auto simp: load_install_def vnode_init_def with_vn_def upd_vn_def kmalloc_next_def kfree_vn_def split: option.split)
  next
    case 3
    define s1 where "s1 = s\<lparr>sfs_kmem := (\<lambda>n. sfs_kmem s (n + 2)),
        sfs_vn := (sfs_vn s)(v \<mapsto> sv\<lparr>sv_ops := vnops, sv_refcount := 1, sv_opencount := 0, sv_countlock := snd x, sv_ino := ino\<rparr>)\<rparr>"
    have e: "load_install ino vnops v s = andthen
         (on_err (vnodes_add v s1) (\<lambda>e s. andthen (vnode_kill v s) (\<lambda>_ s. Err e (kfree_vn v s)))) (\<lambda>_ s. Ret v s)"
      using 3 v by (cases x) (simp add: load_install_def vnode_init_def with_vn_def upd_vn_def kmalloc_next_def s1_def numeral_2_eq_2)
    have a1: "array_inv (sfs_vnodes s1)" "length (array_cells (sfs_vnodes s1)) + 1 < 2 ^ 29" using a by (simp_all add: s1_def)
    from vnodes_add_ok [OF a1, of v] show ?thesis
    proof (elim disjE exE conjE)
      fix a k assume "vnodes_add v s1 = Ret () (s1\<lparr>sfs_vnodes := a, sfs_kmem := (\<lambda>n. sfs_kmem s1 (n + k))\<rparr>)" "array_inv a"
        "array_cells a = array_cells (sfs_vnodes s1) @ [Some v]"
      then show ?thesis using e 3 by (intro disjI1 exI [of _ a] exI [of _ "k + 2"]) (simp add: s1_def add.assoc)
    next
      fix k n assume "vnodes_add v s1 = Err ENOMEM (s1\<lparr>sfs_kmem := (\<lambda>n. sfs_kmem s1 (n + k))\<rparr>)" "sfs_kmem s1 n = None"
      moreover from this(2) have "\<exists>n. sfs_kmem s n = None" by (auto simp: s1_def)
      ultimately show ?thesis using e
        by (intro disjI2 exI [of _ "k + 2"]) (simp add: s1_def vnode_kill_def with_vn_def upd_vn_def kfree_vn_def add.assoc)
    qed
  qed
qed

text \<open>There are at most as many vnodes as blocks.\<close>

lemma loaded_bound:
  assumes inv: "fs_inv s" and t: "vtable_ok s"
  shows "length (loaded s) + 1 < 2 ^ 29"
proof -
  let ?ino = "\<lambda>v. sv_ino (the (sfs_vn s v))"
  have vn: "\<exists>sv. sfs_vn s v = Some sv" if "v \<in> set (loaded s)" for v using that vtableD(4) [OF t] by auto
  have "inj_on ?ino (set (loaded s))"
    using vn fs_inv_other(2) [OF inv] by (intro inj_onI) (metis option.sel)
  moreover have "?ino ` set (loaded s) \<subseteq> {..<sp_nblocks (sfs_super s)}"
    using vn fs_inv_vnode(4) [OF inv] by fastforce
  ultimately have "card (set (loaded s)) \<le> card {..<sp_nblocks (sfs_super s)}" by (intro card_inj_on_le) auto
  then have "length (loaded s) \<le> sp_nblocks (sfs_super s)" using distinct_card [OF vtableD(3) [OF t]] by simp
  moreover have "sp_nblocks (sfs_super s) \<le> lh_blocks (sfs_device s)" "disk_ok (sfs_device s)"
    using fs_inv_space [OF inv] by (simp_all add: space_ok_def)
  ultimately show ?thesis by (simp add: disk_ok_def)
qed

text \<open>An inode on disk that is consistent with the files in memory.\<close>

definition inode_fits :: "sfs \<Rightarrow> nat \<Rightarrow> sfs_inode \<Rightarrow> bool" where
  "inode_fits s ino i \<longleftrightarrow> length (sfi_direct i) = SFS_NDIRECT \<and> distinct (file_blocks (block s) i) \<and>
     insert ino (set (file_blocks (block s) i)) \<subseteq> used s \<inter> {..<sp_nblocks (sfs_super s)} \<and> ino \<notin> set (file_blocks (block s) i) \<and>
     (\<forall>w sw. sfs_vn s w = Some sw \<longrightarrow> ino \<noteq> sv_ino sw \<and> ino \<notin> set (file_blocks (block s) (sv_i sw)) \<and>
        sv_ino sw \<notin> set (file_blocks (block s) i) \<and> set (file_blocks (block s) i) \<inter> set (file_blocks (block s) (sv_i sw)) = {})"

lemma vnodes_ok_add:
  assumes inv: "fs_inv s" and f: "inode_fits s (sv_ino sv) (sv_i sv)"
    and s': "sfs_vn s' = (sfs_vn s)(v \<mapsto> sv)" "sfs_vn s v = None" "sfs_super s' = sfs_super s" "block s' = block s" "used s' = used s"
  shows "vnodes_ok s'"
proof -
  have c: "w = v \<and> sw = sv \<or> w \<noteq> v \<and> sfs_vn s w = Some sw" if "sfs_vn s' w = Some sw" for w sw
    using that s'(1) by (auto split: if_splits)
  note fv = fs_inv_vnode [OF inv] and fo = fs_inv_other [OF inv]
  let ?F = "\<lambda>i. set (file_blocks (block s) i)"
  have g: "length (sfi_direct (sv_i sv)) = 15" "distinct (file_blocks (block s) (sv_i sv))"
    "?F (sv_i sv) \<subseteq> used s \<inter> {..<sp_nblocks (sfs_super s)}" "sv_ino sv \<in> used s \<inter> {..<sp_nblocks (sfs_super s)}"
    "sv_ino sv \<notin> ?F (sv_i sv)"
    using f by (auto simp: inode_fits_def)
  have h: "sv_ino sv \<noteq> sv_ino sw" "sv_ino sv \<notin> ?F (sv_i sw)" "sv_ino sw \<notin> ?F (sv_i sv)" "?F (sv_i sv) \<inter> ?F (sv_i sw) = {}"
    if "sfs_vn s w = Some sw" for w sw
    using f that unfolding inode_fits_def by metis+
  show ?thesis
    unfolding vnodes_ok_def s'(3-5)
  proof (intro conjI allI impI)
    fix w sw assume w: "sfs_vn s' w = Some sw"
    show "length (sfi_direct (sv_i sw)) = SFS_NDIRECT" "distinct (file_blocks (block s) (sv_i sw))"
      "?F (sv_i sw) \<subseteq> used s \<inter> {..<sp_nblocks (sfs_super s)}" "sv_ino sw \<in> used s \<inter> {..<sp_nblocks (sfs_super s)}"
      using c [OF w] g(1-4) fv [of w sw] by metis+
  next
    fix x w sx sw assume w: "x \<noteq> w" "sfs_vn s' x = Some sx" "sfs_vn s' w = Some sw"
    show "?F (sv_i sx) \<inter> ?F (sv_i sw) = {}" "sv_ino sx \<noteq> sv_ino sw"
      using c [OF w(2)] c [OF w(3)] w(1) h(1,4) [of x sx] h(1,4) [of w sw] fo(1,2) [of x sx w sw] by (metis Int_commute)+
  next
    fix x w sx sw assume w: "sfs_vn s' x = Some sx" "sfs_vn s' w = Some sw"
    show "sv_ino sx \<notin> ?F (sv_i sw)"
      using c [OF w(1)] c [OF w(2)] g(5) h(2,3) [of x sx] h(2,3) [of w sw] fo(3) [of x sx w sw] by metis
  qed
qed

lemma file_blocks_type [simp]: "file_blocks C (i\<lparr>sfi_type := t\<rparr>) = file_blocks C i"
  by (simp add: file_blocks_def indirect_blocks_def)

lemma inode_fits_type [simp]: "inode_fits s ino (i\<lparr>sfi_type := t\<rparr>) = inode_fits s ino i"
  by (simp add: inode_fits_def)

text \<open>What is in memory after inode \<open>ino\<close>, which was not, has been loaded at \<open>v\<close>.\<close>

definition loads :: "nat \<Rightarrow> nat \<Rightarrow> vref \<Rightarrow> sfs \<Rightarrow> sfs \<Rightarrow> bool" where
  "loads ino forcetype v s s' \<longleftrightarrow>
     (let i = inode_of_bytes (block s ino); type = (if forcetype = SFS_TYPE_INVAL then sfi_type i else forcetype) in
      sfs_vn s v = None \<and>
      sfs_vn s' = (sfs_vn s)(v \<mapsto> \<lparr>sv_ops = (if type = SFS_TYPE_FILE then File_ops else Dir_ops), sv_refcount = 1, sv_opencount = 0,
        sv_countlock = snd (the (sfs_kmem s 1)), sv_i = i\<lparr>sfi_type := type\<rparr>, sv_ino = ino, sv_dirty = (forcetype \<noteq> SFS_TYPE_INVAL)\<rparr>) \<and>
      loaded s' = loaded s @ [v] \<and> fs_inv s' \<and> vtable_ok s' \<and> kmem_ok s' \<and> block s' = block s \<and> used s' = used s \<and>
      sfs_super s' = sfs_super s \<and> sfs_req s' = sfs_req s)"

text \<open>Nothing but the kernel's memory and the state of the driver has changed.\<close>

definition only_mem :: "sfs \<Rightarrow> sfs \<Rightarrow> bool" where
  "only_mem s s' \<longleftrightarrow> (\<exists>d k. s' = s\<lparr>sfs_device := d, sfs_kmem := (\<lambda>n. sfs_kmem s (n + k))\<rparr> \<and> disk_ok d \<and>
     lh_sect d = block s \<and> lh_blocks d = lh_blocks (sfs_device s))"

lemma kmem_ok_shift:
  assumes "kmem_ok s" "sfs_kmem s' = (\<lambda>n. sfs_kmem s (n + k))" "dom (sfs_vn s') \<subseteq> dom (sfs_vn s)"
  shows "kmem_ok s'"
  unfolding kmem_ok_def
proof (intro conjI allI impI)
  fix n v j assume "sfs_kmem s' n = Some (v, j)"
  then have "sfs_kmem s (n + k) = Some (v, j)" using assms(2) by simp
  then have "sfs_vn s v = None" using assms(1) unfolding kmem_ok_def by blast
  then show "sfs_vn s' v = None" using assms(3) by (meson domIff subsetD)
next
  fix m n v j l assume "sfs_kmem s' m = Some (v, j)" "sfs_kmem s' n = Some (v, l)"
  then have "sfs_kmem s (m + k) = Some (v, j)" "sfs_kmem s (n + k) = Some (v, l)" using assms(2) by simp_all
  then have "m + k = n + k" using assms(1) unfolding kmem_ok_def by blast
  then show "m = n" by simp
qed

lemma kmem_ok_take:
  assumes "kmem_ok s" "sfs_kmem s 0 = Some (v, j)" "sfs_kmem s' = (\<lambda>n. sfs_kmem s (n + (k + 1)))" "dom (sfs_vn s') \<subseteq> insert v (dom (sfs_vn s))"
  shows "kmem_ok s'"
proof -
  let ?s = "s\<lparr>sfs_vn := (sfs_vn s')(v := None), sfs_kmem := sfs_kmem s'\<rparr>"
  have "kmem_ok ?s" by (rule kmem_ok_shift [OF assms(1), of _ "k + 1"]) (use assms(3,4) in auto)
  moreover have "sfs_kmem s' n \<noteq> Some (v, l)" for n l
  proof
    assume "sfs_kmem s' n = Some (v, l)"
    then have "sfs_kmem s (n + (k + 1)) = Some (v, l)" using assms(3) by simp
    then have "n + (k + 1) = 0" using assms(1,2) unfolding kmem_ok_def by blast
    then show False by simp
  qed
  ultimately show ?thesis unfolding kmem_ok_def by simp metis
qed

lemma load_new_ok:
  assumes inv: "fs_inv s" and t: "vtable_ok s" and km: "kmem_ok s"
    and i: "i = inode_of_bytes (block s ino)" "inode_fits s ino i"
    and ty: "if forcetype = SFS_TYPE_INVAL then sfi_type i \<in> {SFS_TYPE_FILE, SFS_TYPE_DIR}
             else sfi_type i = SFS_TYPE_INVAL \<and> forcetype \<in> {SFS_TYPE_FILE, SFS_TYPE_DIR}"
  shows "(\<exists>v s'. load_new ino forcetype s = Ret v s' \<and> loads ino forcetype v s s') \<or>
         (\<exists>s'. load_new ino forcetype s = Err ENOMEM s' \<and> only_mem s s' \<and> (\<exists>n. sfs_kmem s n = None))"
proof (cases "sfs_kmem s 0")
  case None
  have "only_mem s (s\<lparr>sfs_kmem := (\<lambda>n. sfs_kmem s (n + 1))\<rparr>)"
    using fs_inv_space [OF inv] unfolding only_mem_def space_ok_def
    by (intro exI [of _ "sfs_device s"] exI [of _ 1]) simp
  then show ?thesis using None by (auto simp: load_new_def kmalloc_next_def)
next
  case (Some w)
  obtain v j where vj: "w = (v, j)" by (cases w) simp
  note Some = Some [unfolded vj]
  have fresh: "sfs_vn s v = None" using km Some by (auto simp: kmem_ok_def)
  have ino: "ino \<in> used s" "ino < sp_nblocks (sfs_super s)" using i(2) by (auto simp: inode_fits_def)
  obtain d where d: "sfs_rblock ino (sfs_device s) = Ret (block s ino) d" "disk_ok d" "lh_sect d = block s"
      "lh_blocks d = lh_blocks (sfs_device s)"
    using lhd_disk.rblock [of "sfs_device s" ino] fs_inv_space [OF inv] ino(2) by (auto simp: space_ok_def)
  define type where "type = (if forcetype = SFS_TYPE_INVAL then sfi_type i else forcetype)"
  have type: "type = SFS_TYPE_FILE \<or> type = SFS_TYPE_DIR" using ty by (auto simp: type_def split: if_splits)
  define sv where "sv = \<lparr>sv_ops = File_ops, sv_refcount = 0, sv_opencount = 0, sv_countlock = free_lock, sv_i = i\<lparr>sfi_type := type\<rparr>, sv_ino = 0,
      sv_dirty = (forcetype \<noteq> SFS_TYPE_INVAL)\<rparr>"
  have sv: "sv = \<lparr>sv_ops = File_ops, sv_refcount = 0, sv_opencount = 0, sv_countlock = free_lock,
      sv_i = (if forcetype = SFS_TYPE_INVAL then i else i\<lparr>sfi_type := forcetype\<rparr>), sv_ino = 0, sv_dirty = (forcetype \<noteq> SFS_TYPE_INVAL)\<rparr>"
    by (simp add: sv_def type_def)
  define s1 where "s1 = s\<lparr>sfs_kmem := (\<lambda>n. sfs_kmem s (n + 1)), sfs_device := d, sfs_vn := (sfs_vn s)(v \<mapsto> sv)\<rparr>"
  let ?ops = "if type = SFS_TYPE_FILE then File_ops else Dir_ops"
  define s0 where "s0 = new_vnode v (s\<lparr>sfs_kmem := (\<lambda>n. sfs_kmem s (Suc n))\<rparr>)"
  have s0: "sfs_device s0 = sfs_device s" "sfs_bused ino s0 = Ret True s0"
    using sfs_bused_ok [of s0 ino] fs_inv_space [OF inv] ino by (simp_all add: s0_def new_vnode_def space_ok_def)
  have rb: "fs_rblock ino s0 = Ret (block s ino) (s0\<lparr>sfs_device := d\<rparr>)" using d(1) s0(1) by (simp add: fs_rblock_def)
  have e: "load_new ino forcetype s = load_install ino ?ops v s1"
    using Some s0(2) rb ty type i(1)
    by (auto simp: load_new_def kmalloc_next_def s0_def [symmetric] Let_def type_def split: if_splits)
      (simp_all add: s0_def new_vnode_def s1_def sv upd_vn_def upd_inode_def)
  have a1: "array_inv (sfs_vnodes s1)" "length (array_cells (sfs_vnodes s1)) + 1 < 2 ^ 29" "sfs_vn s1 v = Some sv"
    using vtableD(1,2) [OF t] loaded_bound [OF inv t] by (simp_all add: s1_def)
  from load_install_ok [OF a1, of ino ?ops] show ?thesis
  proof (elim disjE exE conjE)
    fix a k assume a: "load_install ino ?ops v s1 = Ret v (s1\<lparr>sfs_vnodes := a, sfs_kmem := (\<lambda>n. sfs_kmem s1 (n + k)),
        sfs_vn := (sfs_vn s1)(v \<mapsto> sv\<lparr>sv_ops := ?ops, sv_refcount := 1, sv_opencount := 0, sv_countlock := snd (the (sfs_kmem s1 0)), sv_ino := ino\<rparr>)\<rparr>)"
      "array_inv a" "array_cells a = array_cells (sfs_vnodes s1) @ [Some v]"
    let ?sv = "sv\<lparr>sv_ops := ?ops, sv_refcount := 1, sv_opencount := 0, sv_countlock := snd (the (sfs_kmem s1 0)), sv_ino := ino\<rparr>"
    define s' where "s' = s1\<lparr>sfs_vnodes := a, sfs_kmem := (\<lambda>n. sfs_kmem s1 (n + k)), sfs_vn := (sfs_vn s1)(v \<mapsto> ?sv)\<rparr>"
    have vn: "sfs_vn s' = (sfs_vn s)(v \<mapsto> ?sv)" by (simp add: s'_def s1_def)
    have ca: "array_cells (sfs_vnodes s') = map Some (loaded s @ [v])" using a(3) vtableD(2) [OF t] by (simp add: s'_def s1_def)
    then have l: "loaded s' = loaded s @ [v]" by (simp add: loaded_def comp_def)
    have "vnodes_ok s'"
      by (rule vnodes_ok_add [OF inv _ vn fresh]) (use i(2) d(3) in \<open>simp_all add: s'_def s1_def sv_def\<close>)
    moreover have "space_ok s'" using fs_inv_space [OF inv] d by (simp add: s'_def s1_def space_ok_def)
    moreover have "vtable_ok s'" using a(2) ca l vtableD(3,4) [OF t] fresh unfolding vtable_ok_def l ca vn
      by (auto simp: s'_def)
    moreover have "kmem_ok s'" by (rule kmem_ok_take [OF km Some, of _ k]) (auto simp: vn, simp add: s'_def s1_def add.assoc)
    ultimately have "loads ino forcetype v s s'"
      using vn l fresh d(3) i(1) unfolding loads_def Let_def by (simp add: fs_inv_def s'_def s1_def sv_def type_def)
    then show ?thesis using e a(1) s'_def by auto
  next
    fix k n assume a: "load_install ino ?ops v s1 = Err ENOMEM (s1\<lparr>sfs_kmem := (\<lambda>n. sfs_kmem s1 (n + k)), sfs_vn := (sfs_vn s1)(v := None)\<rparr>)"
      "sfs_kmem s1 n = None"
    have z: "\<exists>n. sfs_kmem s n = None" using a(2) by (auto simp: s1_def)
    have q: "s1\<lparr>sfs_kmem := (\<lambda>n. sfs_kmem s1 (n + k)), sfs_vn := (sfs_vn s1)(v := None)\<rparr> =
        s\<lparr>sfs_device := d, sfs_kmem := (\<lambda>n. sfs_kmem s (n + (k + 1)))\<rparr>"
      using fresh by (simp add: s1_def fun_upd_idem add.assoc)
    have "only_mem s (s\<lparr>sfs_device := d, sfs_kmem := (\<lambda>n. sfs_kmem s (n + (k + 1)))\<rparr>)"
      using d unfolding only_mem_def by blast
    with trans [OF e a(1) [unfolded q]] z show ?thesis by blast
  qed
qed

lemma fs_inv_upd_vn:
  assumes inv: "fs_inv s" and v: "sfs_vn s v = Some sv" and f: "sv_ino (f sv) = sv_ino sv" "sv_i (f sv) = sv_i sv"
  shows "fs_inv (upd_vn v f s)"
  by (rule fs_inv_vn_cong [OF inv v, of _ "f sv"]) (use f v fs_inv_space [OF inv] in \<open>simp_all add: upd_vn_def\<close>)

lemma find_eq: "x \<in> set xs \<Longrightarrow> List.find (\<lambda>y. y = x) xs = Some x"
  by (induction xs) auto

lemma sfs_loadvnode_hit:
  assumes inv: "fs_inv s" and t: "vtable_ok s" and v: "sfs_vn s v = Some sv" "sv_refcount sv < INT_MAX"
  shows "sfs_loadvnode (sv_ino sv) SFS_TYPE_INVAL s =
     (if l_pointer (sv_countlock sv) = Some self then Panic else if l_held (sv_countlock sv) \<noteq> 0 then Sleeps
      else Ret v (unlocked v (sv\<lparr>sv_refcount := sv_refcount sv + 1\<rparr>) s))"
proof -
  let ?P = "\<lambda>w. \<exists>sw. sfs_vn s w = Some sw \<and> sv_ino sw = sv_ino sv"
  have "w = v" if "?P w" for w using that fs_inv_other(2) [OF inv _ v(1)] by blast
  then have P: "?P = (\<lambda>w. w = v)" using v(1) by auto
  have "v \<in> set (loaded s)" using vtableD(4) [OF t] v(1) by auto
  then have "List.find (\<lambda>w. w = v) (loaded s) = Some v" by (rule find_eq)
  then show ?thesis
    using load_scan_ok [OF inv t, of 0 "length (loaded s)" "sv_ino sv"] vtable_length [OF t] P
    by (simp add: sfs_loadvnode_def vnode_incref_cases [OF v])
qed

lemma sfs_loadvnode_miss:
  assumes inv: "fs_inv s" and t: "vtable_ok s" and "\<And>v sv. sfs_vn s v = Some sv \<Longrightarrow> sv_ino sv \<noteq> ino"
  shows "sfs_loadvnode ino forcetype s = load_new ino forcetype s"
proof -
  have "List.find (\<lambda>v. \<exists>sv. sfs_vn s v = Some sv \<and> sv_ino sv = ino) (loaded s) = None"
    using assms(3) by (auto simp: find_None_iff)
  then show ?thesis
    using load_scan_ok [OF inv t, of 0 "length (loaded s)" ino] vtable_length [OF t] by (simp add: sfs_loadvnode_def)
qed

section \<open>Properties\<close>

lemma sample_vol_table: "vtable_ok sample_vol" "kmem_ok sample_vol" "loaded sample_vol = [0]"
proof -
  have c: "array_cells (sfs_vnodes sample_vol) = [Some 0]" by (simp add: sample_vol_def array_cells_def)
  then show l: "loaded sample_vol = [0]" by (simp add: loaded_def)
  show "vtable_ok sample_vol" unfolding vtable_ok_def l c by (simp add: sample_vol_def array_inv_def)
  show "kmem_ok sample_vol" unfolding kmem_ok_def by (simp add: sample_vol_def)
qed

lemma sample_vol_file: "inode_of_bytes (block sample_vol 3) = sample_file" "inode_fits sample_vol 3 sample_file"
proof -
  show "inode_of_bytes (block sample_vol 3) = sample_file"
    using inode_roundtrip [of sample_file] by (simp add: sample_sect_def sample_file_def)
  have f: "file_blocks C sample_file = [5]" "file_blocks C sample_root = [4]" for C
    by (simp_all add: file_blocks_def indirect_blocks_def sample_file_def sample_root_def)
  show "inode_fits sample_vol 3 sample_file"
    unfolding inode_fits_def f by (auto simp: f sample_vol_used split: if_splits) (simp add: sample_file_def)
qed

lemma vnode_decref_unlinked:
  assumes inv: "fs_inv s" and t: "vtable_ok s" and v: "sfs_vn s v = Some sv" and f: "sv_ops sv = File_ops" "sv_ino sv \<noteq> 0"
    and c: "sv_refcount sv = 1" "sv_opencount sv = 0" "sfi_linkcount (sv_i sv) = 0" "length (sfi_waste (sv_i sv)) = 440"
    and l: "idle_lock (sv_countlock sv)"
  shows "\<exists>s'. vnode_decref v s = Ret () s' \<and> fs_inv s' \<and> vtable_ok s' \<and> sfs_vn s' = (sfs_vn s)(v := None) \<and>
     used s' = used s - insert (sv_ino sv) (set (file_blocks (block s) (sv_i sv))) \<and>
     (\<forall>b. b \<noteq> sv_ino sv \<longrightarrow> block s' b = block s b)"
proof -
  let ?sv = "sv\<lparr>sv_countlock := free_lock\<rparr>"
  have u: "sfs_vn (unlocked v sv s) v = Some ?sv" by simp
  obtain s' where s': "reclaim_unused v (unlocked v sv s) = Ret () s'" "fs_inv s'" "vtable_ok s'"
      "sfs_vn s' = (sfs_vn s)(v := None)" "used s' = used s - insert (sv_ino sv) (set (file_blocks (block s) (sv_i sv)))"
      "\<forall>b. b \<noteq> sv_ino sv \<longrightarrow> block s' b = block s b"
    using reclaim_unlinked [OF unlocked_ok(1,2) [OF inv t v] u] f c by auto
  then show ?thesis using vnode_decref_last [OF v c(1,2)] l by (simp add: idle_lock_def)
qed






text \<open>
  C10. Dropping the last reference to a file that no directory refers to erases it, if the lock of its reference count is
  free: its vnode leaves the table, and its data blocks, its indirect block and its inode become free, and nothing else.
\<close>

theorem last_decref_erases_file:
  assumes "fs_inv s" "vtable_ok s" "sfs_vn s v = Some sv" "sv_ops sv = File_ops" "sv_ino sv \<noteq> 0"
    and "sv_refcount sv = 1" "sv_opencount sv = 0" "sfi_linkcount (sv_i sv) = 0" "length (sfi_waste (sv_i sv)) = 440"
    and "idle_lock (sv_countlock sv)"
  shows "\<exists>s'. vnode_decref v s = Ret () s' \<and> fs_inv s' \<and> vtable_ok s' \<and> sfs_vn s' = (sfs_vn s)(v := None) \<and>
     used s' = used s - insert (sv_ino sv) (set (file_blocks (block s) (sv_i sv))) \<and>
     (\<forall>b. b \<noteq> sv_ino sv \<longrightarrow> block s' b = block s b)"
  by (rule vnode_decref_unlinked [OF assms])

theorem last_decref_erases_file_witness:
  "\<exists>s'. vnode_decref 0 (upd_inode 0 (\<lambda>i. i\<lparr>sfi_linkcount := 0\<rparr>) (sample_fs 0 0 UIO_READ)) = Ret () s' \<and> used s' = {0, 1, 2, 6, 7}"
proof -
  let ?s = "upd_inode 0 (\<lambda>i. i\<lparr>sfi_linkcount := 0\<rparr>) (sample_fs 0 0 UIO_READ)"
  let ?sv = "\<lparr>sv_ops = File_ops, sv_refcount = 1, sv_opencount = 0, sv_countlock = free_lock,
    sv_i = sample_inode\<lparr>sfi_linkcount := 0\<rparr>, sv_ino = 3, sv_dirty = True\<rparr>"
  have vn: "sfs_vn ?s = (sfs_vn (sample_fs 0 0 UIO_READ))(0 \<mapsto> ?sv)" using upd_inode_vn [OF sample_vn] by simp
  have inv: "fs_inv ?s"
    by (rule fs_inv_vn_cong [OF sample_fs_inv [of 0 0 UIO_READ] sample_vn vn])
       (use sample_fs_space in \<open>simp_all add: upd_inode_more\<close>)
  have c: "array_cells (sfs_vnodes ?s) = [Some 0]" by (simp add: sample_fs_def array_cells_def)
  then have l: "loaded ?s = [0]" by (simp add: loaded_def)
  have t: "vtable_ok ?s" unfolding vtable_ok_def l c vn by (simp add: sample_fs_def array_inv_def)
  have f: "file_blocks C (sv_i ?sv) = [4, 5]" for C by (simp add: file_blocks_def indirect_blocks_def sample_inode_def)
  have "{..<8} - {3, 4, 5} = {0, 1, 2, 6, 7::nat}" by auto
  then show ?thesis
    using last_decref_erases_file [OF inv t, of 0 ?sv] vn f sample_fs_used by (simp add: sample_inode_def) blast
qed



text \<open>
  C12. The lock of the reference count is not initialised.  After an inode has been loaded that was not in memory, also as a new file
  or directory, and if the memory that the lock was put in contains a \<^verbatim>\<open>held\<close> other than 0 (memory that has been freed before
  contains \<^verbatim>\<open>0xdeadbeef\<close>), loading the inode again sleeps forever, and so does dropping the reference.  A vnode operation
  called in between clears a \<^verbatim>\<open>held\<close> other than 1, after which loading works; with a 1 it sleeps forever, too.
\<close>

theorem uninitialised_countlock:
  assumes inv: "fs_inv s" and t: "vtable_ok s" and k: "kmem_ok s"
    and new: "\<forall>v sv. sfs_vn s v = Some sv \<longrightarrow> sv_ino sv \<noteq> ino"
      "inode_fits s ino (inode_of_bytes (block s ino))"
      "if forcetype = SFS_TYPE_INVAL then sfi_type (inode_of_bytes (block s ino)) \<in> {SFS_TYPE_FILE, SFS_TYPE_DIR}
       else sfi_type (inode_of_bytes (block s ino)) = SFS_TYPE_INVAL \<and> forcetype \<in> {SFS_TYPE_FILE, SFS_TYPE_DIR}"
    and junk: "sfs_kmem s 1 = Some (a, junk)" "l_held junk \<noteq> 0" "l_pointer junk \<noteq> Some self"
    and l: "sfs_loadvnode ino forcetype s = Ret v s'"
  shows "sfs_loadvnode ino SFS_TYPE_INVAL s' = Sleeps \<and> vnode_decref v s' = Sleeps \<and>
     (if l_held junk = 1 then vnode_check op v s' = Sleeps
      else \<exists>s1 s2. vnode_check op v s' = Ret () s1 \<and> sfs_loadvnode ino SFS_TYPE_INVAL s1 = Ret v s2)"
proof -
  have "load_new ino forcetype s = Ret v s'" using sfs_loadvnode_miss [OF inv t, of ino forcetype] new(1) l by simp
  then have L: "loads ino forcetype v s s'" using load_new_ok [OF inv t k refl new(2,3)] by auto
  obtain sv where i: "fs_inv s'" "vtable_ok s'"
    and sv: "sfs_vn s' v = Some sv" "sv_ino sv = ino" "sv_refcount sv = 1" "sv_opencount sv = 0" "sv_countlock sv = junk"
    using L junk(1) by (auto simp: loads_def Let_def)
  have r: "sv_refcount sv < INT_MAX" "0 < sv_refcount sv" "0 \<le> sv_opencount sv" using sv(3,4) by simp_all
  note h = sfs_loadvnode_hit [OF i sv(1) r(1), unfolded sv(2,5)]
  note u = unlocked_ok [OF i sv(1)]
  have "sfs_loadvnode ino SFS_TYPE_INVAL (unlocked v sv s') =
      Ret v (unlocked v (sv\<lparr>sv_countlock := free_lock, sv_refcount := sv_refcount sv + 1\<rparr>) (unlocked v sv s'))"
    using sfs_loadvnode_hit [OF u(1,2), of v "sv\<lparr>sv_countlock := free_lock\<rparr>"] r(1) sv(2) by simp
  then show ?thesis
    using h junk(2,3) vnode_decref_last [OF sv(1,3,4)] vnode_check_cases [OF sv(1) r(2,3), of op] sv(5) by simp
qed

text \<open>The sample volume when the heap hands out memory that has been freed before.\<close>

definition recycled_vol :: sfs where
  "recycled_vol = sample_vol\<lparr>sfs_kmem := (\<lambda>n. Some (Suc n, \<lparr>l_held = - 559038737, l_pointer = Some 3735928559\<rparr>))\<rparr>"

lemma recycled_vol_ok: "fs_inv recycled_vol" "vtable_ok recycled_vol" "kmem_ok recycled_vol" "sfs_vn recycled_vol = sfs_vn sample_vol"
  "block recycled_vol = block sample_vol" "inode_fits recycled_vol 3 sample_file"
proof -
  show "fs_inv recycled_vol" using sample_vol_inv
    unfolding recycled_vol_def fs_inv_def space_ok_def vnodes_ok_def by simp
  show "vtable_ok recycled_vol" by (rule vtable_cong(1) [OF sample_vol_table(1)]) (simp_all add: recycled_vol_def)
  show "kmem_ok recycled_vol" by (simp add: kmem_ok_def recycled_vol_def)
  show "inode_fits recycled_vol 3 sample_file" using sample_vol_file(2) by (simp add: inode_fits_def recycled_vol_def)
qed (simp_all add: recycled_vol_def)

theorem uninitialised_countlock_witness:
  "\<exists>v s'. sfs_loadvnode 3 SFS_TYPE_INVAL recycled_vol = Ret v s' \<and>
     sfs_loadvnode 3 SFS_TYPE_INVAL s' = Sleeps \<and> vnode_decref v s' = Sleeps"
proof -
  let ?j = "\<lparr>l_held = - 559038737, l_pointer = Some 3735928559\<rparr> :: lock"
  note ok = recycled_vol_ok(1-3)
  have f: "inode_of_bytes (block recycled_vol 3) = sample_file" using sample_vol_file(1) recycled_vol_ok(5) by simp
  have new: "\<forall>v sv. sfs_vn recycled_vol v = Some sv \<longrightarrow> sv_ino sv \<noteq> 3" using recycled_vol_ok(4) by simp
  have t: "sfi_type sample_file \<in> {SFS_TYPE_FILE, SFS_TYPE_DIR}" by (simp add: sample_file_def)
  have k: "sfs_kmem recycled_vol 1 = Some (2, ?j)" "sfs_kmem recycled_vol n \<noteq> None" for n by (simp_all add: recycled_vol_def)
  have "sfs_loadvnode 3 SFS_TYPE_INVAL recycled_vol = load_new 3 SFS_TYPE_INVAL recycled_vol"
    by (rule sfs_loadvnode_miss [OF ok(1,2)]) (use new in blast)
  moreover obtain v s' where "load_new 3 SFS_TYPE_INVAL recycled_vol = Ret v s'"
    using load_new_ok [OF ok f [symmetric] recycled_vol_ok(6), of 0] t k(2) by auto
  ultimately have l: "sfs_loadvnode 3 SFS_TYPE_INVAL recycled_vol = Ret v s'" by simp
  have "l_held ?j \<noteq> 0" "l_pointer ?j \<noteq> Some self" by simp_all
  from uninitialised_countlock [OF ok new _ _ k(1) this l, unfolded f] recycled_vol_ok(6) t l show ?thesis by auto
qed

end
