(* ===== verification/Spec2Isabelle.thy ===== *)
theory Spec2Isabelle
  imports Synch Kheap_Free Sfs_Fs Sfs_Lifetime
begin

text \<open>
  A verification of the OS/161 kernel in \<^verbatim>\<open>src/os161\<close>.

  \<^bold>\<open>The program.\<close>  The kernel runs threads on one MIPS processor.  Threads are switched by the thread
  system (\<^verbatim>\<open>kern/thread\<close>) and wait for each other with semaphores, locks and condition variables.
  Memory is handed out in pages by the core map and in smaller blocks by the kernel heap.  Data moves
  between the kernel, user programs and devices through \<^verbatim>\<open>uio\<close> structures.  The disk driver reads and writes
  sectors, and the file system SFS (\<^verbatim>\<open>kern/fs/sfs\<close>) keeps files and directories on them; it is called through
  the tables of vnode operations.

  \<^bold>\<open>The state and the outcomes.\<close>  Each component has a record with its variables, and each C function is a
  definition of the same name that maps a state to an \<open>outcome\<close>: \<open>Ret\<close> with the result and the
  new state, \<open>Err\<close> with an error code and the state at that point, \<open>Panic\<close> for a panic or a failed
  assertion, \<open>Undef\<close> for what C leaves undefined (an access outside an object, a signed overflow, the
  use of a freed structure), and \<open>Sleeps\<close> for a thread that sleeps on a lock that nobody is going to release.  A
  property that a call ends in \<open>Ret\<close> or \<open>Err\<close> therefore also says that it neither panics, nor
  leaves the defined part of C, nor hangs.  Memory allocation can fail at every call: the answers are an argument
  (\<open>ok\<close>) or a stream in the state.  What uninitialised memory contains is an argument (\<open>junk\<close>) or comes
  with the answer of the allocator.  Pointers to structures are numbers, with a map from them to the structures that exist.

  \<^bold>\<open>The theories.\<close>
  \<^item> \<open>OS161_Prelude\<close>: error codes (\<^verbatim>\<open>kern/include/kern/errno.h\<close>), outcomes, sequencing, C integers.
  \<^item> \<open>Kern_Array\<close>, \<open>Kern_Queue\<close>, \<open>Kern_Bitmap\<close>: the containers of \<^verbatim>\<open>kern/lib\<close>.  The lemmas
    show that they implement a sequence, a first-in first-out queue, and a set of bits; the contracts are
    the locales \<open>growable_array\<close>, \<open>fifo_queue\<close> and \<open>bit_allocator\<close>, interpreted on the code's model.
  \<^item> \<open>Threads\<close>: \<^verbatim>\<open>kern/thread/thread.c\<close>, \<^verbatim>\<open>scheduler.c\<close>, \<^verbatim>\<open>hardclock.c\<close> and
    \<^verbatim>\<open>kern/arch/mips/mips/spl.c\<close>.  A context switch resumes another thread at the point recorded in its
    control block.  The lemmas show that scheduling is round robin and that a wakeup readies exactly the sleepers
    on its address, and where the preallocation of cells is too small.
  \<^item> \<open>Synch\<close>: \<^verbatim>\<open>kern/thread/synch.c\<close>.  The primitives run as steps of an interleaving system;
    its invariants give mutual exclusion and the absence of lost wakeups, and the exact effect of every primitive in
    every reachable state.  The callers' obligation that \<^verbatim>\<open>synch.h\<close> states, that a lock is released by its holder, is a
    condition of the steps.
  \<^item> \<open>Uio\<close>: \<^verbatim>\<open>kern/lib/copyinout.c\<close> and \<^verbatim>\<open>kern/userprog/uio.c\<close>.  The lemmas give the result of
    the region check for every region, and show which bytes a transfer moves and when it faults.
  \<^item> \<open>Disk\<close>: \<^verbatim>\<open>kern/dev/lamebus/lhd.c\<close> and \<^verbatim>\<open>kern/fs/sfs/sfs_io.c\<close>, with the contract \<open>block_store\<close>.
    The disk card is a store of sectors with a sequence of answers, in which a failed write leaves the sector as it was.
  \<^item> \<open>Coremap\<close>: \<^verbatim>\<open>kern/arch/mips/mips/ram.c\<close>, the page allocator of \<^verbatim>\<open>kern/vm/vm.c\<close> and
    \<^verbatim>\<open>kern/userprog/mem.c\<close>, with its contract, the locale \<open>page_allocator\<close>.
    An allocation takes the first run of free pages or fails; the pages of two runs never overlap.
  \<^item> \<open>Kheap\<close>, \<open>Kheap_Alloc\<close>, \<open>Kheap_Free\<close>: \<^verbatim>\<open>kern/lib/kheap.c\<close>, its invariant with allocation, and
    freeing.  The invariant ties the page references, the free lists inside the pages and the core map together.  The lemmas show
    that \<^verbatim>\<open>kmalloc\<close> hands out memory that no other block has and \<^verbatim>\<open>kfree\<close> takes back exactly one block, over all
    sequences of calls, and what happens when the rounding of the size wraps around.
  \<^item> \<open>Sfs_Core\<close>, \<open>Sfs_Bmap\<close>, \<open>Sfs_File\<close>, \<open>Sfs_Write\<close>: the on-disk format, block
    allocation, the block map and the I/O of \<^verbatim>\<open>kern/fs/sfs/sfs_vnode.c\<close>.  A file is the sequence of bytes that
    its blocks hold; reads deliver it and writes replace a part of it, while all other files keep theirs.
  \<^item> \<open>Sfs_Dir\<close>: directories as finite maps from names to inodes (locale \<open>name_table\<close>).
  \<^item> \<open>Sfs_Vnode\<close>, \<open>Sfs_Truncate\<close>, \<open>Sfs_Lifetime\<close>: the vnode layer
    (\<^verbatim>\<open>kern/fs/vfs/vnode.c\<close>) with the lock of its counts, all vnode operations of SFS, truncation, and the life of
    a vnode from \<^verbatim>\<open>sfs_loadvnode\<close> to \<^verbatim>\<open>sfs_reclaim\<close>.  A vnode that leaves memory and comes back has the same
    inode.  A new count lock contains what was in its memory, and the lemmas say when it makes the operations sleep.
  \<^item> \<open>Sfs_Fs\<close>: mounting, unmounting and synchronising a volume (\<^verbatim>\<open>kern/fs/sfs/sfs_fs.c\<close>).

  \<^bold>\<open>Loops.\<close>  A loop is a recursive function with a measure, or it carries a bound on its iterations and ends in
  \<open>Undef\<close> when the bound is used up.  The bounds are the number of elements that the loop can visit at most: the cells of
  an array or queue, the blocks of a file, the page references of the heap; the lemmas show that under the
  invariant of the component the bound is never reached.  The retry loop of \<^verbatim>\<open>sfs_rwblock\<close> has the ten retries of
  the source, and a waiting loop of a synchronization primitive makes one iteration per step of the interleaving system.

  \<^bold>\<open>Structures on disk.\<close>  C copies the raw bytes of a structure between memory and a block.  The encodings
  \<open>inode_bytes\<close>, \<open>super_bytes\<close> and \<open>dir_bytes\<close> and their inverses are these bytes on the big-endian machine.

  \<^bold>\<open>Not modelled.\<close>  The assembly files, the traps and the start of the machine, since their behaviour is that of the processor.
  The other devices and the bus, which are register accesses to hardware that is not in the sources.  Address spaces, page
  faults, processes, system calls and the loading of programs, which work on the memory management unit and on user memory.  The
  table of devices and the lookup of names above SFS.  Formatted output and the C library, the menu, the tests and the user
  programs.  The file system is followed for one request at a time: concurrent requests on one volume, which SFS does not
  synchronise, are outside the model.
\<close>

end
